(* ===== verification/Xv6_Prelude.thy ===== *)
theory Xv6_Prelude
  imports Main "HOL-Library.Word"
begin

text \<open>
  Shared vocabulary of the development: the machine integers of \<^verbatim>\<open>types.h\<close>, the
  outcome of a kernel routine (it returns, panics, gives up the CPU in \<^verbatim>\<open>swtch\<close>, or
  hangs), sequencing of routines over an explicit state, the early-exit loop over
  the entries of a table, invariant preservation for routines, and the search for a
  free slot that the kernel's fixed-size tables share.
\<close>

unbundle bit_operations_syntax

type_synonym u8 = "8 word"
type_synonym u16 = "16 word"
type_synonym u32 = "32 word"

named_theorems kop_simps \<open>unfolding of the routine combinators\<close>
named_theorems kpres_intros \<open>invariant preservation, one rule per combinator and routine\<close>

section \<open>Kernel routines\<close>

text \<open>
  \<open>Ret a s\<close>: the routine returned \<open>a\<close> in state \<open>s\<close>. \<open>Panic m\<close>: it called
  \<^verbatim>\<open>panic(m)\<close>, which never returns. \<open>Switch s\<close>: it called \<^verbatim>\<open>swtch\<close> to the
  scheduler in state \<open>s\<close> (in \<^verbatim>\<open>sched\<close>, hence in \<^verbatim>\<open>sleep\<close>, \<^verbatim>\<open>yield\<close> and
  \<^verbatim>\<open>exit\<close>). \<open>Hang\<close>: it spins or loops for ever. \<open>Fault\<close>: it does something C leaves
  undefined, such as following a null pointer or indexing past the end of an array.
\<close>

datatype ('s, 'a) outcome = Ret 'a 's | Panic string | Switch 's | Hang | Fault

type_synonym ('s, 'a) kop = "'s \<Rightarrow> ('s, 'a) outcome"

definition kret :: "'a \<Rightarrow> ('s, 'a) kop" where
  "kret a s = Ret a s"

definition kbind :: "('s, 'a) kop \<Rightarrow> ('a \<Rightarrow> ('s, 'b) kop) \<Rightarrow> ('s, 'b) kop" where
  "kbind m f s =
     (case m s of Ret a t \<Rightarrow> f a t | Panic e \<Rightarrow> Panic e | Switch t \<Rightarrow> Switch t
      | Hang \<Rightarrow> Hang | Fault \<Rightarrow> Fault)"

definition kseq :: "('s, unit) kop \<Rightarrow> ('s, 'b) kop \<Rightarrow> ('s, 'b) kop" where
  "kseq m n = kbind m (\<lambda>_. n)"

definition kpanic :: "string \<Rightarrow> ('s, 'a) kop" where
  "kpanic e s = Panic e"

definition kfault :: "('s, 'a) kop" where
  "kfault s = Fault"

definition kget :: "('s \<Rightarrow> 'a) \<Rightarrow> ('s, 'a) kop" where
  "kget f s = Ret (f s) s"

definition kmod :: "('s \<Rightarrow> 's) \<Rightarrow> ('s, unit) kop" where
  "kmod f s = Ret () (f s)"

definition kassert :: "('s \<Rightarrow> bool) \<Rightarrow> string \<Rightarrow> ('s, unit) kop" where
  "kassert P e s = (if P s then Ret () s else Panic e)"

declare kret_def [kop_simps] kbind_def [kop_simps] kseq_def [kop_simps] kpanic_def [kop_simps]
  kfault_def [kop_simps]
  kget_def [kop_simps] kmod_def [kop_simps] kassert_def [kop_simps]

text \<open>A loop over a table whose body may leave the routine early with a value.\<close>

fun kfor :: "'i list \<Rightarrow> ('i \<Rightarrow> ('s, 'r option) kop) \<Rightarrow> ('s, 'r option) kop" where
  "kfor [] body = kret None"
| "kfor (i # is) body =
     kbind (body i) (\<lambda>r. case r of None \<Rightarrow> kfor is body | Some x \<Rightarrow> kret (Some x))"

text \<open>A loop over a table that runs to its end.\<close>

fun kforeach :: "'i list \<Rightarrow> ('i \<Rightarrow> ('s, unit) kop) \<Rightarrow> ('s, unit) kop" where
  "kforeach [] body = kret ()"
| "kforeach (i # is) body = kseq (body i) (kforeach is body)"

lemma kbind_assoc: "kbind (kbind m f) g = kbind m (\<lambda>a. kbind (f a) g)"
  by (rule ext) (simp add: kbind_def split: outcome.splits)

lemma kbind_kret [simp]: "kbind (kret a) f = f a" "kbind m kret = m"
  by (auto intro!: ext simp: kbind_def kret_def split: outcome.splits)

lemma kbind_RetD:
  "kbind m f s = Ret b u \<Longrightarrow> \<exists>a t. m s = Ret a t \<and> f a t = Ret b u"
  by (simp add: kbind_def split: outcome.splits)

lemma kbind_SwitchD:
  "kbind m f s = Switch u \<Longrightarrow> m s = Switch u \<or> (\<exists>a t. m s = Ret a t \<and> f a t = Switch u)"
  by (simp add: kbind_def split: outcome.splits)

lemma kbind_eq: "m s = Ret a t \<Longrightarrow> kbind m f s = f a t"
  by (simp add: kbind_def)

lemma kseq_eq: "m s = Ret () t \<Longrightarrow> kseq m n s = n t"
  by (simp add: kseq_def kbind_eq)

section \<open>Invariants of routines\<close>

text \<open>
  \<open>kpres I m\<close>: started in a state with \<open>I\<close>, the routine keeps \<open>I\<close> in every state
  in which it returns or hands the CPU over.
\<close>

definition kpres :: "('s \<Rightarrow> bool) \<Rightarrow> ('s, 'a) kop \<Rightarrow> bool" where
  "kpres I m \<longleftrightarrow>
     (\<forall>s. I s \<longrightarrow> (case m s of Ret a t \<Rightarrow> I t | Panic e \<Rightarrow> True | Switch t \<Rightarrow> I t
        | Hang \<Rightarrow> True | Fault \<Rightarrow> True))"

lemma kpresD: "kpres I m \<Longrightarrow> I s \<Longrightarrow> m s = Ret a t \<Longrightarrow> I t"
  unfolding kpres_def by (drule spec [of _ s]) simp

lemma kpresD_Switch: "kpres I m \<Longrightarrow> I s \<Longrightarrow> m s = Switch t \<Longrightarrow> I t"
  unfolding kpres_def by (drule spec [of _ s]) simp

lemma kpresI:
  "(\<And>s a t. I s \<Longrightarrow> m s = Ret a t \<Longrightarrow> I t) \<Longrightarrow> (\<And>s t. I s \<Longrightarrow> m s = Switch t \<Longrightarrow> I t)
   \<Longrightarrow> kpres I m"
  unfolding kpres_def by (intro allI impI, split outcome.split) blast

lemma kpres_kret [kpres_intros]: "kpres I (kret a)"
  by (simp add: kpres_def kret_def)

lemma kpres_kbind [kpres_intros]:
  "kpres I m \<Longrightarrow> (\<And>a. kpres I (f a)) \<Longrightarrow> kpres I (kbind m f)"
proof (rule kpresI)
  assume m: "kpres I m" and f: "\<And>a. kpres I (f a)"
  fix s assume s: "I s"
  show "I u" if "kbind m f s = Ret b u" for b u
  proof -
    from that obtain a t where "m s = Ret a t" "f a t = Ret b u" by (blast dest: kbind_RetD)
    then show ?thesis using kpresD [OF f] kpresD [OF m s] by simp
  qed
  show "I u" if "kbind m f s = Switch u" for u
  proof (cases "m s = Switch u")
    case True
    then show ?thesis by (rule kpresD_Switch [OF m s])
  next
    case False
    with that obtain a t where "m s = Ret a t" "f a t = Switch u" by (blast dest: kbind_SwitchD)
    then show ?thesis using kpresD_Switch [OF f] kpresD [OF m s] by simp
  qed
qed

lemma kpres_kseq [kpres_intros]: "kpres I m \<Longrightarrow> kpres I n \<Longrightarrow> kpres I (kseq m n)"
  by (simp add: kseq_def kpres_kbind)

lemma kpres_kpanic [kpres_intros]: "kpres I (kpanic e)"
  by (simp add: kpres_def kpanic_def)

lemma kpres_kfault [kpres_intros]: "kpres I kfault"
  by (simp add: kpres_def kfault_def)

lemma kpres_kget [kpres_intros]: "kpres I (kget f)"
  by (simp add: kpres_def kget_def)

lemma kpres_kassert [kpres_intros]: "kpres I (kassert P e)"
  by (simp add: kpres_def kassert_def)

lemma kpres_kmod: "(\<And>s. I s \<Longrightarrow> I (f s)) \<Longrightarrow> kpres I (kmod f)"
  by (simp add: kpres_def kmod_def)

lemma kpres_if [kpres_intros]:
  "(b \<Longrightarrow> kpres I m) \<Longrightarrow> (\<not> b \<Longrightarrow> kpres I n) \<Longrightarrow> kpres I (if b then m else n)"
  by simp

lemma kpres_case_option [kpres_intros]:
  "kpres I m \<Longrightarrow> (\<And>x. kpres I (f x)) \<Longrightarrow> kpres I (case r of None \<Rightarrow> m | Some x \<Rightarrow> f x)"
  by (simp split: option.splits)

lemma kpres_kfor [kpres_intros]:
  assumes "\<And>i. kpres I (body i)"
  shows "kpres I (kfor is body)"
proof (induction "is")
  case Nil
  show ?case by (simp add: kpres_kret)
next
  case (Cons i "is")
  show ?case unfolding kfor.simps
    by (rule kpres_kbind [OF assms], rule kpres_case_option [OF Cons.IH], rule kpres_kret)
qed

section \<open>Specifications of routines\<close>

text \<open>
  \<open>kspec E P m Q\<close>: started in a state with \<open>P\<close>, the routine returns, with \<open>Q\<close> of its result and of
  the state it returns in, unless it panics with one of the messages in \<open>E\<close>. It does not
  hang, fault, or give up the CPU. With \<open>E = {}\<close> this is total correctness.
\<close>

definition kspec :: "string set \<Rightarrow> ('s \<Rightarrow> bool) \<Rightarrow> ('s, 'a) kop \<Rightarrow> ('a \<Rightarrow> 's \<Rightarrow> bool) \<Rightarrow> bool" where
  "kspec E P m Q \<longleftrightarrow>
     (\<forall>s. P s \<longrightarrow> (case m s of Ret a t \<Rightarrow> Q a t | Panic e \<Rightarrow> e \<in> E | Switch t \<Rightarrow> False
        | Hang \<Rightarrow> False | Fault \<Rightarrow> False))"

lemma kspecI:
  "(\<And>s. P s \<Longrightarrow> (\<exists>a t. m s = Ret a t \<and> Q a t) \<or> (\<exists>e \<in> E. m s = Panic e)) \<Longrightarrow> kspec E P m Q"
  unfolding kspec_def by (intro allI impI) fastforce

lemma kspecD:
  assumes "kspec E P m Q" "P s"
  shows "(\<exists>a t. m s = Ret a t \<and> Q a t) \<or> (\<exists>e \<in> E. m s = Panic e)"
  using assms unfolding kspec_def by (cases "m s") auto

lemma kspecD_total: "kspec {} P m Q \<Longrightarrow> P s \<Longrightarrow> \<exists>a t. m s = Ret a t \<and> Q a t"
  by (drule (1) kspecD) simp

lemma kspecD_unit: "kspec {} P m (\<lambda>_. Q) \<Longrightarrow> P s \<Longrightarrow> \<exists>t. m s = Ret () t \<and> Q t"
  by (drule (1) kspecD_total) simp

lemma kspecI_eq: "(\<And>s. P s \<Longrightarrow> \<exists>a t. m s = Ret a t \<and> Q a t) \<Longrightarrow> kspec E P m Q"
  by (rule kspecI) blast

lemma kspec_conseq:
  assumes "kspec E P m Q" "\<And>s. P' s \<Longrightarrow> P s" "\<And>a s. Q a s \<Longrightarrow> Q' a s" "E \<subseteq> E'"
  shows "kspec E' P' m Q'"
proof (rule kspecI)
  fix s assume "P' s"
  then show "(\<exists>a t. m s = Ret a t \<and> Q' a t) \<or> (\<exists>e \<in> E'. m s = Panic e)"
    using kspecD [OF assms(1), of s] assms(2-4) by blast
qed

lemma kspec_pre: "kspec E P m Q \<Longrightarrow> (\<And>s. P' s \<Longrightarrow> P s) \<Longrightarrow> kspec E P' m Q"
  by (erule kspec_conseq) auto

lemma kspec_post: "kspec E P m Q \<Longrightarrow> (\<And>a s. Q a s \<Longrightarrow> Q' a s) \<Longrightarrow> kspec E P m Q'"
  by (erule kspec_conseq) auto

lemma kspec_weaken: "kspec E P m Q \<Longrightarrow> E \<subseteq> E' \<Longrightarrow> kspec E' P m Q"
  by (erule kspec_conseq) auto

lemma kspec_bind:
  assumes "kspec E P m R" "\<And>a. kspec E (R a) (f a) Q"
  shows "kspec E P (kbind m f) Q"
proof (rule kspecI)
  fix s assume "P s"
  from kspecD [OF assms(1) this]
  show "(\<exists>a t. kbind m f s = Ret a t \<and> Q a t) \<or> (\<exists>e \<in> E. kbind m f s = Panic e)"
  proof
    assume "\<exists>a t. m s = Ret a t \<and> R a t"
    then obtain a t where "m s = Ret a t" "R a t" by blast
    with kspecD [OF assms(2), of a t] show ?thesis by (auto simp: kbind_def)
  qed (auto simp: kbind_def)
qed

lemma kspec_seq: "kspec E P m (\<lambda>_. R) \<Longrightarrow> kspec E R n Q \<Longrightarrow> kspec E P (kseq m n) Q"
  unfolding kseq_def by (rule kspec_bind)

lemma kspec_ret: "(\<And>s. P s \<Longrightarrow> Q a s) \<Longrightarrow> kspec E P (kret a) Q"
  by (simp add: kspec_def kret_def)

lemma kspec_mod: "(\<And>s. P s \<Longrightarrow> Q () (f s)) \<Longrightarrow> kspec E P (kmod f) Q"
  by (simp add: kspec_def kmod_def)

lemma kspec_get: "(\<And>s. P s \<Longrightarrow> Q (f s) s) \<Longrightarrow> kspec E P (kget f) Q"
  by (simp add: kspec_def kget_def)

lemma kspec_get_bind:
  "(\<And>s. P s \<Longrightarrow> f s = v) \<Longrightarrow> kspec E P (g v) Q \<Longrightarrow> kspec E P (kbind (kget f) g) Q"
  by (simp add: kspec_def kget_def kbind_def)

lemma kspec_panic: "e \<in> E \<Longrightarrow> kspec E P (kpanic e) Q"
  by (simp add: kspec_def kpanic_def)

lemma kspec_assert: "(\<And>s. P s \<Longrightarrow> C s) \<Longrightarrow> (\<And>s. P s \<Longrightarrow> Q () s) \<Longrightarrow> kspec E P (kassert C e) Q"
  by (simp add: kspec_def kassert_def)

lemma kspec_if:
  "(b \<Longrightarrow> kspec E P m Q) \<Longrightarrow> (\<not> b \<Longrightarrow> kspec E P n Q) \<Longrightarrow> kspec E P (if b then m else n) Q"
  by simp

lemma kspec_pure: "(A \<Longrightarrow> kspec E P m Q) \<Longrightarrow> kspec E (\<lambda>s. A \<and> P s) m Q"
  by (cases A) (simp_all add: kspec_def)

lemma kspec_ex: "(\<And>x. kspec E (P x) m Q) \<Longrightarrow> kspec E (\<lambda>s. \<exists>x. P x s) m Q"
  by (simp add: kspec_def) blast

lemma kspec_cong: "(\<And>s. P s \<Longrightarrow> m s = m' s) \<Longrightarrow> kspec E P m' Q \<Longrightarrow> kspec E P m Q"
  by (simp add: kspec_def)

lemma kspec_facts: "(\<And>s. P s \<Longrightarrow> A) \<Longrightarrow> (A \<Longrightarrow> kspec E P m Q) \<Longrightarrow> kspec E P m Q"
  by (metis kspec_def)

lemma kspec_foreach:
  "(\<And>k. k < length is \<Longrightarrow> kspec E (I k) (body (is ! k)) (\<lambda>_. I (Suc k))) \<Longrightarrow>
     kspec E (I 0) (kforeach is body) (\<lambda>_. I (length is))"
proof (induction "is" arbitrary: I)
  case Nil
  show ?case by (simp add: kspec_ret)
next
  case (Cons i "is")
  have "kspec E (I 0) (body i) (\<lambda>_. I (Suc 0))" using Cons.prems [of 0] by simp
  moreover have "kspec E (I (Suc 0)) (kforeach is body) (\<lambda>_. I (Suc (length is)))"
    using Cons.IH [of "\<lambda>k. I (Suc k)"] Cons.prems [of "Suc k" for k] by simp
  ultimately show ?case by (simp add: kspec_seq)
qed

section \<open>Fixed-size tables\<close>

text \<open>
  The loop \<^verbatim>\<open>for(p = table; p < table+N; p++) if(free(p)) ...\<close>: the index of the first
  entry that satisfies a test.
\<close>

fun first_slot :: "('a \<Rightarrow> bool) \<Rightarrow> 'a list \<Rightarrow> nat option" where
  "first_slot P [] = None"
| "first_slot P (x # xs) = (if P x then Some 0 else map_option Suc (first_slot P xs))"

lemma first_slot_None: "first_slot P xs = None \<longleftrightarrow> (\<forall>x \<in> set xs. \<not> P x)"
  by (induction xs) auto

lemma first_slot_SomeD:
  "first_slot P xs = Some i \<Longrightarrow> i < length xs \<and> P (xs ! i) \<and> (\<forall>j < i. \<not> P (xs ! j))"
proof (induction xs arbitrary: i)
  case Nil
  then show ?case by simp
next
  case (Cons x xs)
  then show ?case by (auto split: if_splits simp: nth_Cons split: nat.splits)
qed

lemma first_slot_eq_SomeI:
  "i < length xs \<Longrightarrow> P (xs ! i) \<Longrightarrow> (\<And>j. j < i \<Longrightarrow> \<not> P (xs ! j)) \<Longrightarrow> first_slot P xs = Some i"
proof (induction xs arbitrary: i)
  case Nil
  then show ?case by simp
next
  case (Cons x xs)
  show ?case
  proof (cases i)
    case 0
    with Cons.prems show ?thesis by simp
  next
    case (Suc k)
    have "first_slot P xs = Some k"
    proof (rule Cons.IH)
      show "k < length xs" "P (xs ! k)" using Cons.prems(1,2) Suc by simp_all
      show "\<not> P (xs ! j)" if "j < k" for j
        using Cons.prems(3) [of "Suc j"] that Suc by simp
    qed
    moreover have "\<not> P x" using Cons.prems(3) [of 0] Suc by simp
    ultimately show ?thesis using Suc by simp
  qed
qed

text \<open>Claiming the first free slot of a table.\<close>

definition slot_alloc :: "('a \<Rightarrow> bool) \<Rightarrow> ('a \<Rightarrow> 'a) \<Rightarrow> 'a list \<Rightarrow> (nat \<times> 'a list) option" where
  "slot_alloc free claim xs =
     (case first_slot free xs of None \<Rightarrow> None | Some i \<Rightarrow> Some (i, xs[i := claim (xs ! i)]))"

text \<open>
  What a fixed-size table promises its clients: claiming a free entry makes it not free.
  It follows that an allocation touches one entry, uses up exactly one free entry, and
  fails exactly when none is left.
\<close>

locale slot_table =
  fixes free :: "'a \<Rightarrow> bool" and claim :: "'a \<Rightarrow> 'a"
  assumes claim_used: "free x \<Longrightarrow> \<not> free (claim x)"
begin

lemma slot_alloc_Some:
  "slot_alloc free claim xs = Some (i, ys) \<Longrightarrow>
     i < length xs \<and> free (xs ! i) \<and> (\<forall>j < i. \<not> free (xs ! j)) \<and> ys = xs[i := claim (xs ! i)]"
  by (auto simp: slot_alloc_def dest: first_slot_SomeD split: option.splits)

lemma slot_alloc_None: "slot_alloc free claim xs = None \<longleftrightarrow> (\<forall>x \<in> set xs. \<not> free x)"
  unfolding first_slot_None [symmetric] by (simp add: slot_alloc_def split: option.splits)

lemma slot_alloc_frame:
  "slot_alloc free claim xs = Some (i, ys) \<Longrightarrow> length ys = length xs \<and> (\<forall>j. j \<noteq> i \<longrightarrow> ys ! j = xs ! j)"
  by (drule slot_alloc_Some) simp

lemma count_free_update:
  "i < length xs \<Longrightarrow> free (xs ! i) \<Longrightarrow> \<not> free y \<Longrightarrow>
     length (filter free xs) = Suc (length (filter free (xs[i := y])))"
proof (induction xs arbitrary: i)
  case Nil
  then show ?case by simp
next
  case (Cons x xs)
  then show ?case by (cases i) auto
qed

lemma slot_alloc_count:
  "slot_alloc free claim xs = Some (i, ys) \<Longrightarrow>
     length (filter free xs) = Suc (length (filter free ys))"
  using slot_alloc_Some [of xs i ys] count_free_update [of i xs "claim (xs ! i)"] claim_used by simp

lemma slot_alloc_succeeds:
  "0 < length (filter free xs) \<longleftrightarrow> (\<exists>i ys. slot_alloc free claim xs = Some (i, ys))"
proof -
  have "(\<exists>i ys. slot_alloc free claim xs = Some (i, ys)) \<longleftrightarrow> slot_alloc free claim xs \<noteq> None"
    by auto
  also have "\<dots> \<longleftrightarrow> filter free xs \<noteq> []"
    by (simp add: slot_alloc_None filter_empty_conv)
  finally show ?thesis by simp
qed

end

end
