(* ===== verification/Codec.thy ===== *)
theory Codec
  imports Xv6_Prelude
begin

text \<open>
  Bytes of a disk block and the C structures laid over them. \<open>slice\<close> and \<open>splice\<close> are
  the reads and writes of a byte range of a buffer (a \<^verbatim>\<open>memmove\<close> out of or into
  \<^verbatim>\<open>bp->data\<close>); a little-endian layout is given for \<^verbatim>\<open>ushort\<close> and \<^verbatim>\<open>uint\<close>. The
  locale \<open>codec\<close> is the contract of a fixed-size structure (\<^verbatim>\<open>struct dinode\<close>,
  \<^verbatim>\<open>struct dirent\<close>, an entry of an indirect block, ...): from it follow the laws of an
  array of such structures in a block.
\<close>

section \<open>Byte ranges\<close>

definition slice :: "nat \<Rightarrow> nat \<Rightarrow> u8 list \<Rightarrow> u8 list" where
  "slice off n bs = take n (drop off bs)"

definition splice :: "nat \<Rightarrow> u8 list \<Rightarrow> u8 list \<Rightarrow> u8 list" where
  "splice off xs bs = take off bs @ xs @ drop (off + length xs) bs"

lemma length_slice [simp]: "length (slice off n bs) = min n (length bs - off)"
  by (simp add: slice_def)

lemma length_splice [simp]: "off + length xs \<le> length bs \<Longrightarrow> length (splice off xs bs) = length bs"
  by (simp add: splice_def)

lemma nth_slice [simp]: "i < n \<Longrightarrow> off + i < length bs \<Longrightarrow> slice off n bs ! i = bs ! (off + i)"
  by (simp add: slice_def)

lemma nth_splice:
  "off + length xs \<le> length bs \<Longrightarrow> i < length bs \<Longrightarrow>
     splice off xs bs ! i = (if off \<le> i \<and> i < off + length xs then xs ! (i - off) else bs ! i)"
  by (auto simp: splice_def nth_append)

lemma slice_splice_same:
  "off + length xs \<le> length bs \<Longrightarrow> n = length xs \<Longrightarrow> slice off n (splice off xs bs) = xs"
  by (rule nth_equalityI) (auto simp: nth_splice)

lemma slice_splice_other:
  "off + length xs \<le> length bs \<Longrightarrow> off' + n \<le> off \<or> off + length xs \<le> off' \<Longrightarrow>
     slice off' n (splice off xs bs) = slice off' n bs"
  by (rule nth_equalityI) (auto simp: nth_splice)

lemma splice_slice: "off + n \<le> length bs \<Longrightarrow> splice off (slice off n bs) bs = bs"
  by (rule nth_equalityI) (auto simp: nth_splice)

section \<open>Little-endian integers\<close>

definition le16 :: "u16 \<Rightarrow> u8 list" where
  "le16 w = [ucast w, ucast (drop_bit 8 w)]"

definition un_le16 :: "u8 list \<Rightarrow> u16" where
  "un_le16 bs = ucast (bs ! 0) OR push_bit 8 (ucast (bs ! 1))"

definition le32 :: "u32 \<Rightarrow> u8 list" where
  "le32 w = [ucast w, ucast (drop_bit 8 w), ucast (drop_bit 16 w), ucast (drop_bit 24 w)]"

definition un_le32 :: "u8 list \<Rightarrow> u32" where
  "un_le32 bs = ucast (bs ! 0) OR push_bit 8 (ucast (bs ! 1))
     OR push_bit 16 (ucast (bs ! 2)) OR push_bit 24 (ucast (bs ! 3))"

lemma length_le [simp]: "length (le16 w) = 2" "length (le32 v) = 4"
  by (simp_all add: le16_def le32_def)

lemma un_le16_le16 [simp]: "un_le16 (le16 w) = w"
  by (rule bit_word_eqI) (auto simp: le16_def un_le16_def bit_simps)

lemma un_le32_le32 [simp]: "un_le32 (le32 w) = w"
proof (rule bit_word_eqI)
  fix n assume "n < LENGTH(32)"
  then consider "n < 8" | "8 \<le> n" "n < 16" | "16 \<le> n" "n < 24" | "24 \<le> n" "n < 32"
    by fastforce
  then show "bit (un_le32 (le32 w)) n \<longleftrightarrow> bit w n"
    by cases (auto simp: le32_def un_le32_def bit_simps)
qed

lemma u8_no_high_bit [simp]: "8 \<le> n \<Longrightarrow> \<not> bit (a :: u8) n"
  by (auto dest: bit_imp_le_length)

lemma length_2E: "length bs = 2 \<Longrightarrow> \<exists>a b. bs = [a, b]"
  by (auto simp: length_Suc_conv numeral_eq_Suc)

lemma length_4E: "length bs = 4 \<Longrightarrow> \<exists>a b c d. bs = [a, b, c, d]"
  by (auto simp: length_Suc_conv numeral_eq_Suc)

lemma le16_un_le16: "length bs = 2 \<Longrightarrow> le16 (un_le16 bs) = bs"
  by (drule length_2E) (auto simp: le16_def un_le16_def bit_simps intro!: bit_word_eqI)

lemma le32_un_le32: "length bs = 4 \<Longrightarrow> le32 (un_le32 bs) = bs"
  by (drule length_4E) (auto simp: le32_def un_le32_def bit_simps intro!: bit_word_eqI)

section \<open>Arrays of fixed-size structures\<close>

definition arr_get :: "nat \<Rightarrow> (u8 list \<Rightarrow> 'a) \<Rightarrow> nat \<Rightarrow> u8 list \<Rightarrow> 'a" where
  "arr_get sz dec i bs = dec (slice (i * sz) sz bs)"

definition arr_put :: "nat \<Rightarrow> ('a \<Rightarrow> u8 list) \<Rightarrow> nat \<Rightarrow> 'a \<Rightarrow> u8 list \<Rightarrow> u8 list" where
  "arr_put sz enc i x bs = splice (i * sz) (enc x) bs"

locale codec =
  fixes enc :: "'a \<Rightarrow> u8 list" and dec :: "u8 list \<Rightarrow> 'a" and sz :: nat and wf :: "'a \<Rightarrow> bool"
  assumes enc_length: "wf x \<Longrightarrow> length (enc x) = sz"
    and dec_enc: "wf x \<Longrightarrow> dec (enc x) = x"
    and enc_dec: "length bs = sz \<Longrightarrow> enc (dec bs) = bs"
    and dec_wf: "length bs = sz \<Longrightarrow> wf (dec bs)"
begin

lemma enc_inj: "wf x \<Longrightarrow> wf y \<Longrightarrow> enc x = enc y \<Longrightarrow> x = y"
  by (metis dec_enc)

lemma index_fits: "Suc i * sz \<le> n \<Longrightarrow> i * sz + sz \<le> n"
  by simp

lemma get_put_same:
  "wf x \<Longrightarrow> Suc i * sz \<le> length bs \<Longrightarrow> arr_get sz dec i (arr_put sz enc i x bs) = x"
  by (simp add: arr_get_def arr_put_def slice_splice_same enc_length dec_enc)

lemma get_put_other:
  assumes "wf x" "Suc j * sz \<le> length bs" "i \<noteq> j"
  shows "arr_get sz dec i (arr_put sz enc j x bs) = arr_get sz dec i bs"
proof -
  have "Suc i * sz \<le> j * sz \<or> Suc j * sz \<le> i * sz"
    using assms(3) by (metis Suc_leI mult_le_mono1 nat_neq_iff)
  then show ?thesis
    using assms by (auto simp: arr_get_def arr_put_def enc_length intro!: arg_cong [of _ _ dec] slice_splice_other)
qed

lemma length_put [simp]:
  "wf x \<Longrightarrow> Suc i * sz \<le> length bs \<Longrightarrow> length (arr_put sz enc i x bs) = length bs"
  by (simp add: arr_put_def enc_length)

lemma get_wf: "Suc i * sz \<le> length bs \<Longrightarrow> wf (arr_get sz dec i bs)"
  by (simp add: arr_get_def dec_wf)

lemma put_get: "Suc i * sz \<le> length bs \<Longrightarrow> arr_put sz enc i (arr_get sz dec i bs) bs = bs"
  by (simp add: arr_put_def arr_get_def enc_dec splice_slice)

end

interpretation u32c: codec le32 un_le32 4 "\<lambda>_. True"
  by unfold_locales (simp_all add: le32_un_le32)

interpretation u16c: codec le16 un_le16 2 "\<lambda>_. True"
  by unfold_locales (simp_all add: le16_un_le16)

text \<open>An array of \<^verbatim>\<open>uint\<close> as a whole: the bytes of a list of words and back.\<close>

definition le32s :: "u32 list \<Rightarrow> u8 list" where
  "le32s ws = concat (map le32 ws)"

definition un_le32s :: "nat \<Rightarrow> u8 list \<Rightarrow> u32 list" where
  "un_le32s n bs = map (\<lambda>i. arr_get 4 un_le32 i bs) [0..<n]"

lemma length_le32s [simp]: "length (le32s ws) = 4 * length ws"
  by (induction ws) (simp_all add: le32s_def)

lemma length_un_le32s [simp]: "length (un_le32s n bs) = n"
  by (simp add: un_le32s_def)

lemma le32s_Cons: "le32s (w # ws) = le32 w @ le32s ws"
  by (simp add: le32s_def)

lemma un_le32s_Suc:
  "length xs = 4 \<Longrightarrow> un_le32s (Suc n) (xs @ bs) = un_le32 xs # un_le32s n bs"
  by (auto simp: un_le32s_def arr_get_def slice_def upt_conv_Cons map_Suc_upt [symmetric]
      simp del: upt_Suc)

lemma un_le32s_le32s: "un_le32s (length ws) (le32s ws) = ws"
proof (induction ws)
  case Nil
  show ?case by (simp add: un_le32s_def)
next
  case (Cons w ws)
  then show ?case by (simp add: le32s_Cons un_le32s_Suc)
qed

lemma le32s_un_le32s: "length bs = 4 * n \<Longrightarrow> le32s (un_le32s n bs) = bs"
proof (induction n arbitrary: bs)
  case 0
  then show ?case by (simp add: un_le32s_def le32s_def)
next
  case (Suc n)
  have bs: "bs = take 4 bs @ drop 4 bs" by simp
  have "un_le32s (Suc n) bs = un_le32 (take 4 bs) # un_le32s n (drop 4 bs)"
    using Suc.prems un_le32s_Suc [of "take 4 bs" n "drop 4 bs"] by simp
  then show ?case using Suc by (simp add: le32s_Cons le32_un_le32)
qed

end
