(* ===== verification/Params.thy ===== *)
theory Params
  imports Codec
begin

text \<open>
  The constants of the kernel's headers: table sizes (\<^verbatim>\<open>param.h\<close>), the disk layout
  (\<^verbatim>\<open>fs.h\<close>), inode and open modes (\<^verbatim>\<open>stat.h\<close>, \<^verbatim>\<open>fcntl.h\<close>), the physical and virtual
  memory layout (\<^verbatim>\<open>memlayout.h\<close>), the page-table bits and index macros (\<^verbatim>\<open>mmu.h\<close>),
  trap and system call numbers (\<^verbatim>\<open>traps.h\<close>, \<^verbatim>\<open>syscall.h\<close>).
\<close>

section \<open>param.h\<close>

abbreviation (input) NPROC :: nat where "NPROC \<equiv> 64"
abbreviation (input) KSTACKSIZE :: u32 where "KSTACKSIZE \<equiv> 4096"
abbreviation (input) NCPU :: nat where "NCPU \<equiv> 8"
abbreviation (input) NOFILE :: nat where "NOFILE \<equiv> 16"
abbreviation (input) NFILE :: nat where "NFILE \<equiv> 100"
abbreviation (input) NBUF :: nat where "NBUF \<equiv> 10"
abbreviation (input) NINODE :: nat where "NINODE \<equiv> 50"
abbreviation (input) NDEV :: nat where "NDEV \<equiv> 10"
abbreviation (input) ROOTDEV :: u32 where "ROOTDEV \<equiv> 1"
abbreviation (input) MAXARG :: nat where "MAXARG \<equiv> 32"
abbreviation (input) LOGSIZE :: nat where "LOGSIZE \<equiv> 10"

section \<open>fs.h\<close>

abbreviation (input) ROOTINO :: u32 where "ROOTINO \<equiv> 1"
abbreviation (input) BSIZE :: nat where "BSIZE \<equiv> 512"
abbreviation (input) NDIRECT :: nat where "NDIRECT \<equiv> 11"
abbreviation (input) NINDIRECT :: nat where "NINDIRECT \<equiv> 128"
abbreviation (input) MAXFILE :: nat where "MAXFILE \<equiv> NDIRECT + NINDIRECT + NINDIRECT * NINDIRECT"
abbreviation (input) DIRSIZ :: nat where "DIRSIZ \<equiv> 14"

text \<open>\<^verbatim>\<open>sizeof(struct dinode)\<close> is 64 and \<^verbatim>\<open>sizeof(struct dirent)\<close> is 16 (see theory \<^verbatim>\<open>Layout\<close>).\<close>

abbreviation (input) IPB :: u32 where "IPB \<equiv> 8"
abbreviation (input) BPB :: nat where "BPB \<equiv> BSIZE * 8"

definition IBLOCK :: "u32 \<Rightarrow> u32" where
  "IBLOCK i = i div IPB + 2"

definition BBLOCK :: "u32 \<Rightarrow> u32 \<Rightarrow> u32" where
  "BBLOCK b ninodes = b div 4096 + ninodes div IPB + 3"

section \<open>stat.h and fcntl.h\<close>

abbreviation (input) T_DIR :: u16 where "T_DIR \<equiv> 1"
abbreviation (input) T_FILE :: u16 where "T_FILE \<equiv> 2"
abbreviation (input) T_DEV :: u16 where "T_DEV \<equiv> 3"

abbreviation (input) O_RDONLY :: u32 where "O_RDONLY \<equiv> 0"
abbreviation (input) O_WRONLY :: u32 where "O_WRONLY \<equiv> 1"
abbreviation (input) O_RDWR :: u32 where "O_RDWR \<equiv> 2"
abbreviation (input) O_CREATE :: u32 where "O_CREATE \<equiv> 0x200"

section \<open>memlayout.h\<close>

abbreviation (input) EXTMEM :: u32 where "EXTMEM \<equiv> 0x100000"
abbreviation (input) PHYSTOP :: u32 where "PHYSTOP \<equiv> 0xE000000"
abbreviation (input) DEVSPACE :: u32 where "DEVSPACE \<equiv> 0xFE000000"
abbreviation (input) KERNBASE :: u32 where "KERNBASE \<equiv> 0x80000000"
abbreviation (input) KERNLINK :: u32 where "KERNLINK \<equiv> KERNBASE + EXTMEM"

definition v2p :: "u32 \<Rightarrow> u32" where
  "v2p a = a - KERNBASE"

definition p2v :: "u32 \<Rightarrow> u32" where
  "p2v a = a + KERNBASE"

lemma v2p_p2v [simp]: "v2p (p2v a) = a" "p2v (v2p a) = a"
  by (simp_all add: v2p_def p2v_def)

section \<open>mmu.h\<close>

abbreviation (input) PGSIZE :: u32 where "PGSIZE \<equiv> 4096"
abbreviation (input) NPDENTRIES :: nat where "NPDENTRIES \<equiv> 1024"
abbreviation (input) NPTENTRIES :: nat where "NPTENTRIES \<equiv> 1024"
abbreviation (input) PTE_P :: u32 where "PTE_P \<equiv> 1"
abbreviation (input) PTE_W :: u32 where "PTE_W \<equiv> 2"
abbreviation (input) PTE_U :: u32 where "PTE_U \<equiv> 4"
abbreviation (input) DPL_USER :: u16 where "DPL_USER \<equiv> 3"
abbreviation (input) SEG_UCODE :: u16 where "SEG_UCODE \<equiv> 4"
abbreviation (input) SEG_UDATA :: u16 where "SEG_UDATA \<equiv> 5"
abbreviation (input) FL_IF :: u32 where "FL_IF \<equiv> 0x200"

definition PDX :: "u32 \<Rightarrow> u32" where
  "PDX va = drop_bit 22 va AND 0x3FF"

definition PTX :: "u32 \<Rightarrow> u32" where
  "PTX va = drop_bit 12 va AND 0x3FF"

definition PGROUNDUP :: "u32 \<Rightarrow> u32" where
  "PGROUNDUP sz = (sz + PGSIZE - 1) AND NOT (PGSIZE - 1)"

definition PGROUNDDOWN :: "u32 \<Rightarrow> u32" where
  "PGROUNDDOWN a = a AND NOT (PGSIZE - 1)"

definition PTE_ADDR :: "u32 \<Rightarrow> u32" where
  "PTE_ADDR pte = pte AND NOT 0xFFF"

definition PTE_FLAGS :: "u32 \<Rightarrow> u32" where
  "PTE_FLAGS pte = pte AND 0xFFF"

section \<open>traps.h and syscall.h\<close>

abbreviation (input) T_PGFLT :: u32 where "T_PGFLT \<equiv> 14"
abbreviation (input) T_SYSCALL :: u32 where "T_SYSCALL \<equiv> 64"
abbreviation (input) T_IRQ0 :: u32 where "T_IRQ0 \<equiv> 32"
abbreviation (input) IRQ_TIMER :: u32 where "IRQ_TIMER \<equiv> 0"
abbreviation (input) IRQ_KBD :: u32 where "IRQ_KBD \<equiv> 1"
abbreviation (input) IRQ_COM1 :: u32 where "IRQ_COM1 \<equiv> 4"
abbreviation (input) IRQ_IDE :: u32 where "IRQ_IDE \<equiv> 14"
abbreviation (input) IRQ_SPURIOUS :: u32 where "IRQ_SPURIOUS \<equiv> 31"

end
