(* ===== verification/Spinlock.thy ===== *)
theory Spinlock
  imports Params
begin

text \<open>
  Spin locks and interrupt nesting (\<^verbatim>\<open>spinlock.c\<close>, \<^verbatim>\<open>spinlock.h\<close>, the per-CPU fields of
  \<^verbatim>\<open>proc.h\<close>): \<^verbatim>\<open>pushcli\<close>, \<^verbatim>\<open>popcli\<close>, \<^verbatim>\<open>holding\<close>, \<^verbatim>\<open>acquire\<close>, \<^verbatim>\<open>release\<close>. A lock that another
  CPU holds makes \<^verbatim>\<open>acquire\<close> spin: as a routine of one CPU that is the outcome
  \<open>Hang\<close>. The call stack recorded for debugging (\<^verbatim>\<open>pcs\<close>) is left out. The second half is
  the protocol the CPUs follow on one lock, at the grain of its atomic exchanges.
\<close>

section \<open>State\<close>

text \<open>The locks of the kernel; a pipe's lock is named by the pipe's page.\<close>

datatype lockid =
    L_ptable | L_bcache | L_log | L_icache | L_ftable | L_kmem | L_ticks | L_cons | L_input
  | L_ide | L_pipe u32

record spinlock =
  locked :: u32
  lk_name :: string
  lk_cpu :: "nat option"

text \<open>
  \<open>fl_if\<close> is the interrupt flag of the CPU's \<^verbatim>\<open>eflags\<close>; \<open>cproc\<close> is the per-CPU variable
  \<^verbatim>\<open>proc\<close>, an index into the process table.
\<close>

record cpu =
  ncli :: int
  intena :: bool
  fl_if :: bool
  cproc :: "nat option"

record hw_state =
  mycpu :: nat
  cpus :: "nat \<Rightarrow> cpu"
  locks :: "lockid \<Rightarrow> spinlock"

abbreviation this_cpu :: "'a hw_state_scheme \<Rightarrow> cpu" where
  "this_cpu s \<equiv> cpus s (mycpu s)"

definition set_cpu :: "cpu \<Rightarrow> 'a hw_state_scheme \<Rightarrow> 'a hw_state_scheme" where
  "set_cpu c s = s\<lparr>cpus := (cpus s)(mycpu s := c)\<rparr>"

section \<open>Operations\<close>

definition initlock :: "lockid \<Rightarrow> string \<Rightarrow> ('a hw_state_scheme, unit) kop" where
  "initlock lk name =
     kmod (\<lambda>s. s\<lparr>locks := (locks s)(lk := \<lparr>locked = 0, lk_name = name, lk_cpu = None\<rparr>)\<rparr>)"

definition pushcli :: "('a hw_state_scheme, unit) kop" where
  "pushcli = kmod (\<lambda>s. let c = this_cpu s in
     set_cpu (c\<lparr>fl_if := False, ncli := ncli c + 1,
                intena := (if ncli c = 0 then fl_if c else intena c)\<rparr>) s)"

definition popcli :: "('a hw_state_scheme, unit) kop" where
  "popcli s = (let c = this_cpu s; n = ncli c - 1 in
     if fl_if c then Panic ''popcli - interruptible''
     else if n < 0 then Panic ''popcli''
     else Ret () (set_cpu (c\<lparr>ncli := n, fl_if := (n = 0 \<and> intena c)\<rparr>) s))"

definition holding :: "lockid \<Rightarrow> 'a hw_state_scheme \<Rightarrow> bool" where
  "holding lk s \<longleftrightarrow> locked (locks s lk) \<noteq> 0 \<and> lk_cpu (locks s lk) = Some (mycpu s)"

definition acquire :: "lockid \<Rightarrow> ('a hw_state_scheme, unit) kop" where
  "acquire lk = kseq pushcli (\<lambda>s.
     if holding lk s then Panic ''acquire''
     else if locked (locks s lk) \<noteq> 0 then Hang
     else Ret () (s\<lparr>locks := (locks s)(lk := (locks s lk)\<lparr>locked := 1, lk_cpu := Some (mycpu s)\<rparr>)\<rparr>))"

definition release :: "lockid \<Rightarrow> ('a hw_state_scheme, unit) kop" where
  "release lk s =
     (if \<not> holding lk s then Panic ''release''
      else popcli (s\<lparr>locks := (locks s)(lk := (locks s lk)\<lparr>locked := 0, lk_cpu := None\<rparr>)\<rparr>))"

section \<open>The uncontended case\<close>

text \<open>
  \<open>lockable lk s\<close>: the lock is free and the CPU's nesting count and interrupt flag agree.
  Then \<^verbatim>\<open>acquire\<close> returns in the state \<open>acq lk s\<close>, and releasing the lock undoes it exactly.
\<close>

definition lockable :: "lockid \<Rightarrow> 'a hw_state_scheme \<Rightarrow> bool" where
  "lockable lk s \<longleftrightarrow> locked (locks s lk) = 0 \<and> lk_cpu (locks s lk) = None \<and>
     0 \<le> ncli (this_cpu s) \<and>
     (if ncli (this_cpu s) = 0 then intena (this_cpu s) = fl_if (this_cpu s) else \<not> fl_if (this_cpu s))"

definition acq :: "lockid \<Rightarrow> 'a hw_state_scheme \<Rightarrow> 'a hw_state_scheme" where
  "acq lk s =
     s\<lparr>cpus := (cpus s)(mycpu s := (this_cpu s)\<lparr>fl_if := False, ncli := ncli (this_cpu s) + 1,
         intena := (if ncli (this_cpu s) = 0 then fl_if (this_cpu s) else intena (this_cpu s))\<rparr>),
       locks := (locks s)(lk := (locks s lk)\<lparr>locked := 1, lk_cpu := Some (mycpu s)\<rparr>)\<rparr>"

lemma acquire_lockable [simp]: "lockable lk s \<Longrightarrow> acquire lk s = Ret () (acq lk s)"
  by (simp add: acquire_def lockable_def acq_def pushcli_def set_cpu_def holding_def Let_def kop_simps)

lemma release_acq [simp]: "lockable lk s \<Longrightarrow> release lk (acq lk s) = Ret () s"
  by (cases "this_cpu s")
    (auto simp: release_def lockable_def acq_def popcli_def set_cpu_def holding_def Let_def
      intro!: hw_state.equality split: if_splits)

lemma lockable_acq [simp]: "lockable lk s \<Longrightarrow> lk' \<noteq> lk \<Longrightarrow> lockable lk' (acq lk s) \<longleftrightarrow> lockable lk' s"
  by (auto simp: lockable_def acq_def)

text \<open>Handing over from one lock to another, as \<^verbatim>\<open>sleep\<close> does.\<close>

lemma release_acq_swap:
  "lockable lk s \<Longrightarrow> lockable lk' s \<Longrightarrow> lk' \<noteq> lk \<Longrightarrow>
     release lk (acq lk' (acq lk s)) = Ret () (acq lk' s)"
  by (cases "this_cpu s")
    (auto simp: release_def lockable_def acq_def popcli_def set_cpu_def holding_def Let_def
      intro!: hw_state.equality split: if_splits)

lemma holding_acq [simp]: "holding lk (acq lk s)"
  by (simp add: holding_def acq_def)

text \<open>A CPU that holds a lock and asks for it again panics rather than deadlock on itself.\<close>

lemma acquire_twice: "acquire lk (acq lk s) = Panic ''acquire''"
  by (simp add: acquire_def acq_def pushcli_def set_cpu_def holding_def Let_def kop_simps)

section \<open>The protocol of the CPUs on one lock\<close>

text \<open>
  Where a CPU is in \<^verbatim>\<open>acquire\<close> or \<^verbatim>\<open>release\<close> of the lock: outside; past the \<^verbatim>\<open>holding\<close> check and
  spinning on \<^verbatim>\<open>xchg\<close>; past the \<^verbatim>\<open>xchg\<close> that returned 0 but with \<^verbatim>\<open>lk->cpu\<close> not yet written;
  in the critical section; in \<^verbatim>\<open>release\<close> after \<^verbatim>\<open>lk->cpu = 0\<close> and before \<^verbatim>\<open>xchg(&lk->locked, 0)\<close>;
  stopped in one of the two panics.
\<close>

datatype lk_pc = Outside | Spinning | Taken | Critical | Leaving | Panicked

record lk_sys =
  the_lock :: spinlock
  lk_pcs :: "nat \<Rightarrow> lk_pc"

definition holds :: "nat \<Rightarrow> spinlock \<Rightarrow> bool" where
  "holds c l \<longleftrightarrow> locked l \<noteq> 0 \<and> lk_cpu l = Some c"

inductive lk_step :: "lk_sys \<Rightarrow> lk_sys \<Rightarrow> bool" where
  enter: "lk_pcs s c = Outside \<Longrightarrow>
    lk_step s (s\<lparr>lk_pcs := (lk_pcs s)(c := if holds c (the_lock s) then Panicked else Spinning)\<rparr>)"
| spin: "lk_pcs s c = Spinning \<Longrightarrow> locked (the_lock s) \<noteq> 0 \<Longrightarrow>
    lk_step s (s\<lparr>the_lock := (the_lock s)\<lparr>locked := 1\<rparr>\<rparr>)"
| take: "lk_pcs s c = Spinning \<Longrightarrow> locked (the_lock s) = 0 \<Longrightarrow>
    lk_step s (s\<lparr>the_lock := (the_lock s)\<lparr>locked := 1\<rparr>, lk_pcs := (lk_pcs s)(c := Taken)\<rparr>)"
| record_cpu: "lk_pcs s c = Taken \<Longrightarrow>
    lk_step s (s\<lparr>the_lock := (the_lock s)\<lparr>lk_cpu := Some c\<rparr>, lk_pcs := (lk_pcs s)(c := Critical)\<rparr>)"
| leave: "lk_pcs s c = Critical \<Longrightarrow> holds c (the_lock s) \<Longrightarrow>
    lk_step s (s\<lparr>the_lock := (the_lock s)\<lparr>lk_cpu := None\<rparr>, lk_pcs := (lk_pcs s)(c := Leaving)\<rparr>)"
| leave_panic: "lk_pcs s c = Critical \<Longrightarrow> \<not> holds c (the_lock s) \<Longrightarrow>
    lk_step s (s\<lparr>lk_pcs := (lk_pcs s)(c := Panicked)\<rparr>)"
| unlock: "lk_pcs s c = Leaving \<Longrightarrow>
    lk_step s (s\<lparr>the_lock := (the_lock s)\<lparr>locked := 0\<rparr>, lk_pcs := (lk_pcs s)(c := Outside)\<rparr>)"

inductive lk_reachable :: "lk_sys \<Rightarrow> bool" where
  init: "lk_reachable \<lparr>the_lock = \<lparr>locked = 0, lk_name = nm, lk_cpu = None\<rparr>, lk_pcs = (\<lambda>_. Outside)\<rparr>"
| step: "lk_reachable s \<Longrightarrow> lk_step s t \<Longrightarrow> lk_reachable t"

fun owning :: "lk_pc \<Rightarrow> bool" where
  "owning Taken = True"
| "owning Critical = True"
| "owning Leaving = True"
| "owning Outside = False"
| "owning Spinning = False"
| "owning Panicked = False"

text \<open>
  At most one CPU owns the lock, the lock word is set while one does, the recorded CPU is
  the one in its critical section, and nobody has panicked.
\<close>

definition lk_owner :: "nat option \<Rightarrow> lk_sys \<Rightarrow> bool" where
  "lk_owner w s \<longleftrightarrow>
     (locked (the_lock s) = 0 \<longrightarrow> w = None) \<and>
     (\<forall>c. owning (lk_pcs s c) \<longleftrightarrow> w = Some c) \<and>
     (\<forall>c. lk_cpu (the_lock s) = Some c \<longleftrightarrow> lk_pcs s c = Critical) \<and>
     (\<forall>c. lk_pcs s c \<noteq> Panicked)"

lemma lk_owner_iff: "lk_owner w s \<Longrightarrow> owning (lk_pcs s c) \<longleftrightarrow> w = Some c"
  by (simp add: lk_owner_def)

lemma lk_owner_Some: "lk_owner w s \<Longrightarrow> owning (lk_pcs s c) \<Longrightarrow> w = Some c"
  by (simp add: lk_owner_def)

lemma lk_owner_holds: "lk_owner w s \<Longrightarrow> holds c (the_lock s) \<longleftrightarrow> lk_pcs s c = Critical"
  unfolding lk_owner_def holds_def by (metis option.distinct(1) owning.simps(2))

lemma lk_step_inv: "lk_step s t \<Longrightarrow> lk_owner w s \<Longrightarrow> \<exists>w'. lk_owner w' t"
proof (induction rule: lk_step.induct)
  case (enter s c)
  then have "\<not> holds c (the_lock s)" by (simp add: lk_owner_holds)
  moreover have "w \<noteq> Some c" using enter lk_owner_iff [of w s c] by simp
  ultimately have "lk_owner w (s\<lparr>lk_pcs := (lk_pcs s)(c := if holds c (the_lock s) then Panicked else Spinning)\<rparr>)"
    using enter by (simp add: lk_owner_def)
  then show ?case ..
next
  case (spin s c)
  then have "lk_owner w (s\<lparr>the_lock := (the_lock s)\<lparr>locked := 1\<rparr>\<rparr>)" by (simp add: lk_owner_def)
  then show ?case ..
next
  case (take s c)
  then have "lk_owner (Some c) (s\<lparr>the_lock := (the_lock s)\<lparr>locked := 1\<rparr>, lk_pcs := (lk_pcs s)(c := Taken)\<rparr>)"
    by (auto simp: lk_owner_def)
  then show ?case ..
next
  case (record_cpu s c)
  then have w: "w = Some c" by (simp add: lk_owner_Some)
  with record_cpu have "lk_pcs s d \<noteq> Critical" if "d \<noteq> c" for d
    using lk_owner_Some [of w s d] that by auto
  with w record_cpu
  have "lk_owner w (s\<lparr>the_lock := (the_lock s)\<lparr>lk_cpu := Some c\<rparr>, lk_pcs := (lk_pcs s)(c := Critical)\<rparr>)"
    by (auto simp: lk_owner_def)
  then show ?case ..
next
  case (leave s c)
  then have w: "w = Some c" by (simp add: lk_owner_Some)
  with leave have "lk_pcs s d \<noteq> Critical" if "d \<noteq> c" for d
    using lk_owner_Some [of w s d] that by auto
  with w leave
  have "lk_owner w (s\<lparr>the_lock := (the_lock s)\<lparr>lk_cpu := None\<rparr>, lk_pcs := (lk_pcs s)(c := Leaving)\<rparr>)"
    by (auto simp: lk_owner_def)
  then show ?case ..
next
  case (leave_panic s c)
  then show ?case by (simp add: lk_owner_holds)
next
  case (unlock s c)
  then have w: "w = Some c" by (simp add: lk_owner_Some)
  with unlock
  have "lk_owner None (s\<lparr>the_lock := (the_lock s)\<lparr>locked := 0\<rparr>, lk_pcs := (lk_pcs s)(c := Outside)\<rparr>)"
    by (auto simp: lk_owner_def)
  then show ?case ..
qed

lemma lk_reachable_owner: "lk_reachable s \<Longrightarrow> \<exists>w. lk_owner w s"
proof (induction rule: lk_reachable.induct)
  case (init nm)
  show ?case by (rule exI [of _ None]) (simp add: lk_owner_def)
next
  case (step s t)
  then show ?case by (blast intro: lk_step_inv)
qed

text \<open>
  C1: In every interleaving of the CPUs' \<^verbatim>\<open>acquire\<close> and \<^verbatim>\<open>release\<close> steps on a lock, two CPUs are
  never both between the successful exchange of \<^verbatim>\<open>acquire\<close> and the final exchange of
  \<^verbatim>\<open>release\<close>, \<^verbatim>\<open>holding\<close> answers true exactly for the CPU in its critical section, and neither
  of the two panics is ever reached.
\<close>

theorem spinlock_mutual_exclusion:
  assumes "lk_reachable s"
  shows "(owning (lk_pcs s c) \<and> owning (lk_pcs s d) \<longrightarrow> c = d) \<and>
    (holds c (the_lock s) \<longleftrightarrow> lk_pcs s c = Critical) \<and> lk_pcs s c \<noteq> Panicked"
proof -
  from assms obtain w where w: "lk_owner w s" by (blast dest: lk_reachable_owner)
  then show ?thesis using lk_owner_holds [OF w] lk_owner_Some [OF w] by (auto simp: lk_owner_def)
qed

definition lk_sys_example :: lk_sys where
  "lk_sys_example =
     \<lparr>the_lock = \<lparr>locked = 1, lk_name = ''kmem'', lk_cpu = None\<rparr>,
      lk_pcs = (\<lambda>_. Outside)(0 := Taken)\<rparr>"

lemma lk_sys_example_reachable: "lk_reachable lk_sys_example"
proof -
  let ?s = "\<lparr>the_lock = \<lparr>locked = 0, lk_name = ''kmem'', lk_cpu = None\<rparr>, lk_pcs = (\<lambda>_. Outside)\<rparr>"
  let ?t = "?s\<lparr>lk_pcs := (\<lambda>_. Outside)(0 := Spinning)\<rparr>"
  have "lk_reachable ?s" by (rule lk_reachable.init)
  moreover have "lk_step ?s ?t" using lk_step.enter [of ?s 0] by (simp add: holds_def)
  moreover have "lk_step ?t lk_sys_example"
    using lk_step.take [of ?t 0] by (simp add: lk_sys_example_def)
  ultimately show ?thesis by (blast intro: lk_reachable.step)
qed

theorem spinlock_mutual_exclusion_witness:
  "lk_reachable lk_sys_example \<and> owning (lk_pcs lk_sys_example 0) \<and> \<not> owning (lk_pcs lk_sys_example 1) \<and>
    \<not> holds 0 (the_lock lk_sys_example)"
  using spinlock_mutual_exclusion [OF lk_sys_example_reachable, of 0 1] lk_sys_example_reachable
  by (simp add: lk_sys_example_def)

end
