(* ===== verification/Proc.thy ===== *)
theory Proc
  imports Spinlock
begin

text \<open>
  The process table and the routines of \<^verbatim>\<open>proc.c\<close> that only touch it: \<^verbatim>\<open>wakeup\<close>, \<^verbatim>\<open>sleep\<close>,
  \<^verbatim>\<open>sched\<close>, \<^verbatim>\<open>yield\<close>, \<^verbatim>\<open>kill\<close>. A process is named by its index in \<^verbatim>\<open>ptable.proc\<close>; a sleep
  channel (an address in C) by the object it is the address of. A routine that reaches
  \<^verbatim>\<open>swtch\<close> ends with outcome \<open>Switch\<close>; what it does after the scheduler has switched
  back is a second routine (\<open>sched_resume\<close>, \<open>sleep_resume\<close>, \<open>yield_resume\<close>). The lock given to
  \<^verbatim>\<open>sleep\<close> is never null here, so its second panic has no counterpart.
\<close>

section \<open>State\<close>

datatype procstate = UNUSED | EMBRYO | SLEEPING | RUNNABLE | RUNNING | ZOMBIE

datatype chan =
    Ch_proc nat | Ch_buf nat | Ch_inode nat | Ch_log | Ch_ticks | Ch_input
  | Ch_nread u32 | Ch_nwrite u32

record trapframe =
  tf_edi :: u32
  tf_esi :: u32
  tf_ebp :: u32
  tf_oesp :: u32
  tf_ebx :: u32
  tf_edx :: u32
  tf_ecx :: u32
  tf_eax :: u32
  tf_gs :: u16
  tf_fs :: u16
  tf_es :: u16
  tf_ds :: u16
  tf_trapno :: u32
  tf_err :: u32
  tf_eip :: u32
  tf_cs :: u16
  tf_eflags :: u32
  tf_esp :: u32
  tf_ss :: u16

record kcontext =
  ctx_edi :: u32
  ctx_esi :: u32
  ctx_ebx :: u32
  ctx_ebp :: u32
  ctx_eip :: u32

text \<open>
  The pointers \<^verbatim>\<open>tf\<close> and \<^verbatim>\<open>context\<close> point into the process's own kernel stack; the model keeps
  the structures they point to. \<^verbatim>\<open>ofile\<close> and \<^verbatim>\<open>cwd\<close> are indices into the file and inode tables.
\<close>

record proc =
  sz :: u32
  pgdir :: u32
  kstack :: u32
  pstate :: procstate
  pid :: int
  parent :: "nat option"
  tf :: trapframe
  ctx :: kcontext
  pchan :: "chan option"
  killed :: bool
  ofile :: "nat option list"
  cwd :: "nat option"
  pname :: "u8 list"
  alarmticks :: u32
  alarmticked :: u32
  alarmhandler :: u32

record proc_state = hw_state +
  ptable :: "proc list"
  nextpid :: int
  initproc :: "nat option"

lemma hw_frame_ptable [simp]:
  "acq lk (s\<lparr>ptable := x\<rparr>) = (acq lk s)\<lparr>ptable := x\<rparr>" "ptable (acq lk s) = ptable s"
  "lockable lk (s\<lparr>ptable := x\<rparr>) = lockable lk s" "holding lk (s\<lparr>ptable := x\<rparr>) = holding lk s"
  by (simp_all add: acq_def lockable_def holding_def)

lemma hw_frame_nextpid [simp]:
  "acq lk (s\<lparr>nextpid := x\<rparr>) = (acq lk s)\<lparr>nextpid := x\<rparr>" "nextpid (acq lk s) = nextpid s"
  "lockable lk (s\<lparr>nextpid := x\<rparr>) = lockable lk s" "holding lk (s\<lparr>nextpid := x\<rparr>) = holding lk s"
  by (simp_all add: acq_def lockable_def holding_def)

lemma hw_frame_initproc [simp]:
  "acq lk (s\<lparr>initproc := x\<rparr>) = (acq lk s)\<lparr>initproc := x\<rparr>" "initproc (acq lk s) = initproc s"
  "lockable lk (s\<lparr>initproc := x\<rparr>) = lockable lk s" "holding lk (s\<lparr>initproc := x\<rparr>) = holding lk s"
  by (simp_all add: acq_def lockable_def holding_def)

lemma cproc_acq [simp]: "cproc (cpus (acq lk s) (mycpu (acq lk s))) = cproc (this_cpu s)"
  by (simp add: acq_def)

lemma release_frame_ptable [simp]:
  "lockable lk s \<Longrightarrow> release lk ((acq lk s)\<lparr>ptable := x\<rparr>) = Ret () (s\<lparr>ptable := x\<rparr>)"
  using release_acq [of lk "s\<lparr>ptable := x\<rparr>"] by simp

abbreviation cur :: "'a proc_state_scheme \<Rightarrow> nat option" where
  "cur s \<equiv> cproc (this_cpu s)"

definition upd_proc :: "nat \<Rightarrow> (proc \<Rightarrow> proc) \<Rightarrow> 'a proc_state_scheme \<Rightarrow> 'a proc_state_scheme" where
  "upd_proc p f s = s\<lparr>ptable := (ptable s)[p := f (ptable s ! p)]\<rparr>"

section \<open>Operations\<close>

definition pinit :: "('a proc_state_scheme, unit) kop" where
  "pinit = initlock L_ptable ''ptable''"

definition wake1 :: "chan \<Rightarrow> proc \<Rightarrow> proc" where
  "wake1 c p = (if pstate p = SLEEPING \<and> pchan p = Some c then p\<lparr>pstate := RUNNABLE\<rparr> else p)"

definition wakeup1 :: "chan \<Rightarrow> ('a proc_state_scheme, unit) kop" where
  "wakeup1 c = kmod (\<lambda>s. s\<lparr>ptable := map (wake1 c) (ptable s)\<rparr>)"

definition wakeup :: "chan \<Rightarrow> ('a proc_state_scheme, unit) kop" where
  "wakeup c = kseq (acquire L_ptable) (kseq (wakeup1 c) (release L_ptable))"

definition sched :: "('a proc_state_scheme, unit) kop" where
  "sched s =
     (if \<not> holding L_ptable s then Panic ''sched ptable.lock''
      else if ncli (this_cpu s) \<noteq> 1 then Panic ''sched locks''
      else case cur s of None \<Rightarrow> Fault | Some p \<Rightarrow>
        if pstate (ptable s ! p) = RUNNING then Panic ''sched running''
        else if fl_if (this_cpu s) then Panic ''sched interruptible''
        else Switch s)"

definition sleep :: "chan \<Rightarrow> lockid \<Rightarrow> ('a proc_state_scheme, unit) kop" where
  "sleep c lk s =
     (case cur s of None \<Rightarrow> Panic ''sleep'' | Some p \<Rightarrow>
        kseq (if lk \<noteq> L_ptable then kseq (acquire L_ptable) (release lk) else kret ())
          (kseq (kmod (upd_proc p (\<lambda>q. q\<lparr>pchan := Some c, pstate := SLEEPING\<rparr>))) sched) s)"

text \<open>
  Once the scheduler has switched back, \<^verbatim>\<open>sched\<close> restores the interrupt-enable flag it had saved on
  the process's kernel stack; \<open>ie\<close> is that saved value.
\<close>

definition sched_resume :: "bool \<Rightarrow> ('a proc_state_scheme, unit) kop" where
  "sched_resume ie = kmod (\<lambda>s. set_cpu ((this_cpu s)\<lparr>intena := ie\<rparr>) s)"

definition sleep_resume :: "bool \<Rightarrow> lockid \<Rightarrow> ('a proc_state_scheme, unit) kop" where
  "sleep_resume ie lk s =
     (case cur s of None \<Rightarrow> Fault | Some p \<Rightarrow>
        kseq (sched_resume ie) (kseq (kmod (upd_proc p (\<lambda>q. q\<lparr>pchan := None\<rparr>)))
          (if lk \<noteq> L_ptable then kseq (release L_ptable) (acquire lk) else kret ())) s)"

text \<open>
  In a loop that sleeps until a condition holds, control comes back through \<open>sleep_resume\<close> and the
  loop is entered again; the call of \<^verbatim>\<open>sleep\<close> itself never returns (\<open>sleep_no_return\<close>).
\<close>

definition sleep_retry :: "chan \<Rightarrow> lockid \<Rightarrow> ('a proc_state_scheme, 'b) kop" where
  "sleep_retry c lk = kseq (sleep c lk) kfault"

definition yield :: "('a proc_state_scheme, unit) kop" where
  "yield = kseq (acquire L_ptable) (\<lambda>s.
     case cur s of None \<Rightarrow> Fault | Some p \<Rightarrow>
       kseq (kmod (upd_proc p (\<lambda>q. q\<lparr>pstate := RUNNABLE\<rparr>))) sched s)"

definition yield_resume :: "bool \<Rightarrow> ('a proc_state_scheme, unit) kop" where
  "yield_resume ie = kseq (sched_resume ie) (release L_ptable)"

definition kill :: "int \<Rightarrow> ('a proc_state_scheme, int) kop" where
  "kill n = kseq (acquire L_ptable) (\<lambda>s.
     case first_slot (\<lambda>p. pid p = n) (ptable s) of
       None \<Rightarrow> kseq (release L_ptable) (kret (-1)) s
     | Some i \<Rightarrow>
         kseq (kmod (upd_proc i (\<lambda>p. p\<lparr>killed := True,
             pstate := (if pstate p = SLEEPING then RUNNABLE else pstate p)\<rparr>)))
           (kseq (release L_ptable) (kret 0)) s)"

section \<open>What they do\<close>

lemma wakeup_eq [simp]:
  "lockable L_ptable s \<Longrightarrow> wakeup c s = Ret () (s\<lparr>ptable := map (wake1 c) (ptable s)\<rparr>)"
  by (simp add: wakeup_def wakeup1_def kop_simps)

lemma wakeup_pres_length: "wakeup c s = Ret () t \<Longrightarrow> lockable L_ptable s \<Longrightarrow> length (ptable t) = length (ptable s)"
  by (auto simp: wakeup_eq)

text \<open>\<open>wakes ps qs\<close>: \<open>qs\<close> is \<open>ps\<close> with some of the sleeping processes made runnable.\<close>

definition wakes :: "proc list \<Rightarrow> proc list \<Rightarrow> bool" where
  "wakes ps qs \<longleftrightarrow> list_all2 (\<lambda>p q. q = p \<or> pstate p = SLEEPING \<and> q = p\<lparr>pstate := RUNNABLE\<rparr>) ps qs"

lemma wakes_refl [simp]: "wakes ps ps"
  by (simp add: wakes_def list_all2_refl)

lemma wakes_trans: "wakes ps qs \<Longrightarrow> wakes qs rs \<Longrightarrow> wakes ps rs"
  unfolding wakes_def by (rule list_all2_trans) auto

lemma wakes_map_wake1 [simp]: "wakes ps (map (wake1 c) ps)"
  by (simp add: wakes_def wake1_def list_all2_conv_all_nth)

lemma wakes_wake1: "wakes ps qs \<Longrightarrow> wakes ps (map (wake1 c) qs)"
  by (erule wakes_trans) simp

lemma wakes_length: "wakes ps qs \<Longrightarrow> length qs = length ps"
  unfolding wakes_def by (drule list_all2_lengthD) simp

text \<open>
  \<^verbatim>\<open>sleep\<close> gives up \<open>lk\<close> and the CPU in one step as far as \<^verbatim>\<open>wakeup\<close> is concerned: it reaches the
  scheduler holding exactly \<^verbatim>\<open>ptable.lock\<close>, with \<open>lk\<close> free and the process marked.
\<close>

lemma sleep_switch:
  assumes "lockable L_ptable s" "lockable lk s" "lk \<noteq> L_ptable"
    and "ncli (this_cpu s) = 0" "cur s = Some p" "p < length (ptable s)"
  shows "sleep c lk (acq lk s) =
    Switch (acq L_ptable (upd_proc p (\<lambda>q. q\<lparr>pchan := Some c, pstate := SLEEPING\<rparr>) s))"
  using assms
  by (simp add: sleep_def sched_def upd_proc_def kop_simps release_acq_swap)
    (simp add: acq_def)

lemma sched_no_return: "sched s \<noteq> Ret () t"
  by (simp add: sched_def split: option.splits)

lemma sleep_no_return: "sleep c lk s \<noteq> Ret () t"
  by (auto simp: sleep_def kseq_def sched_no_return split: option.splits if_splits dest!: kbind_RetD)

lemma sleep_retry_no_fault: "cur s \<noteq> None \<Longrightarrow> sleep_retry c lk s = Fault \<longleftrightarrow> sleep c lk s = Fault"
  using sleep_no_return [of c lk s] by (auto simp: sleep_retry_def kop_simps split: outcome.splits)

text \<open>With any other lock held as well, \<^verbatim>\<open>sleep\<close> panics instead of sleeping with it.\<close>

lemma sleep_two_locks:
  assumes "lockable L_ptable s" "lockable lk s" "lockable lk' s" "lk \<noteq> L_ptable" "lk' \<noteq> L_ptable" "lk' \<noteq> lk"
    and "cur s = Some p" "p < length (ptable s)"
  shows "sleep c lk (acq lk (acq lk' s)) = Panic ''sched locks''"
  using assms
  by (simp add: sleep_def sched_def upd_proc_def kop_simps release_acq_swap)
    (auto simp: acq_def lockable_def)

lemma kill_eq:
  assumes "lockable L_ptable s"
  shows "kill n s = (case first_slot (\<lambda>p. pid p = n) (ptable s) of
     None \<Rightarrow> Ret (-1) s
   | Some i \<Rightarrow> Ret 0 (upd_proc i (\<lambda>p. p\<lparr>killed := True,
        pstate := (if pstate p = SLEEPING then RUNNABLE else pstate p)\<rparr>) s))"
  using assms by (simp add: kill_def upd_proc_def kop_simps split: option.splits)

end
