(* ===== verification/Memory.thy ===== *)
theory Memory
  imports Params
begin

text \<open>
  Byte-addressed memory and the block routines of \<^verbatim>\<open>string.c\<close>: \<^verbatim>\<open>memset\<close> (with the \<^verbatim>\<open>stosb\<close>
  and \<^verbatim>\<open>stosl\<close> instructions of \<^verbatim>\<open>x86.h\<close>), \<^verbatim>\<open>memcmp\<close>, \<^verbatim>\<open>memmove\<close>, \<^verbatim>\<open>memcpy\<close>, and the simpler
  \<^verbatim>\<open>memmove\<close> of \<^verbatim>\<open>ulib.c\<close>. Addresses are 32-bit words, so pointer arithmetic wraps.
\<close>

type_synonym memory = "u32 \<Rightarrow> u8"

section \<open>Words in memory\<close>

definition load32 :: "memory \<Rightarrow> u32 \<Rightarrow> u32" where
  "load32 m a = un_le32 [m a, m (a + 1), m (a + 2), m (a + 3)]"

definition store32 :: "u32 \<Rightarrow> u32 \<Rightarrow> memory \<Rightarrow> memory" where
  "store32 a w m = m(a := le32 w ! 0, a + 1 := le32 w ! 1, a + 2 := le32 w ! 2, a + 3 := le32 w ! 3)"

text \<open>The \<open>n\<close> bytes from \<open>a\<close> on, as a set of addresses and as a list.\<close>

definition in_range :: "u32 \<Rightarrow> nat \<Rightarrow> u32 \<Rightarrow> bool" where
  "in_range a n x \<longleftrightarrow> unat (x - a) < n"

definition bytes_at :: "memory \<Rightarrow> u32 \<Rightarrow> nat \<Rightarrow> u8 list" where
  "bytes_at m a n = map (\<lambda>i. m (a + of_nat i)) [0..<n]"

section \<open>memset\<close>

fun stosb :: "nat \<Rightarrow> u32 \<Rightarrow> u8 \<Rightarrow> memory \<Rightarrow> memory" where
  "stosb 0 a b m = m"
| "stosb (Suc n) a b m = stosb n (a + 1) b (m(a := b))"

fun stosl :: "nat \<Rightarrow> u32 \<Rightarrow> u32 \<Rightarrow> memory \<Rightarrow> memory" where
  "stosl 0 a w m = m"
| "stosl (Suc n) a w m = stosl n (a + 4) w (store32 a w m)"

definition memset :: "u32 \<Rightarrow> u32 \<Rightarrow> u32 \<Rightarrow> memory \<Rightarrow> memory" where
  "memset dst c n m =
     (if dst mod 4 = 0 \<and> n mod 4 = 0 then
        let c = c AND 0xFF
        in stosl (unat (n div 4)) dst (push_bit 24 c OR push_bit 16 c OR push_bit 8 c OR c) m
      else stosb (unat n) dst (ucast c) m)"

section \<open>memcmp, memmove\<close>

text \<open>\<^verbatim>\<open>while(n-- > 0)\<close> counts its unsigned argument down, so the loops run \<^verbatim>\<open>n\<close> times.\<close>

fun memcmp_loop :: "nat \<Rightarrow> u32 \<Rightarrow> u32 \<Rightarrow> memory \<Rightarrow> int" where
  "memcmp_loop 0 s1 s2 m = 0"
| "memcmp_loop (Suc n) s1 s2 m =
     (if m s1 \<noteq> m s2 then uint (m s1) - uint (m s2) else memcmp_loop n (s1 + 1) (s2 + 1) m)"

definition memcmp :: "u32 \<Rightarrow> u32 \<Rightarrow> u32 \<Rightarrow> memory \<Rightarrow> int" where
  "memcmp v1 v2 n m = memcmp_loop (unat n) v1 v2 m"

fun copy_up :: "nat \<Rightarrow> u32 \<Rightarrow> u32 \<Rightarrow> memory \<Rightarrow> memory" where
  "copy_up 0 d s m = m"
| "copy_up (Suc n) d s m = copy_up n (d + 1) (s + 1) (m(d := m s))"

fun copy_down :: "nat \<Rightarrow> u32 \<Rightarrow> u32 \<Rightarrow> memory \<Rightarrow> memory" where
  "copy_down 0 d s m = m"
| "copy_down (Suc n) d s m = copy_down n (d - 1) (s - 1) (m(d - 1 := m (s - 1)))"

definition memmove :: "u32 \<Rightarrow> u32 \<Rightarrow> u32 \<Rightarrow> memory \<Rightarrow> memory" where
  "memmove dst src n m =
     (if src < dst \<and> src + n > dst then copy_down (unat n) (dst + n) (src + n) m
      else copy_up (unat n) dst src m)"

definition memcpy :: "u32 \<Rightarrow> u32 \<Rightarrow> u32 \<Rightarrow> memory \<Rightarrow> memory" where
  "memcpy dst src n m = memmove dst src n m"

text \<open>\<^verbatim>\<open>ulib.c\<close>: the user library's \<^verbatim>\<open>memmove\<close> takes a signed count and always copies upwards.\<close>

definition u_memmove :: "u32 \<Rightarrow> u32 \<Rightarrow> int \<Rightarrow> memory \<Rightarrow> memory" where
  "u_memmove vdst vsrc n m = copy_up (nat n) vdst vsrc m"

text \<open>\<^verbatim>\<open>ulib.c\<close>: the user library's \<^verbatim>\<open>memset\<close> is \<^verbatim>\<open>stosb\<close> alone.\<close>

definition u_memset :: "u32 \<Rightarrow> u32 \<Rightarrow> u32 \<Rightarrow> memory \<Rightarrow> memory" where
  "u_memset dst c n m = stosb (unat n) dst (ucast c) m"

section \<open>Laws\<close>

lemma u32_bound: "unat (x :: u32) < 4294967296"
  using unsigned_less [where ?'a = nat, of x] by simp

text \<open>Clearing the low 12 bits of an address.\<close>

lemma and_page_mask: "(x :: u32) AND - 4096 = push_bit 12 (drop_bit 12 x)"
proof -
  have "x AND NOT (mask 12) = push_bit 12 (drop_bit 12 x)"
    by (auto intro!: bit_word_eqI simp: bit_simps)
  then show ?thesis by (simp add: mask_eq_exp_minus_1)
qed

lemma unat_and_page_mask: "unat ((x :: u32) AND - 4096) = unat x div 4096 * 4096"
proof -
  have "unat x div 4096 * 4096 \<le> unat x" by simp
  then have "unat x div 4096 * 4096 < 4294967296" using u32_bound [of x] by (rule le_less_trans)
  then show ?thesis
    unfolding and_page_mask push_bit_eq_mult drop_bit_eq_div by (simp add: unat_word_ariths unat_div)
qed

lemma unat_sub1: "x \<noteq> 0 \<Longrightarrow> unat ((x :: u32) - 1) = unat x - 1"
  by (rule unat_minus_one)

lemma unat_of_nat_u32 [simp]: "n < 4294967296 \<Longrightarrow> unat (of_nat n :: u32) = n"
  by (simp add: unat_of_nat)

lemma in_range_Suc: "n < 4294967296 \<Longrightarrow> in_range a (Suc n) x \<longleftrightarrow> x = a \<or> in_range (a + 1) n x"
proof -
  assume n: "n < 4294967296"
  have *: "x - (a + 1) = (x - a) - 1" by simp
  show ?thesis
  proof (cases "x = a")
    case True
    then show ?thesis by (simp add: in_range_def)
  next
    case False
    then have "x - a \<noteq> 0" by simp
    moreover have "unat (x - a) \<noteq> 0" using \<open>x - a \<noteq> 0\<close> by (simp add: unat_eq_zero)
    ultimately show ?thesis using False unfolding in_range_def * by (simp add: unat_sub1) linarith
  qed
qed

lemma stosb_eq:
  "n \<le> 4294967296 \<Longrightarrow> stosb n a b m = (\<lambda>x. if in_range a n x then b else m x)"
proof (induction n arbitrary: a m)
  case 0
  then show ?case by (simp add: in_range_def)
next
  case (Suc n)
  then show ?case by (auto simp: in_range_Suc)
qed

lemma store32_replicate: "le32 w = [b, b, b, b] \<Longrightarrow> store32 a w m = stosb 4 a b m"
  by (simp add: store32_def numeral_eq_Suc) (simp add: add.commute)

lemma stosb_add: "stosb (i + j) a b m = stosb j (a + of_nat i) b (stosb i a b m)"
  by (induction i arbitrary: a m) (simp_all add: add_ac)

lemma stosl_replicate: "le32 w = [b, b, b, b] \<Longrightarrow> stosl n a w m = stosb (4 * n) a b m"
proof (induction n arbitrary: a m)
  case 0
  show ?case by simp
next
  case (Suc n)
  have "stosb (4 * Suc n) a b m = stosb (4 * n) (a + 4) b (stosb 4 a b m)"
    using stosb_add [of 4 "4 * n" a b m] by simp
  with Suc show ?case by (simp add: store32_replicate)
qed

lemma le32_pattern:
  fixes c :: u32
  defines "k \<equiv> c AND 0xFF"
  shows "le32 (push_bit 24 k OR push_bit 16 k OR push_bit 8 k OR k) = [ucast c, ucast c, ucast c, ucast c]"
proof -
  have "k = take_bit 8 c" by (simp add: k_def take_bit_eq_mask mask_eq_exp_minus_1)
  then show ?thesis by (auto intro!: bit_word_eqI simp: le32_def bit_simps)
qed

lemma memset_eq:
  "memset dst c n m = (\<lambda>x. if in_range dst (unat n) x then ucast c else m x)"
proof -
  have "4 * unat (n div 4) = unat n" if "n mod 4 = 0"
  proof -
    have "unat n mod 4 = 0" using that by (simp add: unat_eq_zero [symmetric] unat_mod)
    then show ?thesis by (simp add: unat_div, presburger)
  qed
  moreover have "unat n \<le> 4294967296" using u32_bound [of n] by simp
  ultimately show ?thesis
    unfolding memset_def Let_def stosl_replicate [OF le32_pattern] by (simp add: stosb_eq)
qed

text \<open>
  Copying upwards is right unless the destination starts inside the source; copying
  downwards is right unless the source starts inside the destination.
\<close>

lemma copy_up_eq:
  assumes "n \<le> 4294967296" "d = s \<or> n \<le> unat (d - s)"
  shows "copy_up n d s m = (\<lambda>x. if in_range d n x then m (s + (x - d)) else m x)"
  using assms
proof (induction n arbitrary: d s m)
  case 0
  then show ?case by (simp add: in_range_def)
next
  case (Suc n)
  have IH: "copy_up n (d + 1) (s + 1) (m(d := m s)) =
      (\<lambda>x. if in_range (d + 1) n x then (m(d := m s)) (s + 1 + (x - (d + 1))) else (m(d := m s)) x)"
    using Suc.prems by (intro Suc.IH) auto
  have step: "(m(d := m s)) (s + (x - d)) = m (s + (x - d))" if "in_range (d + 1) n x" for x
  proof (cases "s + (x - d) = d")
    case True
    then have eq: "x - d = d - s" by (simp add: algebra_simps)
    have "in_range d (Suc n) x" using that Suc.prems by (simp add: in_range_Suc)
    then have "\<not> Suc n \<le> unat (d - s)" unfolding eq [symmetric] by (simp add: in_range_def)
    then have "d = s" using Suc.prems(2) by blast
    with True show ?thesis by simp
  qed simp
  have shift: "s + 1 + (x - (d + 1)) = s + (x - d)" for x by simp
  have n: "n < 4294967296" using Suc.prems(1) by simp
  show ?case
    unfolding copy_up.simps IH shift
  proof (rule ext)
    fix x
    show "(if in_range (d + 1) n x then (m(d := m s)) (s + (x - d)) else (m(d := m s)) x) =
        (if in_range d (Suc n) x then m (s + (x - d)) else m x)"
    proof (cases "in_range (d + 1) n x")
      case True
      then show ?thesis by (simp add: step [OF True] in_range_Suc [OF n] del: fun_upd_apply)
    next
      case False
      then show ?thesis by (simp add: in_range_Suc [OF n])
    qed
  qed
qed

lemma in_range_Suc_last:
  "n < 4294967296 \<Longrightarrow> in_range a (Suc n) x \<longleftrightarrow> x = a + of_nat n \<or> in_range a n x"
proof -
  assume n: "n < 4294967296"
  have "unat (x - a) = n \<longleftrightarrow> x = a + of_nat n"
  proof
    assume "unat (x - a) = n"
    then have "x - a = of_nat n" by auto
    then show "x = a + of_nat n" by (simp add: algebra_simps)
  qed (use n in simp)
  then show ?thesis by (auto simp: in_range_def less_Suc_eq)
qed

lemma copy_down_eq:
  assumes "n \<le> 4294967296" "d = s \<or> n \<le> unat (s - d)"
  shows "copy_down n (d + of_nat n) (s + of_nat n) m =
    (\<lambda>x. if in_range d n x then m (s + (x - d)) else m x)"
  using assms
proof (induction n arbitrary: m)
  case 0
  then show ?case by (simp add: in_range_def)
next
  case (Suc n)
  let ?d = "d + of_nat n" and ?s = "s + of_nat n"
  have n: "n < 4294967296" using Suc.prems(1) by simp
  have IH: "copy_down n ?d ?s (m(?d := m ?s)) =
      (\<lambda>x. if in_range d n x then (m(?d := m ?s)) (s + (x - d)) else (m(?d := m ?s)) x)"
    using Suc.prems by (intro Suc.IH) auto
  have step: "(m(?d := m ?s)) (s + (x - d)) = m (s + (x - d))" if x: "in_range d n x" for x
  proof (cases "s + (x - d) = ?d")
    case True
    then have eq: "of_nat n - (x - d) = s - d" by (simp add: algebra_simps)
    have le: "x - d \<le> of_nat n" using x n by (simp add: in_range_def word_le_nat_alt)
    have "unat (s - d) = n - unat (x - d)"
      unfolding eq [symmetric] using le n by (simp add: unat_sub)
    then have "d = s" using Suc.prems(2) by linarith
    with True show ?thesis by simp
  qed simp
  have peel: "d + of_nat (Suc n) - 1 = ?d" "s + of_nat (Suc n) - 1 = ?s" by simp_all
  show ?case
    unfolding copy_down.simps peel IH
  proof (rule ext)
    fix x
    show "(if in_range d n x then (m(?d := m ?s)) (s + (x - d)) else (m(?d := m ?s)) x) =
        (if in_range d (Suc n) x then m (s + (x - d)) else m x)"
    proof (cases "in_range d n x")
      case True
      then show ?thesis by (simp add: step [OF True] in_range_Suc_last [OF n] del: fun_upd_apply)
    next
      case False
      then show ?thesis by (simp add: in_range_Suc_last [OF n])
    qed
  qed
qed

lemma memmove_eq:
  assumes src: "unat src + unat n < 4294967296" and dst: "unat dst + unat n \<le> 4294967296"
  shows "memmove dst src n m = (\<lambda>x. if in_range dst (unat n) x then m (src + (x - dst)) else m x)"
proof (cases "src < dst \<and> src + n > dst")
  case True
  have n: "unat n \<le> 4294967296" using u32_bound [of n] by simp
  have "unat n \<le> unat (src - dst)"
    using True dst u32_bound [of dst] by (simp add: word_less_nat_alt unat_sub_if')
  then show ?thesis
    using True copy_down_eq [OF n, of dst src m] by (simp add: memmove_def)
next
  case False
  have n: "unat n \<le> 4294967296" using u32_bound [of n] by simp
  have "dst = src \<or> unat n \<le> unat (dst - src)"
  proof (cases "src < dst")
    case True
    with False have "\<not> dst < src + n" by simp
    moreover have "unat (src + n) = unat src + unat n" using src by (simp add: unat_word_ariths)
    ultimately have "unat src + unat n \<le> unat dst" by (simp add: word_less_nat_alt)
    then have "unat n \<le> unat (dst - src)" using True by (simp add: word_less_nat_alt unat_sub_if')
    then show ?thesis ..
  next
    case nless: False
    show ?thesis
    proof (cases "dst = src")
      case ne: False
      with nless have "unat dst < unat src" by (meson linorder_neqE word_less_nat_alt)
      then have "unat n \<le> unat (dst - src)" using src by (simp add: unat_sub_if')
      then show ?thesis ..
    qed simp
  qed
  then show ?thesis using copy_up_eq [OF n, of dst src m] unfolding memmove_def if_not_P [OF False] by simp
qed

lemma length_bytes_at [simp]: "length (bytes_at m a n) = n"
  by (simp add: bytes_at_def)

lemma memcmp_loop_zero:
  "memcmp_loop n s1 s2 m = 0 \<longleftrightarrow> (\<forall>i < n. m (s1 + of_nat i) = m (s2 + of_nat i))"
proof (induction n arbitrary: s1 s2)
  case 0
  show ?case by simp
next
  case (Suc n)
  have "(\<forall>i < Suc n. m (s1 + of_nat i) = m (s2 + of_nat i)) \<longleftrightarrow>
      m s1 = m s2 \<and> (\<forall>i < n. m (s1 + 1 + of_nat i) = m (s2 + 1 + of_nat i))"
    unfolding All_less_Suc2 by (simp add: add.assoc)
  then show ?case using Suc by (simp add: word_uint_eq_iff)
qed

lemma bytes_at_memmove:
  assumes "unat src + unat n < 4294967296" "unat dst + unat n \<le> 4294967296"
  shows "bytes_at (memmove dst src n m) dst (unat n) = bytes_at m src (unat n)"
proof (rule nth_equalityI)
  fix i assume "i < length (bytes_at (memmove dst src n m) dst (unat n))"
  then have i: "i < unat n" by simp
  then have "unat (of_nat i :: u32) = i" using u32_bound [of n] by simp
  with i show "bytes_at (memmove dst src n m) dst (unat n) ! i = bytes_at m src (unat n) ! i"
    by (simp add: bytes_at_def memmove_eq [OF assms] in_range_def)
qed simp

lemma load32_store32 [simp]: "load32 (store32 a w m) a = w"
proof -
  have "[le32 w ! 0, le32 w ! 1, le32 w ! 2, le32 w ! 3] = le32 w"
    by (rule nth_equalityI) (auto simp: less_Suc_eq numeral_eq_Suc)
  then show ?thesis by (simp add: load32_def store32_def)
qed

lemma load32_cong: "(\<And>x. in_range a 4 x \<Longrightarrow> m x = m' x) \<Longrightarrow> load32 m a = load32 m' a"
  by (simp add: load32_def in_range_def)

lemma store32_other: "\<not> in_range a 4 x \<Longrightarrow> store32 a w m x = m x"
  by (auto simp: store32_def in_range_def)

lemma in_range_mono: "in_range a n x \<Longrightarrow> n \<le> k \<Longrightarrow> in_range a k x"
  by (simp add: in_range_def)

text \<open>Two different pages do not overlap.\<close>

definition page_aligned :: "u32 \<Rightarrow> bool" where
  "page_aligned a \<longleftrightarrow> a mod PGSIZE = 0"

lemma page_aligned_nat: "page_aligned a \<longleftrightarrow> 4096 dvd unat a"
  by (simp add: page_aligned_def unat_0_iff [symmetric] unat_mod dvd_eq_mod_eq_0 del: unat_0_iff)

lemma page_of:
  assumes "page_aligned a" "in_range a 4096 x"
  shows "unat x div 4096 = unat a div 4096"
proof -
  from assms(1) obtain q where q: "unat a = 4096 * q" by (auto simp: page_aligned_nat)
  have "q < 1048576" using u32_bound [of a] q by simp
  then have "unat a + unat (x - a) < 4294967296" using assms(2) q by (simp add: in_range_def)
  then have "unat (a + (x - a)) = unat a + unat (x - a)" using unat_add_lem [of a "x - a"] by simp
  then show ?thesis using assms(2) q by (simp add: in_range_def)
qed

lemma pages_disjoint:
  assumes "page_aligned a" "page_aligned b" "a \<noteq> b" "in_range a 4096 x"
  shows "\<not> in_range b 4096 x"
proof
  assume "in_range b 4096 x"
  then have "unat a div 4096 = unat b div 4096" using assms page_of by metis
  then have "unat a = unat b" using assms(1,2) by (auto simp: page_aligned_nat)
  with assms(3) show False by (simp add: word_unat_eq_iff)
qed

section \<open>Properties\<close>

text \<open>
  C21: \<^verbatim>\<open>memmove\<close> copies correctly however its two ranges overlap: afterwards the destination holds
  the bytes the source held before, and no byte outside the destination changes.
\<close>

theorem memmove_correct:
  assumes "unat src + unat n < 4294967296" "unat dst + unat n \<le> 4294967296"
  shows "bytes_at (memmove dst src n m) dst (unat n) = bytes_at m src (unat n) \<and>
    (\<forall>x. \<not> in_range dst (unat n) x \<longrightarrow> memmove dst src n m x = m x)"
  using bytes_at_memmove [OF assms] by (simp add: memmove_eq [OF assms])

theorem memmove_correct_witness:
  "bytes_at (memmove 101 100 3 (\<lambda>x. ucast x)) 101 3 = bytes_at (\<lambda>x. ucast x) 100 3 \<and>
   memmove 101 100 3 (\<lambda>x. ucast x) 200 = 200"
proof -
  have "unat (100 :: u32) + unat (3 :: u32) < 4294967296" "unat (101 :: u32) + unat (3 :: u32) \<le> 4294967296"
    by simp_all
  note r = memmove_correct [OF this, of "\<lambda>x. ucast x"]
  show ?thesis using conjunct1 [OF r] spec [OF conjunct2 [OF r], of 200] by (simp add: in_range_def)
qed

text \<open>
  C22: \<^verbatim>\<open>memset\<close> writes the low byte of its argument to exactly the given range, whichever of its two
  instruction sequences (four bytes at a time or one) it takes.
\<close>

theorem memset_correct:
  "memset dst c n m x = (if in_range dst (unat n) x then ucast c else m x)"
  by (simp add: memset_eq)

end
