(* ===== verification/Kalloc.thy ===== *)
theory Kalloc
  imports Proc Memory
begin

text \<open>
  The physical page allocator (\<^verbatim>\<open>kalloc.c\<close>). Its free list is threaded through the free
  pages themselves: the first word of a free page is the address of the next one. The
  address \<^verbatim>\<open>end\<close>, which the linker places after the kernel image, is the field \<open>kend\<close>.
\<close>

section \<open>State\<close>

record kmem_state = proc_state +
  mem :: memory
  kend :: u32
  use_lock :: bool
  freelist :: u32

lemma hw_frame_mem [simp]:
  "acq lk (s\<lparr>mem := x\<rparr>) = (acq lk s)\<lparr>mem := x\<rparr>" "mem (acq lk s) = mem s"
  "lockable lk (s\<lparr>mem := x\<rparr>) = lockable lk s" "holding lk (s\<lparr>mem := x\<rparr>) = holding lk s"
  by (simp_all add: acq_def lockable_def holding_def)

lemma hw_frame_freelist [simp]:
  "acq lk (s\<lparr>freelist := y\<rparr>) = (acq lk s)\<lparr>freelist := y\<rparr>" "freelist (acq lk s) = freelist s"
  "lockable lk (s\<lparr>freelist := y\<rparr>) = lockable lk s" "holding lk (s\<lparr>freelist := y\<rparr>) = holding lk s"
  by (simp_all add: acq_def lockable_def holding_def)

lemma hw_frame_kmem [simp]:
  "acq lk (s\<lparr>use_lock := y\<rparr>) = (acq lk s)\<lparr>use_lock := y\<rparr>" "use_lock (acq lk s) = use_lock s"
  "lockable lk (s\<lparr>use_lock := y\<rparr>) = lockable lk s" "kend (acq lk s) = kend s"
  by (simp_all add: acq_def lockable_def)

lemma release_frame_kmem [simp]:
  "lockable lk s \<Longrightarrow> release lk ((acq lk s)\<lparr>freelist := y\<rparr>) = Ret () (s\<lparr>freelist := y\<rparr>)"
  "lockable lk s \<Longrightarrow> release lk ((acq lk s)\<lparr>mem := x, freelist := y\<rparr>) = Ret () (s\<lparr>mem := x, freelist := y\<rparr>)"
  using release_acq [of lk "s\<lparr>freelist := y\<rparr>"] release_acq [of lk "s\<lparr>mem := x, freelist := y\<rparr>"]
  by simp_all

section \<open>Operations\<close>

definition when_lock :: "('a kmem_state_scheme, unit) kop \<Rightarrow> ('a kmem_state_scheme, unit) kop" where
  "when_lock m s = (if use_lock s then m s else Ret () s)"

definition page_ok :: "u32 \<Rightarrow> u32 \<Rightarrow> bool" where
  "page_ok ke v \<longleftrightarrow> \<not> (\<not> page_aligned v \<or> v < ke \<or> v2p v \<ge> PHYSTOP)"

definition kfree :: "u32 \<Rightarrow> ('a kmem_state_scheme, unit) kop" where
  "kfree v = kseq (kassert (\<lambda>s. page_ok (kend s) v) ''kfree'')
     (kseq (kmod (\<lambda>s. s\<lparr>mem := memset v 1 PGSIZE (mem s)\<rparr>))
     (kseq (when_lock (acquire L_kmem))
     (kseq (kmod (\<lambda>s. s\<lparr>mem := store32 v (freelist s) (mem s), freelist := v\<rparr>))
       (when_lock (release L_kmem)))))"

definition kalloc :: "('a kmem_state_scheme, u32) kop" where
  "kalloc = kseq (when_lock (acquire L_kmem))
     (kbind (kget freelist) (\<lambda>r.
      kseq (if r \<noteq> 0 then kmod (\<lambda>s. s\<lparr>freelist := load32 (mem s) r\<rparr>) else kret ())
     (kseq (when_lock (release L_kmem)) (kret r))))"

text \<open>
  \<^verbatim>\<open>freerange\<close> frees page after page; the first argument bounds the number of rounds, and
  \<open>freerange_fuel\<close> below shows that the bound used is never reached.
\<close>

fun freerange_loop :: "nat \<Rightarrow> u32 \<Rightarrow> u32 \<Rightarrow> ('a kmem_state_scheme, unit) kop" where
  "freerange_loop 0 p vend = (\<lambda>s. Hang)"
| "freerange_loop (Suc n) p vend =
     (if p + PGSIZE \<le> vend then kseq (kfree p) (freerange_loop n (p + PGSIZE) vend) else kret ())"

definition freerange :: "u32 \<Rightarrow> u32 \<Rightarrow> ('a kmem_state_scheme, unit) kop" where
  "freerange vstart vend = freerange_loop (unat vend div 4096 + 1) (PGROUNDUP vstart) vend"

definition kinit1 :: "u32 \<Rightarrow> u32 \<Rightarrow> ('a kmem_state_scheme, unit) kop" where
  "kinit1 vstart vend = kseq (initlock L_kmem ''kmem'')
     (kseq (kmod (\<lambda>s. s\<lparr>use_lock := False\<rparr>)) (freerange vstart vend))"

definition kinit2 :: "u32 \<Rightarrow> u32 \<Rightarrow> ('a kmem_state_scheme, unit) kop" where
  "kinit2 vstart vend = kseq (freerange vstart vend) (kmod (\<lambda>s. s\<lparr>use_lock := True\<rparr>))"

section \<open>The free list\<close>

fun flist :: "memory \<Rightarrow> u32 \<Rightarrow> u32 list \<Rightarrow> bool" where
  "flist m p [] \<longleftrightarrow> p = 0"
| "flist m p (x # xs) \<longleftrightarrow> p \<noteq> 0 \<and> p = x \<and> flist m (load32 m x) xs"

text \<open>The allocator's invariant: the free list is a list of distinct pages the allocator manages.\<close>

definition kmem_inv :: "u32 list \<Rightarrow> 'a kmem_state_scheme \<Rightarrow> bool" where
  "kmem_inv xs s \<longleftrightarrow> flist (mem s) (freelist s) xs \<and> distinct xs \<and> (\<forall>x \<in> set xs. page_ok (kend s) x)"

definition kmem_lockable :: "'a kmem_state_scheme \<Rightarrow> bool" where
  "kmem_lockable s \<longleftrightarrow> (use_lock s \<longrightarrow> lockable L_kmem s)"

lemma kalloc_eq:
  assumes "kmem_lockable s"
  shows "kalloc s = Ret (freelist s)
    (if freelist s \<noteq> 0 then s\<lparr>freelist := load32 (mem s) (freelist s)\<rparr> else s)"
  using assms by (auto simp: kalloc_def when_lock_def kmem_lockable_def kop_simps)

lemma kfree_eq:
  assumes "kmem_lockable s" "page_ok (kend s) v"
  shows "kfree v s =
    Ret () (s\<lparr>mem := store32 v (freelist s) (memset v 1 PGSIZE (mem s)), freelist := v\<rparr>)"
  using assms by (auto simp: kfree_def when_lock_def kmem_lockable_def kop_simps)

lemma kfree_bad: "\<not> page_ok (kend s) v \<Longrightarrow> kfree v s = Panic ''kfree''"
  by (simp add: kfree_def kop_simps)

text \<open>Filling a page and linking it leaves the words of all other pages alone.\<close>

lemma load32_freed:
  assumes "page_aligned v" "page_aligned a" "a \<noteq> v"
  shows "load32 (store32 v w (memset v 1 4096 m)) a = load32 m a"
proof (rule load32_cong)
  fix x assume "in_range a 4 x"
  then have "in_range a 4096 x" by (rule in_range_mono) simp
  then have v: "\<not> in_range v 4096 x" by (rule pages_disjoint [OF assms(2,1,3)])
  then have "\<not> in_range v 4 x" using in_range_mono [of v 4 x 4096] by auto
  with v show "store32 v w (memset v 1 4096 m) x = m x" by (simp add: store32_other memset_eq)
qed

lemma page_ok_aligned: "page_ok ke v \<Longrightarrow> page_aligned v"
  by (simp add: page_ok_def)

lemma page_ok_nonzero: "page_ok ke v \<Longrightarrow> v \<noteq> 0"
  by (auto simp: page_ok_def v2p_def)

lemma flist_freed:
  assumes "page_aligned v" "\<forall>x \<in> set xs. page_aligned x" "v \<notin> set xs" "flist m p xs"
  shows "flist (store32 v w (memset v 1 4096 m)) p xs"
  using assms(2-4) by (induction xs arbitrary: p) (auto simp: load32_freed [OF assms(1)])

lemma flist_unique: "flist m p xs \<Longrightarrow> flist m p ys \<Longrightarrow> xs = ys"
proof (induction xs arbitrary: p ys)
  case Nil
  then show ?case by (cases ys) auto
next
  case (Cons x xs)
  then show ?case by (cases ys) auto
qed

lemma kalloc_step:
  assumes "kmem_lockable s" "kmem_inv xs s"
  shows "kalloc s = (case xs of [] \<Rightarrow> Ret 0 s
    | x # ys \<Rightarrow> Ret x (s\<lparr>freelist := load32 (mem s) x\<rparr>))"
  using assms by (auto simp: kalloc_eq kmem_inv_def split: list.splits)

lemma kalloc_inv:
  "kmem_inv (x # xs) s \<Longrightarrow> kmem_inv xs (s\<lparr>freelist := load32 (mem s) x\<rparr>)"
  by (auto simp: kmem_inv_def)

lemma kfree_inv:
  assumes "kmem_inv xs s" "page_ok (kend s) v" "v \<notin> set xs"
  shows "kmem_inv (v # xs) (s\<lparr>mem := store32 v (freelist s) (memset v 1 PGSIZE (mem s)), freelist := v\<rparr>)"
proof -
  have "\<forall>x \<in> set xs. page_aligned x" using assms(1) page_ok_aligned by (auto simp: kmem_inv_def)
  with assms flist_freed [of v xs "mem s" "freelist s" "freelist s"] show ?thesis
    by (auto simp: kmem_inv_def page_ok_nonzero page_ok_aligned)
qed

lemma kmem_lockable_frame [simp]:
  "kmem_lockable (s\<lparr>freelist := y\<rparr>) = kmem_lockable s" "kmem_lockable (s\<lparr>mem := x\<rparr>) = kmem_lockable s"
  by (simp_all add: kmem_lockable_def)

section \<open>A page allocator as an interface\<close>

text \<open>
  The contract the rest of the kernel relies on: the allocator keeps a set of free pages,
  an allocation hands out one of them or fails when there is none, and freeing a page that
  is in use makes it available again. Its clients may conclude that pages in use are
  never handed out twice.
\<close>

locale page_allocator =
  fixes alloc :: "'s \<Rightarrow> ('s, u32) outcome" and dealloc :: "u32 \<Rightarrow> 's \<Rightarrow> ('s, unit) outcome"
    and free_pages :: "'s \<Rightarrow> u32 set" and managed :: "'s \<Rightarrow> u32 \<Rightarrow> bool" and ok :: "'s \<Rightarrow> bool"
  assumes alloc_some: "ok s \<Longrightarrow> free_pages s \<noteq> {} \<Longrightarrow>
      \<exists>p t. alloc s = Ret p t \<and> p \<noteq> 0 \<and> p \<in> free_pages s \<and> free_pages t = free_pages s - {p} \<and> ok t \<and>
        managed t = managed s"
    and alloc_none: "ok s \<Longrightarrow> free_pages s = {} \<Longrightarrow> alloc s = Ret 0 s"
    and dealloc_ok: "ok s \<Longrightarrow> managed s p \<Longrightarrow> p \<notin> free_pages s \<Longrightarrow>
      \<exists>t. dealloc p s = Ret () t \<and> free_pages t = insert p (free_pages s) \<and> ok t \<and> managed t = managed s"
    and free_managed: "ok s \<Longrightarrow> p \<in> free_pages s \<Longrightarrow> managed s p \<and> p \<noteq> 0"
    and free_finite: "ok s \<Longrightarrow> finite (free_pages s)"
begin

text \<open>A batch of allocations, as a process that grows by \<open>n\<close> pages makes.\<close>

fun alloc_n :: "nat \<Rightarrow> 's \<Rightarrow> ('s, u32 list) outcome" where
  "alloc_n 0 s = Ret [] s"
| "alloc_n (Suc n) s = kbind alloc (\<lambda>p. if p = 0 then kret [] else kbind (alloc_n n) (\<lambda>ps. kret (p # ps))) s"

lemma alloc_n_spec:
  "ok s \<Longrightarrow> \<exists>ps t. alloc_n n s = Ret ps t \<and> distinct ps \<and> set ps \<subseteq> free_pages s \<and>
     free_pages t = free_pages s - set ps \<and> length ps = min n (card (free_pages s)) \<and> ok t \<and> managed t = managed s"
proof (induction n arbitrary: s)
  case 0
  then show ?case by simp
next
  case (Suc n)
  show ?case
  proof (cases "free_pages s = {}")
    case True
    with Suc.prems show ?thesis by (simp add: alloc_none kop_simps)
  next
    case False
    then obtain p t where p: "alloc s = Ret p t" "p \<noteq> 0" "p \<in> free_pages s"
        "free_pages t = free_pages s - {p}" "ok t" "managed t = managed s"
      using alloc_some Suc.prems by blast
    obtain ps u where u: "alloc_n n t = Ret ps u" "distinct ps" "set ps \<subseteq> free_pages t"
        "free_pages u = free_pages t - set ps" "length ps = min n (card (free_pages t))" "ok u"
        "managed u = managed t"
      using Suc.IH [OF p(5)] by blast
    have card: "card (free_pages s) = Suc (card (free_pages t))"
      using p(3,4) free_finite [OF Suc.prems] card.remove [of "free_pages s" p] by simp
    have eq: "alloc_n (Suc n) s = Ret (p # ps) u" using p(1,2) u(1) by (simp add: kop_simps)
    have "distinct (p # ps)" using p(4) u(2,3) by auto
    moreover have "set (p # ps) \<subseteq> free_pages s" using p(3,4) u(3) by auto
    moreover have "free_pages u = free_pages s - set (p # ps)" using p(4) u(4) by auto
    moreover have "length (p # ps) = min (Suc n) (card (free_pages s))" using u(5) card by simp
    moreover have "managed u = managed s" using u(7) p(6) by simp
    ultimately show ?thesis using eq u(6) by (intro exI [of _ "p # ps"] exI [of _ u] conjI)
  qed
qed

lemma free_then_alloc_fresh:
  assumes "ok s" "managed s p" "p \<notin> free_pages s"
  shows "\<exists>t q u. dealloc p s = Ret () t \<and> alloc t = Ret q u \<and> q \<noteq> 0 \<and> q \<in> insert p (free_pages s) \<and>
    q \<notin> free_pages u"
proof -
  from dealloc_ok [OF assms] obtain t where t: "dealloc p s = Ret () t"
      "free_pages t = insert p (free_pages s)" "ok t" by blast
  then have "free_pages t \<noteq> {}" by simp
  from alloc_some [OF t(3) this] obtain q u where "alloc t = Ret q u" "q \<noteq> 0" "q \<in> free_pages t"
      "free_pages u = free_pages t - {q}" by blast
  with t show ?thesis by simp
qed

end

text \<open>The free pages of a state, read off its free list.\<close>

definition kfree_pages :: "'a kmem_state_scheme \<Rightarrow> u32 set" where
  "kfree_pages s = {p. \<exists>xs. kmem_inv xs s \<and> p \<in> set xs}"

definition kmem_ok :: "'a kmem_state_scheme \<Rightarrow> bool" where
  "kmem_ok s \<longleftrightarrow> kmem_lockable s \<and> (\<exists>xs. kmem_inv xs s)"

lemma kfree_pages_eq: "kmem_inv xs s \<Longrightarrow> kfree_pages s = set xs"
proof -
  assume xs: "kmem_inv xs s"
  then have "ys = xs" if "kmem_inv ys s" for ys
    using that flist_unique [of "mem s" "freelist s" ys xs] by (simp add: kmem_inv_def)
  with xs show ?thesis unfolding kfree_pages_def by blast
qed

interpretation kp: page_allocator kalloc kfree kfree_pages "\<lambda>s. page_ok (kend s)" kmem_ok
proof
  fix s :: "'a kmem_state_scheme" and p
  assume "kmem_ok s"
  then obtain xs where s: "kmem_lockable s" "kmem_inv xs s" by (auto simp: kmem_ok_def)
  note pages = kfree_pages_eq [OF s(2)]
  show "\<exists>p t. kalloc s = Ret p t \<and> p \<noteq> 0 \<and> p \<in> kfree_pages s \<and> kfree_pages t = kfree_pages s - {p} \<and>
      kmem_ok t \<and> page_ok (kend t) = page_ok (kend s)" if ne: "kfree_pages s \<noteq> {}"
  proof -
    from ne pages obtain x ys where xs: "xs = x # ys" by (cases xs) auto
    let ?t = "s\<lparr>freelist := load32 (mem s) x\<rparr>"
    have t: "kmem_inv ys ?t" using s(2) xs kalloc_inv by blast
    have "kalloc s = Ret x ?t" using kalloc_step [OF s] xs by simp
    moreover have "x \<noteq> 0" using s(2) xs by (auto simp: kmem_inv_def)
    moreover have "kfree_pages ?t = kfree_pages s - {x}"
      using kfree_pages_eq [OF t] pages xs s(2) by (auto simp: kmem_inv_def)
    moreover have "kmem_ok ?t" using t s(1) by (auto simp: kmem_ok_def)
    ultimately show ?thesis using pages xs by auto
  qed
  show "kalloc s = Ret 0 s" if "kfree_pages s = {}"
    using that pages kalloc_step [OF s] by simp
  show "\<exists>t. kfree p s = Ret () t \<and> kfree_pages t = insert p (kfree_pages s) \<and> kmem_ok t \<and>
      page_ok (kend t) = page_ok (kend s)" if p: "page_ok (kend s) p" "p \<notin> kfree_pages s"
  proof -
    let ?t = "s\<lparr>mem := store32 p (freelist s) (memset p 1 PGSIZE (mem s)), freelist := p\<rparr>"
    have t: "kmem_inv (p # xs) ?t" using kfree_inv [OF s(2) p(1)] p(2) pages by simp
    have "kfree p s = Ret () ?t" by (rule kfree_eq [OF s(1) p(1)])
    moreover have "kfree_pages ?t = insert p (kfree_pages s)" using kfree_pages_eq [OF t] pages by simp
    moreover have "kmem_ok ?t" using t s(1) by (auto simp: kmem_ok_def)
    ultimately show ?thesis by auto
  qed
  show "page_ok (kend s) p \<and> p \<noteq> 0" if "p \<in> kfree_pages s"
    using that pages s(2) page_ok_nonzero by (auto simp: kmem_inv_def)
  show "finite (kfree_pages s)" using pages by simp
qed

section \<open>Handing memory to the allocator\<close>

lemma page_ok_bounds:
  assumes "page_ok ke v"
  shows "0x80000000 \<le> unat v" "unat v < 0x8E000000"
proof -
  have "\<not> PHYSTOP \<le> v - KERNBASE" using assms by (auto simp: page_ok_def v2p_def)
  then have "unat (v - KERNBASE) < 0xE000000" by (simp add: word_le_nat_alt)
  then show "0x80000000 \<le> unat v" "unat v < 0x8E000000"
    using u32_bound [of v] by (auto simp: unat_sub_if' split: if_splits)
qed

text \<open>
  The bound on the rounds of \<^verbatim>\<open>freerange\<close> is never reached: more rounds do not change the outcome. A
  pointer that runs over the end of the address space does not restart the loop, since \<^verbatim>\<open>kfree\<close>
  panics on the last page.
\<close>

lemma freerange_fuel:
  fixes s :: "'a kmem_state_scheme"
  shows "0 < n \<Longrightarrow> unat vend div 4096 < n + unat p div 4096 \<Longrightarrow>
     freerange_loop (n + k) p vend s = freerange_loop n p vend s"
proof (induction n arbitrary: p s)
  case 0
  then show ?case by simp
next
  case (Suc n)
  have *: "freerange_loop (n + k) (p + PGSIZE) vend t = freerange_loop n (p + PGSIZE) vend t"
    if "page_ok (kend s) p" "p + PGSIZE \<le> vend" for t :: "'a kmem_state_scheme"
  proof -
    have "unat (p + PGSIZE) = unat p + 4096" using page_ok_bounds [OF that(1)] by (simp add: unat_word_ariths)
    with that(2) Suc.prems show ?thesis by (intro Suc.IH) (auto simp: word_le_nat_alt)
  qed
  show ?case
  proof (cases "page_ok (kend s) p")
    case True
    with * show ?thesis by (simp add: kseq_def kbind_def split: outcome.splits)
  next
    case False
    then show ?thesis by (simp add: kfree_bad kop_simps)
  qed
qed

definition page_seq :: "u32 \<Rightarrow> u32 \<Rightarrow> u32 list" where
  "page_seq p vend = map (\<lambda>i. p + of_nat (4096 * i)) [0..<(unat vend - unat p) div 4096]"

lemma page_seq_Cons:
  assumes "unat p + 4096 < 4294967296" "p + PGSIZE \<le> vend"
  shows "page_seq p vend = p # page_seq (p + PGSIZE) vend"
proof -
  have p: "unat (p + PGSIZE) = unat p + 4096" using assms(1) by (simp add: unat_word_ariths)
  then have "unat p + 4096 \<le> unat vend" using assms(2) by (simp add: word_le_nat_alt)
  then have "(unat vend - unat p) div 4096 = Suc ((unat vend - unat (p + PGSIZE)) div 4096)"
    unfolding p by (simp add: le_div_geq)
  then show ?thesis
    by (simp add: page_seq_def upt_conv_Cons map_Suc_upt [symmetric] algebra_simps del: upt_Suc)
qed

lemma page_seq_Nil:
  assumes "unat p + 4096 < 4294967296" "\<not> p + PGSIZE \<le> vend"
  shows "page_seq p vend = []"
proof -
  have "unat (p + PGSIZE) = unat p + 4096" using assms(1) by (simp add: unat_word_ariths)
  then have "unat vend < unat p + 4096" using assms(2) by (simp add: word_le_nat_alt)
  then show ?thesis by (simp add: page_seq_def)
qed

lemma set_page_seq:
  assumes "page_aligned p"
  shows "set (page_seq p vend) = {x. page_aligned x \<and> p \<le> x \<and> unat x + 4096 \<le> unat vend}" (is "?L = ?R")
proof
  from assms obtain q where q: "unat p = 4096 * q" by (auto simp: page_aligned_nat)
  show "?L \<subseteq> ?R"
  proof
    fix x assume "x \<in> ?L"
    then obtain i where i: "i < (unat vend - unat p) div 4096" "x = p + of_nat (4096 * i)"
      by (auto simp: page_seq_def)
    have "4096 * Suc i \<le> unat vend - unat p"
      using i(1) by (metis Suc_leI div_times_less_eq_dividend le_trans mult.commute mult_le_mono2)
    then have le: "unat p + 4096 * i + 4096 \<le> unat vend" by simp
    then have "unat x = unat p + 4096 * i"
      using u32_bound [of vend] unfolding i(2) by (simp add: unat_word_ariths unat_of_nat)
    with le q show "x \<in> ?R" by (simp add: page_aligned_nat word_le_nat_alt)
  qed
  show "?R \<subseteq> ?L"
  proof
    fix x assume x: "x \<in> ?R"
    then obtain r where r: "unat x = 4096 * r" by (auto simp: page_aligned_nat)
    have le: "unat p \<le> unat x" "unat x + 4096 \<le> unat vend" using x by (auto simp: word_le_nat_alt)
    then have "4096 * Suc (r - q) \<le> unat vend - unat p" using q r by simp
    then have "r - q < (unat vend - unat p) div 4096" by (simp add: less_eq_div_iff_mult_less_eq less_eq_Suc_le)
    moreover have "x = p + of_nat (4096 * (r - q))"
    proof -
      have "4096 * (r - q) = unat x - unat p" using q r by simp
      also have "\<dots> = unat (x - p)" using le(1) by (simp add: unat_sub_if')
      finally have "of_nat (4096 * (r - q)) = x - p" by simp
      then show ?thesis by simp
    qed
    ultimately show "x \<in> ?L" by (auto simp: page_seq_def)
  qed
qed

lemma freerange_loop_ok:
  assumes "kmem_lockable s" "kmem_inv xs s" "page_aligned p" "unat p + 4096 < 4294967296"
    and "\<forall>x \<in> set (page_seq p vend). page_ok (kend s) x \<and> x \<notin> set xs" "length (page_seq p vend) < n"
  shows "\<exists>m f. freerange_loop n p vend s = Ret () (s\<lparr>mem := m, freelist := f\<rparr>) \<and>
    kmem_inv (rev (page_seq p vend) @ xs) (s\<lparr>mem := m, freelist := f\<rparr>)"
  using assms
proof (induction n arbitrary: p xs s)
  case 0
  then show ?case by simp
next
  case (Suc n)
  show ?case
  proof (cases "p + PGSIZE \<le> vend")
    case False
    then have "page_seq p vend = []" using Suc.prems(4) page_seq_Nil by blast
    then show ?thesis using Suc.prems(2) False
      by (intro exI [of _ "mem s"] exI [of _ "freelist s"]) (simp add: kret_def)
  next
    case True
    note seq = page_seq_Cons [OF Suc.prems(4) True]
    let ?s = "s\<lparr>mem := store32 p (freelist s) (memset p 1 PGSIZE (mem s)), freelist := p\<rparr>"
    have p: "page_ok (kend s) p" "p \<notin> set xs" using Suc.prems(5) seq by auto
    have al: "page_aligned (p + PGSIZE)"
      using Suc.prems(3,4) by (simp add: page_aligned_nat unat_word_ariths)
    have p': "unat (p + PGSIZE) = unat p + 4096" using Suc.prems(4) by (simp add: unat_word_ariths)
    have fresh: "p \<notin> set (page_seq (p + PGSIZE) vend)"
      unfolding set_page_seq [OF al] by (simp add: word_le_nat_alt p')
    have inv: "kmem_inv (p # xs) ?s" by (rule kfree_inv [OF Suc.prems(2) p])
    have "\<exists>m f. freerange_loop n (p + PGSIZE) vend ?s = Ret () (?s\<lparr>mem := m, freelist := f\<rparr>) \<and>
      kmem_inv (rev (page_seq (p + PGSIZE) vend) @ p # xs) (?s\<lparr>mem := m, freelist := f\<rparr>)"
    proof (rule Suc.IH [OF _ inv al])
      show "kmem_lockable ?s" using Suc.prems(1) by simp
      show "unat (p + PGSIZE) + 4096 < 4294967296" using page_ok_bounds [OF p(1)] p' by simp
      show "\<forall>x \<in> set (page_seq (p + PGSIZE) vend). page_ok (kend ?s) x \<and> x \<notin> set (p # xs)"
        using Suc.prems(5) seq fresh by auto
      show "length (page_seq (p + PGSIZE) vend) < n" using Suc.prems(6) seq by simp
    qed
    moreover have "freerange_loop (Suc n) p vend s = freerange_loop n (p + PGSIZE) vend ?s"
      using True kfree_eq [OF Suc.prems(1) p(1)] by (simp add: kseq_eq)
    ultimately show ?thesis unfolding seq by simp
  qed
qed

lemma PGROUNDUP_spec:
  assumes "unat a + 4095 < 4294967296"
  shows "page_aligned (PGROUNDUP a)" "unat (PGROUNDUP a) = (unat a + 4095) div 4096 * 4096"
proof -
  have "unat (PGROUNDUP a) = unat (a + 4095) div 4096 * 4096"
    using unat_and_page_mask [of "a + 4095"] by (simp add: PGROUNDUP_def add.commute)
  moreover have "unat (a + 4095) = unat a + 4095" using assms by (simp add: unat_word_ariths)
  ultimately show "unat (PGROUNDUP a) = (unat a + 4095) div 4096 * 4096" by simp
  then show "page_aligned (PGROUNDUP a)" by (simp add: page_aligned_nat)
qed

lemma freerange_ok:
  assumes "kmem_lockable s" "kmem_inv xs s" "KERNBASE \<le> kend s" "kend s \<le> vstart" "vstart \<le> vend"
    and "vend \<le> p2v PHYSTOP" "\<forall>x \<in> set xs. unat x < unat vstart"
  shows "\<exists>m f ys. freerange vstart vend s = Ret () (s\<lparr>mem := m, freelist := f\<rparr>) \<and>
    kmem_inv ys (s\<lparr>mem := m, freelist := f\<rparr>) \<and>
    set ys = {x. page_aligned x \<and> vstart \<le> x \<and> unat x + 4096 \<le> unat vend} \<union> set xs"
proof -
  let ?p = "PGROUNDUP vstart"
  have ve: "unat vend \<le> 0x8E000000" using assms(6) by (simp add: p2v_def word_le_nat_alt)
  have vs: "0x80000000 \<le> unat vstart" "unat (kend s) \<le> unat vstart" "unat vstart \<le> unat vend"
    using assms(3-5) by (auto simp: word_le_nat_alt)
  have b: "unat vstart + 4095 < 4294967296" using ve vs by simp
  note al = PGROUNDUP_spec(1) [OF b]
  have pv: "unat vstart \<le> unat ?p" "unat ?p \<le> unat vstart + 4095"
    unfolding PGROUNDUP_spec(2) [OF b] by linarith+
  have round: "?p \<le> x \<longleftrightarrow> vstart \<le> x" if "page_aligned x" for x
  proof -
    from that obtain r where r: "unat x = 4096 * r" by (auto simp: page_aligned_nat)
    have "(unat vstart + 4095) div 4096 \<le> r \<longleftrightarrow> unat vstart \<le> 4096 * r"
      by auto
    then show ?thesis unfolding word_le_nat_alt PGROUNDUP_spec(2) [OF b] r by simp
  qed
  note seq = set_page_seq [OF al, of vend]
  have "\<exists>m f. freerange_loop (unat vend div 4096 + 1) ?p vend s = Ret () (s\<lparr>mem := m, freelist := f\<rparr>) \<and>
    kmem_inv (rev (page_seq ?p vend) @ xs) (s\<lparr>mem := m, freelist := f\<rparr>)"
  proof (rule freerange_loop_ok [OF assms(1,2) al])
    show "unat ?p + 4096 < 4294967296" using pv vs ve by simp
    show "length (page_seq ?p vend) < unat vend div 4096 + 1"
      unfolding page_seq_def using div_le_mono [of "unat vend - unat ?p" "unat vend" 4096] by simp
    show "\<forall>x \<in> set (page_seq ?p vend). page_ok (kend s) x \<and> x \<notin> set xs"
    proof
      fix x assume "x \<in> set (page_seq ?p vend)"
      then have x: "page_aligned x" "unat vstart \<le> unat x" "unat x + 4096 \<le> unat vend"
        using round seq by (auto simp: word_le_nat_alt)
      have "unat (v2p x) < 0xE000000" using x vs ve by (simp add: v2p_def unat_sub_if')
      then have "page_ok (kend s) x" using x vs by (simp add: page_ok_def word_le_nat_alt word_less_nat_alt)
      moreover have "x \<notin> set xs" using x assms(7) by auto
      ultimately show "page_ok (kend s) x \<and> x \<notin> set xs" ..
    qed
  qed
  then obtain m f where "freerange vstart vend s = Ret () (s\<lparr>mem := m, freelist := f\<rparr>)"
      "kmem_inv (rev (page_seq ?p vend) @ xs) (s\<lparr>mem := m, freelist := f\<rparr>)"
    unfolding freerange_def by blast
  moreover have "set (rev (page_seq ?p vend) @ xs) =
      {x. page_aligned x \<and> vstart \<le> x \<and> unat x + 4096 \<le> unat vend} \<union> set xs"
    using seq round by auto
  ultimately show ?thesis by blast
qed

lemma kinit_pages:
  assumes "freelist s = 0" "KERNBASE \<le> kend s" "kend s \<le> p2v 0x400000"
  shows "\<exists>m f ys ls. kseq (kinit1 (kend s) (p2v 0x400000)) (kinit2 (p2v 0x400000) (p2v PHYSTOP)) s =
      Ret () (s\<lparr>locks := ls, use_lock := True, mem := m, freelist := f\<rparr>) \<and>
    kmem_inv ys (s\<lparr>locks := ls, use_lock := True, mem := m, freelist := f\<rparr>) \<and>
    set ys = {x. page_aligned x \<and> kend s \<le> x \<and> unat x + 4096 \<le> unat (p2v PHYSTOP)}"
proof -
  define ls where "ls = (locks s)(L_kmem := \<lparr>locked = 0, lk_name = ''kmem'', lk_cpu = None\<rparr>)"
  let ?s = "s\<lparr>locks := ls, use_lock := False\<rparr>"
  have s: "kmem_lockable ?s" "kmem_inv [] ?s" using assms(1) by (simp_all add: kmem_lockable_def kmem_inv_def)
  have 4: "p2v 0x400000 \<le> p2v PHYSTOP" by (simp add: p2v_def)
  obtain m f ys where m: "freerange (kend s) (p2v 0x400000) ?s = Ret () (?s\<lparr>mem := m, freelist := f\<rparr>)"
      "kmem_inv ys (?s\<lparr>mem := m, freelist := f\<rparr>)"
      "set ys = {x. page_aligned x \<and> kend s \<le> x \<and> unat x + 4096 \<le> unat (p2v 0x400000)}"
    using freerange_ok [OF s, of "kend s" "p2v 0x400000"] assms(2,3) 4 by auto
  let ?t = "?s\<lparr>mem := m, freelist := f\<rparr>"
  have "\<exists>m f zs. freerange (p2v 0x400000) (p2v PHYSTOP) ?t = Ret () (?t\<lparr>mem := m, freelist := f\<rparr>) \<and>
      kmem_inv zs (?t\<lparr>mem := m, freelist := f\<rparr>) \<and>
      set zs = {x. page_aligned x \<and> p2v 0x400000 \<le> x \<and> unat x + 4096 \<le> unat (p2v PHYSTOP)} \<union> set ys"
    using assms(2,3) 4 m(3) by (intro freerange_ok [OF _ m(2)]) (auto simp: kmem_lockable_def)
  then obtain m' f' zs where t: "freerange (p2v 0x400000) (p2v PHYSTOP) ?t = Ret () (?t\<lparr>mem := m', freelist := f'\<rparr>)"
      "kmem_inv zs (?t\<lparr>mem := m', freelist := f'\<rparr>)"
      "set zs = {x. page_aligned x \<and> p2v 0x400000 \<le> x \<and> unat x + 4096 \<le> unat (p2v PHYSTOP)} \<union> set ys"
    by blast
  have "x \<in> {x. page_aligned x \<and> kend s \<le> x \<and> unat x + 4096 \<le> unat (p2v PHYSTOP)} \<longleftrightarrow> x \<in> set zs" for x
  proof (cases "page_aligned x")
    case True
    then obtain r where r: "unat x = 4096 * r" by (auto simp: page_aligned_nat)
    show ?thesis using True assms(3) unfolding t(3) m(3) by (auto simp: p2v_def word_le_nat_alt r)
  qed (simp add: t(3) m(3))
  moreover have "kmem_inv zs (s\<lparr>locks := ls, use_lock := True, mem := m', freelist := f'\<rparr>)"
    using t(2) by (simp add: kmem_inv_def)
  ultimately show ?thesis using m(1) t(1)
    by (intro exI [of _ m'] exI [of _ f'] exI [of _ zs] exI [of _ ls])
      (auto simp: kinit1_def kinit2_def initlock_def ls_def kop_simps)
qed

section \<open>Properties\<close>

text \<open>
  C20: Booting hands out the right memory: after \<^verbatim>\<open>kinit1(end, P2V(4MB))\<close> and
  \<^verbatim>\<open>kinit2(P2V(4MB), P2V(PHYSTOP))\<close>, as \<^verbatim>\<open>main\<close> calls them, neither of which panics or hangs, the free
  list is well formed and holds each whole page between the kernel's end and \<^verbatim>\<open>PHYSTOP\<close> exactly once.
\<close>

theorem boot_memory:
  assumes "freelist s = 0" "KERNBASE \<le> kend s" "kend s \<le> p2v 0x400000"
  shows "\<exists>t ys. kseq (kinit1 (kend s) (p2v 0x400000)) (kinit2 (p2v 0x400000) (p2v PHYSTOP)) s = Ret () t \<and>
    use_lock t \<and> kmem_inv ys t \<and>
    set ys = {x. page_aligned x \<and> kend s \<le> x \<and> unat x + 4096 \<le> unat (p2v PHYSTOP)}"
proof -
  obtain m f ys ls where r: "kseq (kinit1 (kend s) (p2v 0x400000)) (kinit2 (p2v 0x400000) (p2v PHYSTOP)) s =
      Ret () (s\<lparr>locks := ls, use_lock := True, mem := m, freelist := f\<rparr>)"
      "kmem_inv ys (s\<lparr>locks := ls, use_lock := True, mem := m, freelist := f\<rparr>)"
      "set ys = {x. page_aligned x \<and> kend s \<le> x \<and> unat x + 4096 \<le> unat (p2v PHYSTOP)}"
    using kinit_pages [OF assms] by blast
  then show ?thesis
    by (intro exI [of _ "s\<lparr>locks := ls, use_lock := True, mem := m, freelist := f\<rparr>"] exI [of _ ys]) simp
qed

definition boot_cpu :: cpu where
  "boot_cpu = \<lparr>ncli = 0, intena = False, fl_if = False, cproc = None\<rparr>"

definition kmem_example :: "u32 \<Rightarrow> kmem_state" where
  "kmem_example fl =
     \<lparr>mycpu = 0, cpus = (\<lambda>_. boot_cpu), locks = (\<lambda>_. \<lparr>locked = 0, lk_name = [], lk_cpu = None\<rparr>),
      ptable = [], nextpid = 1, initproc = None, mem = (\<lambda>_. 0), kend = 0x80108000,
      use_lock = (fl \<noteq> 0), freelist = fl\<rparr>"

theorem boot_memory_witness:
  "\<exists>t ys. kseq (kinit1 0x80108000 (p2v 0x400000)) (kinit2 (p2v 0x400000) (p2v PHYSTOP)) (kmem_example 0) = Ret () t \<and>
    use_lock t \<and> kmem_inv ys t \<and>
    set ys = {x. page_aligned x \<and> 0x80108000 \<le> x \<and> unat x + 4096 \<le> unat (p2v PHYSTOP)}"
  using boot_memory [of "kmem_example 0"] by (simp add: kmem_example_def p2v_def)

text \<open>
  C18: Any number of calls of \<^verbatim>\<open>kalloc\<close> hands out distinct pages that were free, none of them remains
  free, and a call fails only when no page is left: \<open>n\<close> calls give as many pages as there are, up to \<open>n\<close>.
\<close>

theorem kalloc_batch:
  assumes "kmem_ok s"
  shows "\<exists>ps t. page_allocator.alloc_n kalloc n s = Ret ps t \<and> distinct ps \<and> set ps \<subseteq> kfree_pages s \<and>
    kfree_pages t = kfree_pages s - set ps \<and> length ps = min n (card (kfree_pages s)) \<and> kmem_ok t"
  using kp.alloc_n_spec [OF assms, of n] by blast

lemma kmem_example_inv: "kmem_inv [0x80200000] (kmem_example 0x80200000)"
  by (simp add: kmem_inv_def kmem_example_def page_ok_def page_aligned_def v2p_def load32_def un_le32_def)

lemma kmem_example_ok: "kmem_ok (kmem_example 0x80200000)"
proof -
  have "kmem_lockable (kmem_example 0x80200000)"
    by (simp add: kmem_lockable_def kmem_example_def lockable_def boot_cpu_def)
  then show ?thesis unfolding kmem_ok_def using kmem_example_inv by blast
qed

theorem kalloc_batch_witness:
  "\<exists>ps t. page_allocator.alloc_n kalloc 3 (kmem_example 0x80200000) = Ret ps t \<and> set ps \<subseteq> {0x80200000} \<and>
    length ps = 1"
  using kalloc_batch [OF kmem_example_ok, of 3] kfree_pages_eq [OF kmem_example_inv] by auto

text \<open>
  C19: Freeing a page in use and allocating again gives that page back and leaves the allocator as it
  was; what \<^verbatim>\<open>kfree\<close> is not meant to free (an unaligned address, the kernel itself, memory above
  \<^verbatim>\<open>PHYSTOP\<close>) it refuses with a panic.
\<close>

theorem kfree_kalloc_roundtrip:
  assumes "kmem_ok s" "p \<notin> kfree_pages s"
  shows "if page_ok (kend s) p
    then \<exists>t u. kfree p s = Ret () t \<and> kalloc t = Ret p u \<and> kfree_pages u = kfree_pages s \<and> kmem_ok u
    else kfree p s = Panic ''kfree''"
proof (cases "page_ok (kend s) p")
  case True
  from assms(1) obtain xs where s: "kmem_lockable s" "kmem_inv xs s" by (auto simp: kmem_ok_def)
  let ?t = "s\<lparr>mem := store32 p (freelist s) (memset p 1 PGSIZE (mem s)), freelist := p\<rparr>"
  let ?u = "?t\<lparr>freelist := load32 (mem ?t) p\<rparr>"
  have t: "kmem_lockable ?t" "kmem_inv (p # xs) ?t"
    using s kfree_inv [OF s(2) True] assms(2) kfree_pages_eq [OF s(2)] by simp_all
  have u: "kmem_inv xs ?u" using kalloc_inv [OF t(2)] .
  have "kfree p s = Ret () ?t" by (rule kfree_eq [OF s(1) True])
  moreover have "kalloc ?t = Ret p ?u" using kalloc_step [OF t] by simp
  moreover have "kfree_pages ?u = kfree_pages s" using kfree_pages_eq [OF u] kfree_pages_eq [OF s(2)] by simp
  moreover have "kmem_ok ?u" using u s(1) unfolding kmem_ok_def by auto
  ultimately show ?thesis using True by auto
qed (simp add: kfree_bad)

theorem kfree_kalloc_roundtrip_witness:
  "\<exists>t u. kfree 0x80300000 (kmem_example 0x80200000) = Ret () t \<and> kalloc t = Ret 0x80300000 u \<and>
    kfree_pages u = {0x80200000}"
proof -
  have "0x80300000 \<notin> kfree_pages (kmem_example 0x80200000)" using kfree_pages_eq [OF kmem_example_inv] by simp
  moreover have "page_ok (kend (kmem_example 0x80200000)) 0x80300000"
    by (simp add: kmem_example_def page_ok_def page_aligned_def v2p_def)
  ultimately show ?thesis
    using kfree_kalloc_roundtrip [of "kmem_example 0x80200000" "0x80300000"] kmem_example_ok
      kfree_pages_eq [OF kmem_example_inv] by auto
qed

end
