(* ===== verification/Bio.thy ===== *)
theory Bio
  imports Kalloc
begin

text \<open>
  The buffer cache (\<^verbatim>\<open>bio.c\<close>, \<^verbatim>\<open>buf.h\<close>) over the memory disk (\<^verbatim>\<open>memide.c\<close>): \<^verbatim>\<open>binit\<close>, \<^verbatim>\<open>bget\<close>,
  \<^verbatim>\<open>bread\<close>, \<^verbatim>\<open>bwrite\<close>, \<^verbatim>\<open>brelse\<close>, \<^verbatim>\<open>iderw\<close>. Buffers are named by their index in \<^verbatim>\<open>bcache.buf\<close>, the
  list head \<^verbatim>\<open>bcache.head\<close> by the index \<open>NBUF\<close>; the bits of \<^verbatim>\<open>flags\<close> are three booleans. The cache's
  doubly linked list is shown to be a list in order of most recent use, and the cache with the disk to
  be a store of blocks.
\<close>

section \<open>State\<close>

record buf =
  b_busy :: bool
  b_valid :: bool
  b_dirty :: bool
  b_dev :: u32
  b_sector :: u32
  b_prev :: nat
  b_next :: nat
  b_data :: "u8 list"

record bio_state = kmem_state +
  bcache :: "nat \<Rightarrow> buf"
  memdisk :: "u8 list"
  disksize :: u32

lemma hw_frame_bcache [simp]:
  "acq lk (s\<lparr>bcache := x\<rparr>) = (acq lk s)\<lparr>bcache := x\<rparr>" "bcache (acq lk s) = bcache s"
  "lockable lk (s\<lparr>bcache := x\<rparr>) = lockable lk s" "holding lk (s\<lparr>bcache := x\<rparr>) = holding lk s"
  by (simp_all add: acq_def lockable_def holding_def)

lemma hw_frame_memdisk [simp]:
  "acq lk (s\<lparr>memdisk := x\<rparr>) = (acq lk s)\<lparr>memdisk := x\<rparr>" "memdisk (acq lk s) = memdisk s"
  "lockable lk (s\<lparr>memdisk := x\<rparr>) = lockable lk s" "disksize (acq lk s) = disksize s"
  by (simp_all add: acq_def lockable_def)

lemma release_frame_bcache [simp]:
  "lockable lk s \<Longrightarrow> release lk ((acq lk s)\<lparr>bcache := x\<rparr>) = Ret () (s\<lparr>bcache := x\<rparr>)"
  "lockable lk s \<Longrightarrow> release lk ((acq lk s)\<lparr>bcache := x, ptable := p\<rparr>) = Ret () (s\<lparr>bcache := x, ptable := p\<rparr>)"
  using release_acq [of lk "s\<lparr>bcache := x\<rparr>"] release_acq [of lk "s\<lparr>bcache := x, ptable := p\<rparr>"] by simp_all

definition upd_buf :: "nat \<Rightarrow> (buf \<Rightarrow> buf) \<Rightarrow> ('a bio_state_scheme, unit) kop" where
  "upd_buf b f = kmod (\<lambda>s. s\<lparr>bcache := (bcache s)(b := f (bcache s b))\<rparr>)"

section \<open>The memory disk\<close>

definition ideinit :: "u8 list \<Rightarrow> ('a bio_state_scheme, unit) kop" where
  "ideinit img = kmod (\<lambda>s. s\<lparr>memdisk := img, disksize := of_nat (length img) div 512\<rparr>)"

definition ideintr :: "('a bio_state_scheme, unit) kop" where
  "ideintr = kret ()"

definition iderw :: "nat \<Rightarrow> ('a bio_state_scheme, unit) kop" where
  "iderw b s = (let x = bcache s b; p = unat (b_sector x) * 512 in
     if \<not> b_busy x then Panic ''iderw: buf not busy''
     else if b_valid x \<and> \<not> b_dirty x then Panic ''iderw: nothing to do''
     else if b_dev x \<noteq> 1 then Panic ''iderw: request not for disk 1''
     else if b_sector x \<ge> disksize s then Panic ''iderw: sector out of range''
     else if b_dirty x then
       Ret () (s\<lparr>memdisk := splice p (b_data x) (memdisk s),
                 bcache := (bcache s)(b := x\<lparr>b_dirty := False, b_valid := True\<rparr>)\<rparr>)
     else
       Ret () (s\<lparr>bcache := (bcache s)(b := x\<lparr>b_data := slice p 512 (memdisk s), b_valid := True\<rparr>)\<rparr>))"

section \<open>The cache\<close>

text \<open>
  The pointer assignments of \<^verbatim>\<open>binit\<close> and \<^verbatim>\<open>brelse\<close>: \<^verbatim>\<open>b->next->prev = b->prev\<close>;
  \<^verbatim>\<open>b->prev->next = b->next\<close>; \<^verbatim>\<open>b->next = h->next\<close>; and the pair \<^verbatim>\<open>head.next->prev = b\<close>,
  \<^verbatim>\<open>head.next = b\<close>.
\<close>

definition unlink_prev :: "nat \<Rightarrow> ('a bio_state_scheme, unit) kop" where
  "unlink_prev b = kbind (kget (\<lambda>s. bcache s b)) (\<lambda>x. upd_buf (b_next x) (\<lambda>y. y\<lparr>b_prev := b_prev x\<rparr>))"

definition unlink_next :: "nat \<Rightarrow> ('a bio_state_scheme, unit) kop" where
  "unlink_next b = kbind (kget (\<lambda>s. bcache s b)) (\<lambda>x. upd_buf (b_prev x) (\<lambda>y. y\<lparr>b_next := b_next x\<rparr>))"

definition link_next :: "nat \<Rightarrow> nat \<Rightarrow> ('a bio_state_scheme, unit) kop" where
  "link_next b h = kbind (kget (\<lambda>s. bcache s h)) (\<lambda>x. upd_buf b (\<lambda>y. y\<lparr>b_next := b_next x\<rparr>))"

definition push_front :: "nat \<Rightarrow> ('a bio_state_scheme, unit) kop" where
  "push_front b = kseq (kbind (kget (\<lambda>s. bcache s NBUF)) (\<lambda>h. upd_buf (b_next h) (\<lambda>y. y\<lparr>b_prev := b\<rparr>)))
     (upd_buf NBUF (\<lambda>h. h\<lparr>b_next := b\<rparr>))"

text \<open>The body of the loop of \<^verbatim>\<open>binit\<close>.\<close>

definition binit_link :: "nat \<Rightarrow> ('a bio_state_scheme, unit) kop" where
  "binit_link b = kseq (link_next b NBUF)
     (kseq (upd_buf b (\<lambda>x. x\<lparr>b_prev := NBUF\<rparr>))
     (kseq (upd_buf b (\<lambda>x. x\<lparr>b_dev := - 1\<rparr>)) (push_front b)))"

definition binit :: "('a bio_state_scheme, unit) kop" where
  "binit = kseq (initlock L_bcache ''bcache'')
     (kseq (upd_buf NBUF (\<lambda>h. h\<lparr>b_prev := NBUF\<rparr>))
     (kseq (upd_buf NBUF (\<lambda>h. h\<lparr>b_next := NBUF\<rparr>))
     (kforeach [0..<NBUF] binit_link)))"

text \<open>
  A walk along the list from \<open>b\<close> to the head, for the first buffer with a property. The first argument
  bounds its length; the list of a well-formed cache is shorter (\<open>walk_next\<close>, \<open>walk_prev\<close>).
\<close>

fun walk :: "nat \<Rightarrow> (buf \<Rightarrow> nat) \<Rightarrow> (buf \<Rightarrow> bool) \<Rightarrow> nat \<Rightarrow> (nat \<Rightarrow> buf) \<Rightarrow> nat option option" where
  "walk 0 nx P b bs = None"
| "walk (Suc k) nx P b bs =
     (if b = NBUF then Some None else if P (bs b) then Some (Some b) else walk k nx P (nx (bs b)) bs)"

text \<open>\<^verbatim>\<open>bget\<close> from its label \<^verbatim>\<open>loop\<close> on, with the cache's lock held.\<close>

definition bget_loop :: "u32 \<Rightarrow> u32 \<Rightarrow> ('a bio_state_scheme, nat) kop" where
  "bget_loop dev sector s =
     (case walk (NBUF + 1) b_next (\<lambda>x. b_dev x = dev \<and> b_sector x = sector) (b_next (bcache s NBUF)) (bcache s) of
        None \<Rightarrow> Hang
      | Some (Some b) \<Rightarrow>
          if \<not> b_busy (bcache s b) then
            kseq (upd_buf b (\<lambda>x. x\<lparr>b_busy := True\<rparr>)) (kseq (release L_bcache) (kret b)) s
          else sleep_retry (Ch_buf b) L_bcache s
      | Some None \<Rightarrow>
          (case walk (NBUF + 1) b_prev (\<lambda>x. \<not> b_busy x \<and> \<not> b_dirty x) (b_prev (bcache s NBUF)) (bcache s) of
             None \<Rightarrow> Hang
           | Some (Some b) \<Rightarrow>
               kseq (upd_buf b (\<lambda>x. x\<lparr>b_dev := dev, b_sector := sector, b_busy := True, b_valid := False, b_dirty := False\<rparr>))
                 (kseq (release L_bcache) (kret b)) s
           | Some None \<Rightarrow> Panic ''bget: no buffers''))"

definition bget :: "u32 \<Rightarrow> u32 \<Rightarrow> ('a bio_state_scheme, nat) kop" where
  "bget dev sector = kseq (acquire L_bcache) (bget_loop dev sector)"

text \<open>After the sleep on a busy buffer, the search starts over.\<close>

definition bget_resume :: "bool \<Rightarrow> u32 \<Rightarrow> u32 \<Rightarrow> ('a bio_state_scheme, nat) kop" where
  "bget_resume ie dev sector = kseq (sleep_resume ie L_bcache) (bget_loop dev sector)"

definition bread :: "u32 \<Rightarrow> u32 \<Rightarrow> ('a bio_state_scheme, nat) kop" where
  "bread dev sector = kbind (bget dev sector) (\<lambda>b.
     kbind (kget (\<lambda>s. b_valid (bcache s b))) (\<lambda>v.
     kseq (if \<not> v then iderw b else kret ()) (kret b)))"

definition bwrite :: "nat \<Rightarrow> ('a bio_state_scheme, unit) kop" where
  "bwrite b = kseq (kassert (\<lambda>s. b_busy (bcache s b)) ''bwrite'')
     (kseq (upd_buf b (\<lambda>x. x\<lparr>b_dirty := True\<rparr>)) (iderw b))"

definition brelse :: "nat \<Rightarrow> ('a bio_state_scheme, unit) kop" where
  "brelse b = kseq (kassert (\<lambda>s. b_busy (bcache s b)) ''brelse'')
     (kseq (acquire L_bcache)
     (kseq (unlink_prev b)
     (kseq (unlink_next b)
     (kseq (link_next b NBUF)
     (kseq (upd_buf b (\<lambda>x. x\<lparr>b_prev := NBUF\<rparr>))
     (kseq (push_front b)
     (kseq (upd_buf b (\<lambda>x. x\<lparr>b_busy := False\<rparr>))
     (kseq (wakeup (Ch_buf b)) (release L_bcache)))))))))"

section \<open>The list of buffers\<close>

text \<open>
  \<open>chain nx pv p xs q\<close>: following \<open>nx\<close> from \<open>p\<close> visits \<open>xs\<close> and then \<open>q\<close>, and \<open>pv\<close> leads back.
\<close>

fun chain :: "(nat \<Rightarrow> nat) \<Rightarrow> (nat \<Rightarrow> nat) \<Rightarrow> nat \<Rightarrow> nat list \<Rightarrow> nat \<Rightarrow> bool" where
  "chain nx pv p [] q \<longleftrightarrow> nx p = q \<and> pv q = p"
| "chain nx pv p (x # xs) q \<longleftrightarrow> nx p = x \<and> pv x = p \<and> chain nx pv x xs q"

lemma chain_append: "chain nx pv p (us @ x # vs) q \<longleftrightarrow> chain nx pv p us x \<and> chain nx pv x vs q"
  by (induction us arbitrary: p) auto

lemma chain_rev: "chain nx pv p xs q \<longleftrightarrow> chain pv nx q (rev xs) p"
  by (induction xs arbitrary: p) (auto simp: chain_append)

lemma chain_cong:
  "chain nx pv p xs q \<Longrightarrow> (\<And>x. x \<in> set (p # xs) \<Longrightarrow> nx' x = nx x) \<Longrightarrow> (\<And>x. x \<in> set (xs @ [q]) \<Longrightarrow> pv' x = pv x)
     \<Longrightarrow> chain nx' pv' p xs q"
  by (induction xs arbitrary: p) auto

lemma chain_ends: "chain nx pv p xs q \<Longrightarrow> nx p = hd (xs @ [q]) \<and> pv q = last (p # xs)"
  by (induction xs arbitrary: p) auto

text \<open>Taking an element out and putting it in front.\<close>

lemma chain_join:
  "chain nx pv p us b \<Longrightarrow> chain nx pv b vs q \<Longrightarrow> distinct (p # us @ b # vs) \<Longrightarrow> q \<notin> set (us @ b # vs) \<Longrightarrow>
     chain (nx(pv b := nx b)) (pv(nx b := pv b)) p (us @ vs) q"
proof (induction us arbitrary: p)
  case Nil
  then show ?case by (cases vs) (auto intro!: chain_cong [of nx pv _ _ q])
next
  case (Cons u us)
  have "pv b \<in> set (u # us)" using Cons.prems(1) chain_ends by fastforce
  then have "pv b \<noteq> p" using Cons.prems(3) by auto
  moreover have "nx b \<in> set (vs @ [q])" using Cons.prems(2) chain_ends by (cases vs) fastforce+
  then have "nx b \<noteq> u" using Cons.prems(3,4) by auto
  ultimately show ?case using Cons by auto
qed

lemma chain_push:
  assumes "chain nx pv h ys h" "distinct (h # ys)" "b \<notin> set (h # ys)"
  shows "chain (nx(b := nx h, h := b)) (pv(b := h, nx h := b)) h (b # ys) h"
proof (cases ys)
  case Nil
  then have "nx h = h" using assms(1) by simp
  then show ?thesis using assms(3) Nil by simp
next
  case (Cons y zs)
  have *: "nx h = y" "pv y = h" "chain nx pv y zs h" using assms(1) Cons by simp_all
  have "chain (nx(b := nx h, h := b)) (pv(b := h, nx h := b)) y zs h"
  proof (rule chain_cong [OF *(3)])
    show "(nx(b := nx h, h := b)) x = nx x" if "x \<in> set (y # zs)" for x
      using that assms(2,3) Cons by auto
    show "(pv(b := h, nx h := b)) x = pv x" if "x \<in> set (zs @ [h])" for x
      using that assms(2,3) Cons *(1) by auto
  qed
  moreover have "h \<noteq> y" "b \<noteq> y" "b \<noteq> h" using assms(2,3) Cons by auto
  ultimately show ?thesis unfolding Cons *(1) by simp
qed

text \<open>The cache's list, most recently used first.\<close>

definition mru :: "(nat \<Rightarrow> buf) \<Rightarrow> nat list \<Rightarrow> bool" where
  "mru bs xs \<longleftrightarrow> chain (\<lambda>i. b_next (bs i)) (\<lambda>i. b_prev (bs i)) NBUF xs NBUF \<and> distinct xs \<and> set xs = {0..<NBUF}"

lemma walk_chain:
  "chain (\<lambda>i. nx (bs i)) pv p xs NBUF \<Longrightarrow> NBUF \<notin> set xs \<Longrightarrow> length xs < k \<Longrightarrow>
     walk k nx P (nx (bs p)) bs = Some (find (\<lambda>i. P (bs i)) xs)"
proof (induction xs arbitrary: p k)
  case Nil
  then show ?case by (cases k) auto
next
  case (Cons x xs)
  then obtain k' where "k = Suc k'" by (cases k) auto
  with Cons.prems Cons.IH [of x k'] show ?case by auto
qed

lemma mru_length: "mru bs xs \<Longrightarrow> length xs = NBUF"
  using distinct_card [of xs] by (simp add: mru_def)

lemma walk_next: "mru bs xs \<Longrightarrow> walk (NBUF + 1) b_next P (b_next (bs NBUF)) bs = Some (find (\<lambda>i. P (bs i)) xs)"
  using mru_length [of bs xs] by (intro walk_chain) (auto simp: mru_def)

lemma walk_prev: "mru bs xs \<Longrightarrow> walk (NBUF + 1) b_prev P (b_prev (bs NBUF)) bs = Some (find (\<lambda>i. P (bs i)) (rev xs))"
proof -
  assume m: "mru bs xs"
  then have "chain (\<lambda>i. b_prev (bs i)) (\<lambda>i. b_next (bs i)) NBUF (rev xs) NBUF"
    by (simp add: mru_def chain_rev [of _ _ _ "rev xs"])
  then show ?thesis using m mru_length [OF m] by (intro walk_chain) (auto simp: mru_def)
qed

text \<open>What the pointer assignments of \<^verbatim>\<open>brelse\<close> and the rest of its work make of the cache.\<close>

definition b_set_next :: "nat \<Rightarrow> nat \<Rightarrow> (nat \<Rightarrow> buf) \<Rightarrow> nat \<Rightarrow> buf" where
  "b_set_next i v bs = bs(i := (bs i)\<lparr>b_next := v\<rparr>)"

definition b_set_prev :: "nat \<Rightarrow> nat \<Rightarrow> (nat \<Rightarrow> buf) \<Rightarrow> nat \<Rightarrow> buf" where
  "b_set_prev i v bs = bs(i := (bs i)\<lparr>b_prev := v\<rparr>)"

lemma b_set_next_links [simp]:
  "(\<lambda>j. b_next (b_set_next i v bs j)) = (\<lambda>j. b_next (bs j))(i := v)"
  "(\<lambda>j. b_prev (b_set_next i v bs j)) = (\<lambda>j. b_prev (bs j))"
  by (auto simp: b_set_next_def)

lemma b_set_prev_links [simp]:
  "(\<lambda>j. b_prev (b_set_prev i v bs j)) = (\<lambda>j. b_prev (bs j))(i := v)"
  "(\<lambda>j. b_next (b_set_prev i v bs j)) = (\<lambda>j. b_next (bs j))"
  by (auto simp: b_set_prev_def)

lemma b_set_links_at [simp]:
  "b_next (b_set_next i v bs j) = (if j = i then v else b_next (bs j))"
  "b_prev (b_set_next i v bs j) = b_prev (bs j)"
  "b_prev (b_set_prev i v bs j) = (if j = i then v else b_prev (bs j))"
  "b_next (b_set_prev i v bs j) = b_next (bs j)"
  by (simp_all add: b_set_prev_def b_set_next_def)

lemma b_set_fields [simp]:
  "b_busy (b_set_next i v bs j) = b_busy (bs j)" "b_busy (b_set_prev i v bs j) = b_busy (bs j)"
  "b_valid (b_set_next i v bs j) = b_valid (bs j)" "b_valid (b_set_prev i v bs j) = b_valid (bs j)"
  "b_dirty (b_set_next i v bs j) = b_dirty (bs j)" "b_dirty (b_set_prev i v bs j) = b_dirty (bs j)"
  "b_dev (b_set_next i v bs j) = b_dev (bs j)" "b_dev (b_set_prev i v bs j) = b_dev (bs j)"
  "b_sector (b_set_next i v bs j) = b_sector (bs j)" "b_sector (b_set_prev i v bs j) = b_sector (bs j)"
  "b_data (b_set_next i v bs j) = b_data (bs j)" "b_data (b_set_prev i v bs j) = b_data (bs j)"
  by (simp_all add: b_set_prev_def b_set_next_def)

definition relink :: "nat \<Rightarrow> (nat \<Rightarrow> buf) \<Rightarrow> nat \<Rightarrow> buf" where
  "relink b bs =
     (let bs1 = b_set_prev (b_next (bs b)) (b_prev (bs b)) bs;
          bs2 = b_set_next (b_prev (bs1 b)) (b_next (bs1 b)) bs1;
          bs3 = b_set_prev b NBUF (b_set_next b (b_next (bs2 NBUF)) bs2)
      in b_set_next NBUF b (b_set_prev (b_next (bs3 NBUF)) b bs3))"

lemma relink_mru:
  assumes "mru bs xs" "b < NBUF"
  shows "mru (relink b bs) (b # remove1 b xs)"
proof -
  let ?nx = "\<lambda>i. b_next (bs i)" and ?pv = "\<lambda>i. b_prev (bs i)"
  have m: "chain ?nx ?pv NBUF xs NBUF" "distinct xs" "set xs = {0..<NBUF}" using assms(1) by (simp_all add: mru_def)
  then have "b \<in> set xs" using assms(2) by simp
  then obtain us vs where xs: "xs = us @ b # vs" by (auto dest: split_list)
  have c: "chain ?nx ?pv NBUF us b" "chain ?nx ?pv b vs NBUF" using m(1) unfolding xs chain_append by simp_all
  have d: "distinct (NBUF # us @ b # vs)" "NBUF \<notin> set (us @ b # vs)" using m(2,3) xs by auto
  note j = chain_join [OF c d]
  have pb: "?pv b \<noteq> b" "?nx b \<noteq> b"
    using chain_ends [OF c(1)] chain_ends [OF c(2)] d(1) by (cases us rule: rev_cases; cases vs; auto)+
  let ?n1 = "?nx(?pv b := ?nx b)" and ?p1 = "?pv(?nx b := ?pv b)"
  have p: "chain (?n1(b := ?n1 NBUF, NBUF := b)) (?p1(b := NBUF, ?n1 NBUF := b)) NBUF (b # us @ vs) NBUF"
    using d by (intro chain_push [OF j]) auto
  have bN: "b \<noteq> NBUF" using assms(2) by simp
  have "(\<lambda>i. b_next (relink b bs i)) = ?n1(b := ?n1 NBUF, NBUF := b)"
       "(\<lambda>i. b_prev (relink b bs i)) = ?p1(b := NBUF, ?n1 NBUF := b)"
    using pb bN by (auto simp: relink_def Let_def fun_eq_iff)
  moreover have "remove1 b xs = us @ vs" using d(1) xs by (simp add: remove1_append)
  ultimately show ?thesis using p d(1) m(3) xs by (auto simp: mru_def)
qed

section \<open>The cache as a store of blocks\<close>

definition disk_block :: "u8 list \<Rightarrow> u32 \<Rightarrow> u8 list" where
  "disk_block dsk n = slice (unat n * 512) 512 dsk"

text \<open>
  The invariant. Of a buffer: a valid one holds a block of the disk, and one that is valid and clean and
  at rest agrees with the disk. Of the cache: no block has two buffers.
\<close>

definition buf_ok :: "u8 list \<Rightarrow> u32 \<Rightarrow> buf \<Rightarrow> bool" where
  "buf_ok dsk dsz x \<longleftrightarrow> length (b_data x) = 512 \<and> (b_valid x \<longrightarrow> b_dev x = 1 \<and> b_sector x < dsz) \<and>
     (b_dirty x \<longrightarrow> b_valid x) \<and>
     (b_valid x \<longrightarrow> \<not> b_dirty x \<longrightarrow> \<not> b_busy x \<longrightarrow> b_data x = disk_block dsk (b_sector x))"

definition cache_ok :: "u8 list \<Rightarrow> u32 \<Rightarrow> (nat \<Rightarrow> buf) \<Rightarrow> bool" where
  "cache_ok dsk dsz bs \<longleftrightarrow> unat dsz * 512 \<le> length dsk \<and> (\<forall>i < NBUF. buf_ok dsk dsz (bs i)) \<and>
     (\<forall>i < NBUF. \<forall>j < NBUF. b_dev (bs i) = 1 \<longrightarrow> b_dev (bs j) = 1 \<longrightarrow> b_sector (bs i) = b_sector (bs j) \<longrightarrow> i = j)"

text \<open>The contents of block \<open>n\<close> as the kernel sees it: the cached copy if there is one.\<close>

definition bview :: "u8 list \<Rightarrow> (nat \<Rightarrow> buf) \<Rightarrow> u32 \<Rightarrow> u8 list" where
  "bview dsk bs n =
     (case find (\<lambda>i. b_valid (bs i) \<and> b_sector (bs i) = n) [0..<NBUF] of
        Some i \<Rightarrow> b_data (bs i) | None \<Rightarrow> disk_block dsk n)"

definition dirty_blocks :: "(nat \<Rightarrow> buf) \<Rightarrow> u32 set" where
  "dirty_blocks bs = {n. \<exists>i < NBUF. b_dirty (bs i) \<and> b_sector (bs i) = n}"

definition held :: "(nat \<Rightarrow> buf) \<Rightarrow> nat \<Rightarrow> u32 option" where
  "held bs i = (if i < NBUF \<and> b_busy (bs i) then Some (b_sector (bs i)) else None)"

text \<open>
  \<open>bc s0 V D H s\<close>: state \<open>s\<close> is \<open>s0\<close> up to the cache and woken processes, with no spin lock held, and
  its cache shows the blocks \<open>V\<close>, of which \<open>D\<close> are still to be written; the buffers held are \<open>H\<close>.
\<close>

definition bc :: "'a bio_state_scheme \<Rightarrow> (u32 \<Rightarrow> u8 list) \<Rightarrow> u32 set \<Rightarrow> (nat \<Rightarrow> u32 option) \<Rightarrow> 'a bio_state_scheme \<Rightarrow> bool" where
  "bc s0 V D H s \<longleftrightarrow>
     s = s0\<lparr>bcache := bcache s, ptable := ptable s\<rparr> \<and> wakes (ptable s0) (ptable s) \<and> (\<forall>lk. lockable lk s) \<and>
     (\<exists>xs. mru (bcache s) xs) \<and> cache_ok (memdisk s0) (disksize s0) (bcache s) \<and>
     (\<forall>n < disksize s0. bview (memdisk s0) (bcache s) n = V n) \<and>
     dirty_blocks (bcache s) = D \<and> held (bcache s) = H \<and>
     (\<forall>i < NBUF. b_busy (bcache s i) \<longrightarrow> b_valid (bcache s i))"

lemma find_unique:
  assumes "i < k" "P i" "\<And>j. j < k \<Longrightarrow> P j \<Longrightarrow> j = i"
  shows "find P [0..<k] = Some i"
proof -
  have "find P [0..<k] \<noteq> None" using assms(1,2) by (auto simp: find_None_iff)
  then obtain j where j: "find P [0..<k] = Some j" by auto
  then have "j < k \<and> P j" by (auto simp: find_Some_iff)
  with assms(3) j show ?thesis by auto
qed

lemma cache_okD:
  assumes "cache_ok dsk dsz bs" "i < NBUF"
  shows "length (b_data (bs i)) = 512" "b_valid (bs i) \<Longrightarrow> b_dev (bs i) = 1 \<and> b_sector (bs i) < dsz"
    "b_dirty (bs i) \<Longrightarrow> b_valid (bs i)"
    "b_valid (bs i) \<Longrightarrow> \<not> b_dirty (bs i) \<Longrightarrow> \<not> b_busy (bs i) \<Longrightarrow> b_data (bs i) = disk_block dsk (b_sector (bs i))"
  using assms by (simp_all add: cache_ok_def buf_ok_def)

lemma cache_ok_inj:
  "cache_ok dsk dsz bs \<Longrightarrow> i < NBUF \<Longrightarrow> j < NBUF \<Longrightarrow> b_dev (bs i) = 1 \<Longrightarrow> b_dev (bs j) = 1 \<Longrightarrow>
     b_sector (bs i) = b_sector (bs j) \<Longrightarrow> i = j"
  unfolding cache_ok_def by blast

lemma bview_cached:
  assumes "cache_ok dsk dsz bs" "i < NBUF" "b_valid (bs i)" "b_sector (bs i) = n"
  shows "bview dsk bs n = b_data (bs i)"
proof -
  have "find (\<lambda>j. b_valid (bs j) \<and> b_sector (bs j) = n) [0..<NBUF] = Some i"
  proof (rule find_unique)
    show "j = i" if "j < NBUF" "b_valid (bs j) \<and> b_sector (bs j) = n" for j
      using that assms cache_okD(2) [OF assms(1)] by (intro cache_ok_inj [OF assms(1)]) auto
  qed (use assms in auto)
  then show ?thesis by (simp add: bview_def)
qed

lemma bview_uncached:
  assumes "\<And>i. i < NBUF \<Longrightarrow> b_valid (bs i) \<Longrightarrow> b_sector (bs i) \<noteq> n"
  shows "bview dsk bs n = disk_block dsk n"
proof -
  have "find (\<lambda>j. b_valid (bs j) \<and> b_sector (bs j) = n) [0..<NBUF] = None"
    using assms by (auto simp: find_None_iff)
  then show ?thesis by (simp add: bview_def)
qed

lemma length_disk_block: "cache_ok dsk dsz bs \<Longrightarrow> n < dsz \<Longrightarrow> length (disk_block dsk n) = 512"
  by (auto simp: cache_ok_def disk_block_def word_less_nat_alt)

lemma cache_ok_upd:
  assumes "cache_ok dsk dsz bs" "buf_ok dsk dsz x"
    and "\<And>j. b_dev x = 1 \<Longrightarrow> j < NBUF \<Longrightarrow> j \<noteq> b \<Longrightarrow> b_dev (bs j) = 1 \<Longrightarrow> b_sector (bs j) \<noteq> b_sector x"
  shows "cache_ok dsk dsz (bs(b := x))"
  using assms unfolding cache_ok_def by (auto split: if_splits) metis+

text \<open>Changing one buffer changes the view of the block it held and of the block it now holds.\<close>

lemma bview_upd:
  assumes "cache_ok dsk dsz bs" "cache_ok dsk dsz (bs(b := x))" "b < NBUF"
  shows "bview dsk (bs(b := x)) n =
    (if b_valid x \<and> b_sector x = n then b_data x
     else if b_valid (bs b) \<and> b_sector (bs b) = n then disk_block dsk n else bview dsk bs n)"
proof -
  consider "b_valid x \<and> b_sector x = n"
    | "\<not> (b_valid x \<and> b_sector x = n)" "\<exists>i < NBUF. i \<noteq> b \<and> b_valid (bs i) \<and> b_sector (bs i) = n"
    | "\<not> (b_valid x \<and> b_sector x = n)" "\<not> (\<exists>i < NBUF. i \<noteq> b \<and> b_valid (bs i) \<and> b_sector (bs i) = n)"
    by blast
  then show ?thesis
  proof cases
    case 1
    then show ?thesis using bview_cached [OF assms(2,3)] by simp
  next
    case 2
    then obtain i where i: "i < NBUF" "i \<noteq> b" "b_valid (bs i)" "b_sector (bs i) = n" by blast
    have "bview dsk (bs(b := x)) n = b_data (bs i)" using bview_cached [OF assms(2) i(1)] i by simp
    moreover have "bview dsk bs n = b_data (bs i)" using bview_cached [OF assms(1) i(1)] i by simp
    moreover have "\<not> (b_valid (bs b) \<and> b_sector (bs b) = n)"
      using i assms(3) cache_okD(2) [OF assms(1)] cache_ok_inj [OF assms(1), of i b] by auto
    ultimately show ?thesis using 2(1) by auto
  next
    case 3
    then have "bview dsk (bs(b := x)) n = disk_block dsk n" by (intro bview_uncached) auto
    moreover have "bview dsk bs n = disk_block dsk n" if "\<not> (b_valid (bs b) \<and> b_sector (bs b) = n)"
      using 3(2) that by (intro bview_uncached) metis
    ultimately show ?thesis using 3(1) by auto
  qed
qed

text \<open>Links do not matter to the store.\<close>

definition same_bufs :: "(nat \<Rightarrow> buf) \<Rightarrow> (nat \<Rightarrow> buf) \<Rightarrow> bool" where
  "same_bufs bs bs' \<longleftrightarrow> (\<forall>i. b_busy (bs' i) = b_busy (bs i) \<and> b_valid (bs' i) = b_valid (bs i) \<and>
     b_dirty (bs' i) = b_dirty (bs i) \<and> b_dev (bs' i) = b_dev (bs i) \<and> b_sector (bs' i) = b_sector (bs i) \<and>
     b_data (bs' i) = b_data (bs i))"

lemma same_bufs_fields:
  assumes "same_bufs bs bs'"
  shows "b_busy (bs' i) = b_busy (bs i)" "b_valid (bs' i) = b_valid (bs i)" "b_dirty (bs' i) = b_dirty (bs i)"
    "b_dev (bs' i) = b_dev (bs i)" "b_sector (bs' i) = b_sector (bs i)" "b_data (bs' i) = b_data (bs i)"
  using assms by (simp_all add: same_bufs_def)

lemma same_bufs_store:
  assumes "same_bufs bs bs'"
  shows "cache_ok dsk dsz bs' = cache_ok dsk dsz bs" "bview dsk bs' n = bview dsk bs n"
    "dirty_blocks bs' = dirty_blocks bs" "held bs' = held bs"
  by (auto simp: cache_ok_def buf_ok_def bview_def dirty_blocks_def held_def same_bufs_fields [OF assms]
      split: option.split)

lemma same_bufs_set:
  "same_bufs bs bs' \<Longrightarrow> same_bufs bs (b_set_next i v bs')" "same_bufs bs bs' \<Longrightarrow> same_bufs bs (b_set_prev i v bs')"
  by (simp_all add: same_bufs_def b_set_next_def b_set_prev_def)

lemma same_bufs_relink: "same_bufs bs (relink b bs)"
proof -
  have "same_bufs bs bs" by (simp add: same_bufs_def)
  then show ?thesis unfolding relink_def Let_def by (intro same_bufs_set)
qed

lemma mru_cong:
  "mru bs xs \<Longrightarrow> (\<And>i. b_next (bs' i) = b_next (bs i)) \<Longrightarrow> (\<And>i. b_prev (bs' i) = b_prev (bs i)) \<Longrightarrow> mru bs' xs"
  by (simp add: mru_def)

lemma mru_upd [simp]:
  "b_next x = b_next (bs b) \<Longrightarrow> b_prev x = b_prev (bs b) \<Longrightarrow> mru (bs(b := x)) xs = mru bs xs"
proof -
  assume *: "b_next x = b_next (bs b)" "b_prev x = b_prev (bs b)"
  have "(\<lambda>i. b_next ((bs(b := x)) i)) = (\<lambda>i. b_next (bs i))" "(\<lambda>i. b_prev ((bs(b := x)) i)) = (\<lambda>i. b_prev (bs i))"
    using * by auto
  then show ?thesis by (simp only: mru_def)
qed

section \<open>The operations on the store\<close>

lemma link_ops_eq:
  "unlink_prev b s = Ret () (s\<lparr>bcache := b_set_prev (b_next (bcache s b)) (b_prev (bcache s b)) (bcache s)\<rparr>)"
  "unlink_next b s = Ret () (s\<lparr>bcache := b_set_next (b_prev (bcache s b)) (b_next (bcache s b)) (bcache s)\<rparr>)"
  "link_next b h s = Ret () (s\<lparr>bcache := b_set_next b (b_next (bcache s h)) (bcache s)\<rparr>)"
  "upd_buf b (\<lambda>x. x\<lparr>b_prev := h\<rparr>) s = Ret () (s\<lparr>bcache := b_set_prev b h (bcache s)\<rparr>)"
  "push_front b s = Ret () (s\<lparr>bcache := b_set_next NBUF b (b_set_prev (b_next (bcache s NBUF)) b (bcache s))\<rparr>)"
  by (simp_all add: unlink_prev_def unlink_next_def link_next_def push_front_def upd_buf_def b_set_next_def
      b_set_prev_def kop_simps)

lemma upd_buf_eq: "upd_buf b f s = Ret () (s\<lparr>bcache := (bcache s)(b := f (bcache s b))\<rparr>)"
  by (simp add: upd_buf_def kop_simps)

lemma brelse_eq:
  assumes "lockable L_bcache s" "lockable L_ptable s" "b_busy (bcache s b)"
  shows "brelse b s = Ret () (s\<lparr>bcache := (relink b (bcache s))(b := (relink b (bcache s) b)\<lparr>b_busy := False\<rparr>),
    ptable := map (wake1 (Ch_buf b)) (ptable s)\<rparr>)"
  using assms
  by (simp add: brelse_def kseq_def kbind_def kassert_def link_ops_eq relink_def Let_def
      upd_buf_eq [of b "\<lambda>x. x\<lparr>b_busy := False\<rparr>"] del: b_set_links_at fun_upd_apply)

lemma bget_hit:
  assumes "lockable L_bcache s" "mru (bcache s) xs"
    and "find (\<lambda>i. b_dev (bcache s i) = dev \<and> b_sector (bcache s i) = n) xs = Some b" "\<not> b_busy (bcache s b)"
  shows "bget dev n s = Ret b (s\<lparr>bcache := (bcache s)(b := (bcache s b)\<lparr>b_busy := True\<rparr>)\<rparr>)"
  using assms walk_next [OF assms(2), of "\<lambda>x. b_dev x = dev \<and> b_sector x = n"]
  by (simp add: bget_def bget_loop_def upd_buf_def kop_simps)

lemma bget_miss:
  assumes "lockable L_bcache s" "mru (bcache s) xs"
    and "find (\<lambda>i. b_dev (bcache s i) = dev \<and> b_sector (bcache s i) = n) xs = None"
  shows "bget dev n s =
    (case find (\<lambda>i. \<not> b_busy (bcache s i) \<and> \<not> b_dirty (bcache s i)) (rev xs) of
       None \<Rightarrow> Panic ''bget: no buffers''
     | Some b \<Rightarrow> Ret b (s\<lparr>bcache := (bcache s)(b := (bcache s b)\<lparr>b_dev := dev, b_sector := n, b_busy := True,
           b_valid := False, b_dirty := False\<rparr>)\<rparr>))"
  using assms walk_next [OF assms(2), of "\<lambda>x. b_dev x = dev \<and> b_sector x = n"]
    walk_prev [OF assms(2), of "\<lambda>x. \<not> b_busy x \<and> \<not> b_dirty x"]
  by (simp add: bget_def bget_loop_def upd_buf_def kop_simps split: option.splits)

lemma bcD:
  assumes "bc s0 V D H s"
  shows "s = s0\<lparr>bcache := bcache s, ptable := ptable s\<rparr>" "wakes (ptable s0) (ptable s)" "lockable lk s"
    "\<exists>xs. mru (bcache s) xs" "cache_ok (memdisk s0) (disksize s0) (bcache s)"
    "n < disksize s0 \<Longrightarrow> bview (memdisk s0) (bcache s) n = V n"
    "dirty_blocks (bcache s) = D" "held (bcache s) = H" "i < NBUF \<Longrightarrow> b_busy (bcache s i) \<Longrightarrow> b_valid (bcache s i)"
  using assms unfolding bc_def by blast+

lemma bcI:
  assumes "s = s0\<lparr>bcache := bcache s, ptable := ptable s\<rparr>" "wakes (ptable s0) (ptable s)" "\<And>lk. lockable lk s"
    "mru (bcache s) xs" "cache_ok (memdisk s0) (disksize s0) (bcache s)"
    "\<And>n. n < disksize s0 \<Longrightarrow> bview (memdisk s0) (bcache s) n = V n"
    "dirty_blocks (bcache s) = D" "held (bcache s) = H" "\<And>i. i < NBUF \<Longrightarrow> b_busy (bcache s i) \<Longrightarrow> b_valid (bcache s i)"
  shows "bc s0 V D H s"
  unfolding bc_def using assms by blast

lemma bc_rest: "bc s0 V D H s \<Longrightarrow> memdisk s = memdisk s0 \<and> disksize s = disksize s0"
  using arg_cong [OF bcD(1), of s0 V D H s memdisk] arg_cong [OF bcD(1), of s0 V D H s disksize] by simp

lemma bc_lockable0: "bc s0 V D H s \<Longrightarrow> lockable lk s0"
  using arg_cong [OF bcD(1), of s0 V D H s "lockable lk"] bcD(3) [of s0 V D H s lk] by simp

text \<open>State outside the cache may change under it; every later component uses this for its own fields.\<close>

lemma bc_frame:
  assumes "bc s0 V D H s" "s' = s0'\<lparr>bcache := bcache s, ptable := ptable s\<rparr>" "ptable s0' = ptable s0"
    "memdisk s0' = memdisk s0" "disksize s0' = disksize s0" "\<And>lk. lockable lk s0'"
  shows "bc s0' V D H s'"
  using assms(1,3-6) unfolding assms(2) bc_def by simp

lemma bc_frame_upd:
  assumes "bc s0 V D H s" "\<And>x p. g (s0\<lparr>bcache := x, ptable := p\<rparr>) = (g s0)\<lparr>bcache := x, ptable := p\<rparr>"
    "ptable (g s0) = ptable s0" "memdisk (g s0) = memdisk s0" "disksize (g s0) = disksize s0"
    "\<And>lk. lockable lk (g s0) = lockable lk s0"
  shows "bc (g s0) V D H (g s)"
proof (rule bc_frame [OF assms(1)])
  show "g s = (g s0)\<lparr>bcache := bcache s, ptable := ptable s\<rparr>"
    using assms(2) [of "ptable s" "bcache s"] bcD(1) [OF assms(1)] by simp
qed (use assms bc_lockable0 [OF assms(1)] in auto)

text \<open>Waking sleepers does not concern it.\<close>

lemma bc_wakeup: "bc s0 V D H s \<Longrightarrow> bc s0 V D H (s\<lparr>ptable := map (wake1 c) (ptable s)\<rparr>)"
proof -
  assume bc: "bc s0 V D H s"
  have "s\<lparr>ptable := p\<rparr> = s0\<lparr>bcache := bcache s, ptable := p\<rparr>" for p by (subst bcD(1) [OF bc]) simp
  with bc bc_lockable0 [OF bc] show ?thesis unfolding bc_def by (simp add: wakes_wake1)
qed

text \<open>Giving one buffer a new valid state: the one place where the invariant is re-established.\<close>

lemma bc_upd:
  assumes bc: "bc s0 V D H s" and b: "b < NBUF"
    and x: "b_next x = b_next (bcache s b)" "b_prev x = b_prev (bcache s b)" "b_valid x" "b_dev x = 1"
      "b_sector x = n" "n < disksize s0" "length (b_data x) = 512"
      "\<not> b_dirty x \<Longrightarrow> \<not> b_busy x \<Longrightarrow> b_data x = disk_block (memdisk s0) n"
    and uniq: "\<And>j. j < NBUF \<Longrightarrow> j \<noteq> b \<Longrightarrow> b_dev (bcache s j) = 1 \<Longrightarrow> b_sector (bcache s j) \<noteq> n"
    and old: "b_valid (bcache s b) \<Longrightarrow> b_sector (bcache s b) \<noteq> n \<Longrightarrow>
      \<not> b_dirty (bcache s b) \<and> \<not> b_busy (bcache s b)"
  shows "bc s0 (V(n := b_data x)) (if b_dirty x then insert n D else D - {n})
    (H(b := if b_busy x then Some n else None)) (s\<lparr>bcache := (bcache s)(b := x)\<rparr>)"
proof -
  let ?bs = "bcache s" and ?dsk = "memdisk s0" and ?dsz = "disksize s0"
  note ok = bcD(5) [OF bc]
  have ok': "cache_ok ?dsk ?dsz (?bs(b := x))"
    using x uniq by (intro cache_ok_upd [OF ok]) (auto simp: buf_ok_def)
  have view: "bview ?dsk (?bs(b := x)) m = (V(n := b_data x)) m" if "m < ?dsz" for m
    unfolding bview_upd [OF ok ok' b] using x old that cache_okD(4) [OF ok b] bview_cached [OF ok b]
    by (auto simp: bcD(6) [OF bc])
  have dirty_n: "i = b" if "i < NBUF" "b_dirty (?bs i)" "b_sector (?bs i) = n" for i
    using that uniq [of i] cache_okD(2,3) [OF ok that(1)] by auto
  have old_dirty: "b_sector (?bs b) = n" if "b_dirty (?bs b)"
    using that old cache_okD(3) [OF ok b] by auto
  have "dirty_blocks (?bs(b := x)) = (if b_dirty x then insert n D else D - {n})" (is "?L = ?R")
  proof (rule set_eqI)
    fix m
    have "m \<in> ?L \<longleftrightarrow> b_dirty x \<and> m = n \<or> (\<exists>i < NBUF. i \<noteq> b \<and> b_dirty (?bs i) \<and> b_sector (?bs i) = m)"
      using b x(5) by (auto simp: dirty_blocks_def)
    also have "\<dots> \<longleftrightarrow> m \<in> ?R"
      using dirty_n old_dirty unfolding bcD(7) [OF bc, symmetric] by (auto simp: dirty_blocks_def)
    finally show "m \<in> ?L \<longleftrightarrow> m \<in> ?R" .
  qed
  moreover have "held (?bs(b := x)) = H(b := if b_busy x then Some n else None)"
    using b x(5) unfolding bcD(8) [OF bc, symmetric] by (auto simp: held_def)
  moreover from bcD(4) [OF bc] obtain xs where "mru ?bs xs" by blast
  then have "mru (?bs(b := x)) xs" using x(1,2) by simp
  moreover have "s\<lparr>bcache := ?bs(b := x)\<rparr> = s0\<lparr>bcache := ?bs(b := x), ptable := ptable s\<rparr>"
    by (subst bcD(1) [OF bc]) simp
  moreover have "b_valid ((?bs(b := x)) i)" if "i < NBUF" "b_busy ((?bs(b := x)) i)" for i
    using that x(3) bcD(9) [OF bc] by (auto split: if_splits)
  ultimately show ?thesis
    using bcD(2,3) [OF bc] bc_lockable0 [OF bc] ok' view unfolding bc_def by (auto simp del: fun_upd_apply)
qed

lemma find_rev_mru:
  assumes "mru bs xs"
  shows "find P xs = Some b \<Longrightarrow> b < NBUF \<and> P b" "find P xs = None \<longleftrightarrow> (\<forall>i < NBUF. \<not> P i)"
    "find P (rev xs) = Some b \<Longrightarrow> b < NBUF \<and> P b" "find P (rev xs) = None \<longleftrightarrow> (\<forall>i < NBUF. \<not> P i)"
proof -
  have xs: "set xs = {0..<NBUF}" using assms by (simp add: mru_def)
  then have rv: "set (rev xs) = {0..<NBUF}" by simp
  have "find P ys = Some b \<Longrightarrow> b \<in> set ys \<and> P b" for ys by (auto simp: find_Some_iff)
  then show "find P xs = Some b \<Longrightarrow> b < NBUF \<and> P b" "find P (rev xs) = Some b \<Longrightarrow> b < NBUF \<and> P b"
    using xs rv by fastforce+
  show "find P xs = None \<longleftrightarrow> (\<forall>i < NBUF. \<not> P i)" "find P (rev xs) = None \<longleftrightarrow> (\<forall>i < NBUF. \<not> P i)"
    using xs by (auto simp: find_None_iff)
qed

text \<open>What \<^verbatim>\<open>bread\<close> makes of a buffer that \<^verbatim>\<open>bget\<close> has prepared: the read of an invalid one from the disk.\<close>

lemma iderw_read:
  assumes "b_busy (bcache s b)" "\<not> b_valid (bcache s b)" "\<not> b_dirty (bcache s b)" "b_dev (bcache s b) = 1"
    "b_sector (bcache s b) < disksize s"
  shows "iderw b s = Ret () (s\<lparr>bcache := (bcache s)(b := (bcache s b)\<lparr>b_data := disk_block (memdisk s) (b_sector (bcache s b)),
    b_valid := True\<rparr>)\<rparr>)"
  using assms by (simp add: iderw_def Let_def disk_block_def not_le)

lemma bread_hit:
  assumes bc: "bc s0 V D H s" and b: "b < NBUF" "b_dev (bcache s b) = 1" "b_sector (bcache s b) = n"
    and n: "n < disksize s0" "n \<notin> ran H"
  shows "\<exists>t. bread 1 n s = Ret b t \<and> bc s0 V D (H(b \<mapsto> n)) t \<and> H b = None"
proof -
  from bcD(4) [OF bc] obtain xs where m: "mru (bcache s) xs" by blast
  let ?x = "bcache s b"
  note ok = bcD(5) [OF bc]
  have H: "H b = (if b_busy ?x then Some n else None)"
    using b unfolding bcD(8) [OF bc, symmetric] by (simp add: held_def)
  then have nb: "\<not> b_busy ?x" using n(2) by (auto intro: ranI split: if_splits)
  then have Hb: "H b = None" using H by simp
  have uniq: "j = b" if "j < NBUF" "b_dev (bcache s j) = 1 \<and> b_sector (bcache s j) = n" for j
    using that b cache_ok_inj [OF ok that(1) b(1)] by simp
  have "find (\<lambda>i. b_dev (bcache s i) = 1 \<and> b_sector (bcache s i) = n) xs = Some b"
  proof (cases "find (\<lambda>i. b_dev (bcache s i) = 1 \<and> b_sector (bcache s i) = n) xs")
    case None
    then show ?thesis using b unfolding find_rev_mru(2) [OF m] by blast
  next
    case (Some c)
    then show ?thesis using find_rev_mru(1) [OF m Some] uniq by blast
  qed
  note g = bget_hit [OF bcD(3) [OF bc] m this nb]
  let ?t = "s\<lparr>bcache := (bcache s)(b := ?x\<lparr>b_busy := True,
      b_data := if b_valid ?x then b_data ?x else disk_block (memdisk s0) n, b_valid := True\<rparr>)\<rparr>"
  have "bread 1 n s = Ret b ?t"
  proof (cases "b_valid ?x")
    case True
    then have t: "?t = s\<lparr>bcache := (bcache s)(b := ?x\<lparr>b_busy := True\<rparr>)\<rparr>" by (cases ?x) simp
    show ?thesis unfolding t using g True by (simp add: bread_def kop_simps)
  next
    case False
    let ?s1 = "s\<lparr>bcache := (bcache s)(b := ?x\<lparr>b_busy := True\<rparr>)\<rparr>"
    have "\<not> b_dirty ?x" using False cache_okD(3) [OF ok b(1)] by blast
    then have "iderw b ?s1 = Ret () ?t"
      using iderw_read [of ?s1 b] False b n(1) bc_rest [OF bc] by simp
    then show ?thesis using g False by (simp add: bread_def kop_simps)
  qed
  moreover have "bview (memdisk s0) (bcache s) n = (if b_valid ?x then b_data ?x else disk_block (memdisk s0) n)"
  proof (cases "b_valid ?x")
    case True
    then show ?thesis using bview_cached [OF ok b(1) True b(3)] by simp
  next
    case False
    then have "bview (memdisk s0) (bcache s) n = disk_block (memdisk s0) n"
      using uniq cache_okD(2) [OF ok] by (intro bview_uncached) blast
    with False show ?thesis by simp
  qed
  then have V: "(if b_valid ?x then b_data ?x else disk_block (memdisk s0) n) = V n" using bcD(6) [OF bc n(1)] by simp
  have len: "length (V n) = 512"
    unfolding V [symmetric] using cache_okD(1) [OF ok b(1)] length_disk_block [OF ok n(1)] by simp
  have uniq': "b_sector (bcache s j) \<noteq> n" if "j < NBUF" "j \<noteq> b" "b_dev (bcache s j) = 1" for j
    using that uniq [of j] by blast
  let ?y = "?x\<lparr>b_busy := True, b_data := V n, b_valid := True\<rparr>"
  have "bc s0 (V(n := b_data ?y)) (if b_dirty ?y then insert n D else D - {n})
      (H(b := if b_busy ?y then Some n else None)) (s\<lparr>bcache := (bcache s)(b := ?y)\<rparr>)"
    using len n(1) b uniq' by (intro bc_upd [OF bc b(1)]) simp_all
  then have "bc s0 V (if b_dirty ?x then insert n D else D - {n}) (H(b \<mapsto> n)) ?t" unfolding V by simp
  moreover have "(if b_dirty ?x then insert n D else D - {n}) = D"
  proof -
    have "n \<in> D \<longleftrightarrow> b_dirty ?x"
      unfolding bcD(7) [OF bc, symmetric] dirty_blocks_def mem_Collect_eq
      using b cache_okD(2,3) [OF ok] uniq by blast
    then show ?thesis by auto
  qed
  ultimately show ?thesis using Hb by simp
qed

lemma bread_miss:
  assumes bc: "bc s0 V D H s" and miss: "\<And>i. i < NBUF \<Longrightarrow> b_dev (bcache s i) = 1 \<Longrightarrow> b_sector (bcache s i) \<noteq> n"
    and n: "n < disksize s0"
  shows "(\<exists>b t. bread 1 n s = Ret b t \<and> b < NBUF \<and> H b = None \<and> bc s0 V D (H(b \<mapsto> n)) t) \<or>
    bread 1 n s = Panic ''bget: no buffers'' \<and> (\<forall>i < NBUF. b_busy (bcache s i) \<or> b_dirty (bcache s i))"
proof -
  from bcD(4) [OF bc] obtain xs where m: "mru (bcache s) xs" by blast
  note ok = bcD(5) [OF bc]
  have "find (\<lambda>i. b_dev (bcache s i) = 1 \<and> b_sector (bcache s i) = n) xs = None"
    unfolding find_rev_mru(2) [OF m] using miss by blast
  note g = bget_miss [OF bcD(3) [OF bc] m this]
  let ?free = "\<lambda>i. \<not> b_busy (bcache s i) \<and> \<not> b_dirty (bcache s i)"
  show ?thesis
  proof (cases "find ?free (rev xs)")
    case None
    then have "bread 1 n s = Panic ''bget: no buffers''" using g by (simp add: bread_def kop_simps)
    moreover have "\<forall>i < NBUF. b_busy (bcache s i) \<or> b_dirty (bcache s i)"
      using None unfolding find_rev_mru(4) [OF m] by blast
    ultimately show ?thesis by blast
  next
    case (Some b)
    have b: "b < NBUF" "\<not> b_busy (bcache s b)" "\<not> b_dirty (bcache s b)" using find_rev_mru(3) [OF m Some] by auto
    let ?x = "(bcache s b)\<lparr>b_dev := 1, b_sector := n, b_busy := True, b_valid := False, b_dirty := False\<rparr>"
    let ?s1 = "s\<lparr>bcache := (bcache s)(b := ?x)\<rparr>"
    let ?y = "?x\<lparr>b_data := disk_block (memdisk s0) n, b_valid := True\<rparr>"
    have "bget 1 n s = Ret b ?s1" using g Some by simp
    moreover have "iderw b ?s1 = Ret () (s\<lparr>bcache := (bcache s)(b := ?y)\<rparr>)"
      using iderw_read [of ?s1 b] n bc_rest [OF bc] by simp
    ultimately have r: "bread 1 n s = Ret b (s\<lparr>bcache := (bcache s)(b := ?y)\<rparr>)" by (simp add: bread_def kop_simps)
    have "bview (memdisk s0) (bcache s) n = disk_block (memdisk s0) n"
      using miss cache_okD(2) [OF ok] by (intro bview_uncached) blast
    then have V: "disk_block (memdisk s0) n = V n" using bcD(6) [OF bc n] by simp
    have len: "length (disk_block (memdisk s0) n) = 512" using length_disk_block [OF ok n] .
    have "bc s0 (V(n := b_data ?y)) (if b_dirty ?y then insert n D else D - {n})
        (H(b := if b_busy ?y then Some n else None)) (s\<lparr>bcache := (bcache s)(b := ?y)\<rparr>)"
      using len n b miss by (intro bc_upd [OF bc b(1)]) simp_all
    moreover have "n \<notin> D"
      unfolding bcD(7) [OF bc, symmetric] dirty_blocks_def using cache_okD(2,3) [OF ok] miss by auto
    ultimately have "bc s0 V D (H(b \<mapsto> n)) (s\<lparr>bcache := (bcache s)(b := ?y)\<rparr>)" using V by simp
    moreover have "H b = None" unfolding bcD(8) [OF bc, symmetric] using b by (simp add: held_def)
    ultimately show ?thesis using r b(1) by blast
  qed
qed

text \<open>Some buffer is free as long as fewer than \<^verbatim>\<open>NBUF\<close> blocks are held or still to be written.\<close>

lemma bc_room:
  assumes bc: "bc s0 V D H s" and "card (D \<union> ran H) < NBUF"
  shows "\<exists>i < NBUF. \<not> b_busy (bcache s i) \<and> \<not> b_dirty (bcache s i)"
proof (rule ccontr)
  assume "\<not> ?thesis"
  then have all: "b_busy (bcache s i) \<or> b_dirty (bcache s i)" if "i < NBUF" for i using that by blast
  note ok = bcD(5) [OF bc]
  have valid: "b_valid (bcache s i)" if "i < NBUF" for i
    using all [OF that] bcD(9) [OF bc that] cache_okD(3) [OF ok that] by blast
  have inj: "inj_on (\<lambda>i. b_sector (bcache s i)) {0..<NBUF}"
    using valid cache_okD(2) [OF ok] cache_ok_inj [OF ok] by (auto intro!: inj_onI)
  have sub: "(\<lambda>i. b_sector (bcache s i)) ` {0..<NBUF} = D \<union> ran H"
  proof
    show "(\<lambda>i. b_sector (bcache s i)) ` {0..<NBUF} \<subseteq> D \<union> ran H"
    proof
      fix n assume "n \<in> (\<lambda>i. b_sector (bcache s i)) ` {0..<NBUF}"
      then obtain i where i: "i < NBUF" "n = b_sector (bcache s i)" by auto
      have "n \<in> D" if "b_dirty (bcache s i)"
        unfolding bcD(7) [OF bc, symmetric] dirty_blocks_def using i that by blast
      moreover have "held (bcache s) i = Some n" if "b_busy (bcache s i)" using i that by (simp add: held_def)
      then have "n \<in> ran H" if "b_busy (bcache s i)" unfolding bcD(8) [OF bc, symmetric] using that by (blast intro: ranI)
      ultimately show "n \<in> D \<union> ran H" using all [OF i(1)] by blast
    qed
    show "D \<union> ran H \<subseteq> (\<lambda>i. b_sector (bcache s i)) ` {0..<NBUF}"
      unfolding bcD(7,8) [OF bc, symmetric]
      by (auto simp: dirty_blocks_def held_def ran_def split: if_splits)
  qed
  have "card (D \<union> ran H) = NBUF" unfolding sub [symmetric] by (simp add: card_image [OF inj])
  with assms(2) show False by simp
qed

lemma bread_spec:
  assumes "n < disksize s0" "n \<notin> ran H"
  shows "kspec (if card (D \<union> ran H) < NBUF \<or> n \<in> D then {} else {''bget: no buffers''}) (bc s0 V D H) (bread 1 n)
    (\<lambda>b s. b < NBUF \<and> H b = None \<and> bc s0 V D (H(b \<mapsto> n)) s)"
proof (rule kspecI)
  fix s assume bc: "bc s0 V D H s"
  show "(\<exists>b t. bread 1 n s = Ret b t \<and> b < NBUF \<and> H b = None \<and> bc s0 V D (H(b \<mapsto> n)) t) \<or>
    (\<exists>e \<in> if card (D \<union> ran H) < NBUF \<or> n \<in> D then {} else {''bget: no buffers''}. bread 1 n s = Panic e)"
  proof (cases "\<exists>b < NBUF. b_dev (bcache s b) = 1 \<and> b_sector (bcache s b) = n")
    case True
    then show ?thesis using bread_hit [OF bc _ _ _ assms] by blast
  next
    case False
    then have miss: "b_sector (bcache s i) \<noteq> n" if "i < NBUF" "b_dev (bcache s i) = 1" for i using that by blast
    have "n \<notin> D"
      unfolding bcD(7) [OF bc, symmetric] dirty_blocks_def using cache_okD(2,3) [OF bcD(5) [OF bc]] miss by auto
    then show ?thesis using bread_miss [OF bc miss assms(1)] bc_room [OF bc] by auto
  qed
qed

lemma bc_data: "bc s0 V D H s \<Longrightarrow> H b = Some n \<Longrightarrow> b_data (bcache s b) = V n"
  and bc_held: "bc s0 V D H s \<Longrightarrow> H b = Some n \<Longrightarrow> b < NBUF \<and> b_busy (bcache s b) \<and> b_valid (bcache s b) \<and>
     b_dev (bcache s b) = 1 \<and> b_sector (bcache s b) = n \<and> n < disksize s0"
proof -
  assume bc: "bc s0 V D H s" and Hb: "H b = Some n"
  have h: "b < NBUF" "b_busy (bcache s b)" "b_sector (bcache s b) = n"
    using Hb unfolding bcD(8) [OF bc, symmetric] by (auto simp: held_def split: if_splits)
  then have v: "b_valid (bcache s b)" using bcD(9) [OF bc] by blast
  then have n: "n < disksize s0" "b_dev (bcache s b) = 1" using cache_okD(2) [OF bcD(5) [OF bc] h(1)] h by auto
  show "b < NBUF \<and> b_busy (bcache s b) \<and> b_valid (bcache s b) \<and> b_dev (bcache s b) = 1 \<and>
    b_sector (bcache s b) = n \<and> n < disksize s0" using h v n by blast
  show "b_data (bcache s b) = V n"
    using bview_cached [OF bcD(5) [OF bc] h(1) v h(3)] bcD(6) [OF bc n(1)] by simp
qed

lemma bc_held_inj: "bc s0 V D H s \<Longrightarrow> H b = Some n \<Longrightarrow> H b' = Some n \<Longrightarrow> b = b'"
  using bc_held [of s0 V D H s b n] bc_held [of s0 V D H s b' n] cache_ok_inj [OF bcD(5), of s0 V D H s b b'] by simp

lemma bc_length: "bc s0 V D H s \<Longrightarrow> H b = Some n \<Longrightarrow> length (V n) = 512"
  using bc_data [of s0 V D H s b n] bc_held [of s0 V D H s b n] cache_okD(1) [OF bcD(5), of s0 V D H s b] by simp

text \<open>A new state of a buffer that is held and stays held.\<close>

lemma bc_upd_held:
  assumes bc: "bc s0 V D H s" and Hb: "H b = Some n"
    and x: "b_next x = b_next (bcache s b)" "b_prev x = b_prev (bcache s b)" "b_valid x" "b_dev x = 1"
      "b_sector x = n" "length (b_data x) = 512" "b_busy x"
  shows "bc s0 (V(n := b_data x)) (if b_dirty x then insert n D else D - {n}) H (s\<lparr>bcache := (bcache s)(b := x)\<rparr>)"
proof -
  note h = bc_held [OF bc Hb]
  have "bc s0 (V(n := b_data x)) (if b_dirty x then insert n D else D - {n})
      (H(b := if b_busy x then Some n else None)) (s\<lparr>bcache := (bcache s)(b := x)\<rparr>)"
  proof (rule bc_upd [OF bc])
    show "b_sector (bcache s j) \<noteq> n" if "j < NBUF" "j \<noteq> b" "b_dev (bcache s j) = 1" for j
      using that h cache_ok_inj [OF bcD(5) [OF bc], of j b] by auto
  qed (use h x in simp_all)
  moreover have "H(b \<mapsto> n) = H" using Hb by auto
  ultimately show ?thesis using x(7) by simp
qed

lemma bdirty_iff: "bc s0 V D H s \<Longrightarrow> H b = Some n \<Longrightarrow> b_dirty (bcache s b) \<longleftrightarrow> n \<in> D"
proof -
  assume bc: "bc s0 V D H s" and Hb: "H b = Some n"
  note h = bc_held [OF bc Hb] and ok = bcD(5) [OF bc]
  have "i = b" if "i < NBUF" "b_dirty (bcache s i)" "b_sector (bcache s i) = n" for i
    using that h cache_okD(2,3) [OF ok that(1)] cache_ok_inj [OF ok, of i b] by simp
  then show ?thesis unfolding bcD(7) [OF bc, symmetric] dirty_blocks_def using h by blast
qed

text \<open>Changing the data of a held buffer, and marking it dirty.\<close>

definition set_data :: "nat \<Rightarrow> (u8 list \<Rightarrow> u8 list) \<Rightarrow> ('a bio_state_scheme, unit) kop" where
  "set_data b f = upd_buf b (\<lambda>x. x\<lparr>b_data := f (b_data x)\<rparr>)"

lemma set_data_spec:
  assumes "H b = Some n" "length (f (V n)) = 512"
  shows "kspec {} (bc s0 V D H) (set_data b f) (\<lambda>_. bc s0 (V(n := f (V n))) D H)"
proof (rule kspecI_eq)
  fix s assume bc: "bc s0 V D H s"
  note h = bc_held [OF bc assms(1)]
  let ?x = "(bcache s b)\<lparr>b_data := f (b_data (bcache s b))\<rparr>"
  have "bc s0 (V(n := b_data ?x)) (if b_dirty ?x then insert n D else D - {n}) H (s\<lparr>bcache := (bcache s)(b := ?x)\<rparr>)"
    using h assms(2) bc_data [OF bc assms(1)] by (intro bc_upd_held [OF bc assms(1)]) simp_all
  moreover have "(if n \<in> D then insert n D else D - {n}) = D" by auto
  ultimately show "\<exists>a t. set_data b f s = Ret a t \<and> bc s0 (V(n := f (V n))) D H t"
    using bc_data [OF bc assms(1)] bdirty_iff [OF bc assms(1)] by (simp add: set_data_def upd_buf_eq)
qed

lemma set_dirty_spec:
  assumes "H b = Some n"
  shows "kspec {} (bc s0 V D H) (upd_buf b (\<lambda>x. x\<lparr>b_dirty := True\<rparr>)) (\<lambda>_. bc s0 V (insert n D) H)"
proof (rule kspecI_eq)
  fix s assume bc: "bc s0 V D H s"
  note h = bc_held [OF bc assms(1)]
  let ?x = "(bcache s b)\<lparr>b_dirty := True\<rparr>"
  have "bc s0 (V(n := b_data ?x)) (if b_dirty ?x then insert n D else D - {n}) H (s\<lparr>bcache := (bcache s)(b := ?x)\<rparr>)"
    using h bc_length [OF bc assms(1)] bc_data [OF bc assms(1)] by (intro bc_upd_held [OF bc assms(1)]) simp_all
  then show "\<exists>a t. upd_buf b (\<lambda>x. x\<lparr>b_dirty := True\<rparr>) s = Ret a t \<and> bc s0 V (insert n D) H t"
    using bc_data [OF bc assms(1)] by (simp add: upd_buf_eq)
qed

text \<open>A buffer may be given back when it is due to be written or unchanged.\<close>

lemma brelse_spec:
  assumes "H b = Some n" "n \<in> D \<or> V n = disk_block (memdisk s0) n"
  shows "kspec {} (bc s0 V D H) (brelse b) (\<lambda>_. bc s0 V D (H(b := None)))"
proof (rule kspecI_eq)
  fix s assume bc: "bc s0 V D H s"
  note h = bc_held [OF bc assms(1)]
  let ?bs = "relink b (bcache s)" and ?ps = "map (wake1 (Ch_buf b)) (ptable s)"
  let ?x = "(?bs b)\<lparr>b_busy := False\<rparr>"
  note same = same_bufs_relink [of "bcache s" b]
  note f = same_bufs_fields [OF same]
  from bcD(4) [OF bc] obtain xs where "mru (bcache s) xs" by blast
  then have m: "mru ?bs (b # remove1 b xs)" using h by (intro relink_mru) blast+
  have s1: "bc s0 V D H (s\<lparr>bcache := ?bs, ptable := ?ps\<rparr>)"
    unfolding bc_def
  proof (intro conjI allI impI)
    show "s\<lparr>bcache := ?bs, ptable := ?ps\<rparr> = s0\<lparr>bcache := bcache (s\<lparr>bcache := ?bs, ptable := ?ps\<rparr>),
        ptable := ptable (s\<lparr>bcache := ?bs, ptable := ?ps\<rparr>)\<rparr>" by (subst bcD(1) [OF bc]) simp
    show "\<exists>xs. mru (bcache (s\<lparr>bcache := ?bs, ptable := ?ps\<rparr>)) xs" using m by auto
  qed (use bcD(2,3,5,6,7,8,9) [OF bc] in \<open>simp_all add: f same_bufs_store [OF same] wakes_wake1\<close>)
  let ?s1 = "s\<lparr>bcache := ?bs, ptable := ?ps\<rparr>"
  have "bc s0 (V(n := b_data ?x)) (if b_dirty ?x then insert n D else D - {n})
      (H(b := if b_busy ?x then Some n else None)) (?s1\<lparr>bcache := (bcache ?s1)(b := ?x)\<rparr>)"
  proof (rule bc_upd [OF s1])
    show "b_sector (bcache ?s1 j) \<noteq> n" if "j < NBUF" "j \<noteq> b" "b_dev (bcache ?s1 j) = 1" for j
      using that h cache_ok_inj [OF bcD(5) [OF bc], of j b] by (auto simp: f)
    show "b_data ?x = disk_block (memdisk s0) n" if "\<not> b_dirty ?x"
      using that assms(2) bdirty_iff [OF bc assms(1)] bc_data [OF bc assms(1)] by (simp add: f)
  qed (use h bc_length [OF bc assms(1)] bc_data [OF bc assms(1)] in \<open>simp_all add: f\<close>)
  moreover have "(if n \<in> D then insert n D else D - {n}) = D" by auto
  moreover have "brelse b s = Ret () (?s1\<lparr>bcache := (bcache ?s1)(b := ?x)\<rparr>)"
    using brelse_eq [OF bcD(3) [OF bc] bcD(3) [OF bc]] h by simp
  ultimately show "\<exists>a t. brelse b s = Ret a t \<and> bc s0 V D (H(b := None)) t"
    using bdirty_iff [OF bc assms(1)] bc_data [OF bc assms(1)] by (simp add: f)
qed

lemma disk_block_splice:
  assumes "length xs = 512" "unat n * 512 + 512 \<le> length dsk"
  shows "disk_block (splice (unat n * 512) xs dsk) m = (if m = n then xs else disk_block dsk m)"
proof (cases "m = n")
  case True
  then show ?thesis using assms by (simp add: disk_block_def slice_splice_same)
next
  case False
  then have "unat m < unat n \<or> unat n < unat m" by (meson linorder_neqE_nat word_unat_eq_iff)
  then have "unat m * 512 + 512 \<le> unat n * 512 \<or> unat n * 512 + length xs \<le> unat m * 512" using assms(1) by auto
  then show ?thesis using False assms by (simp add: disk_block_def slice_splice_other)
qed

lemma bview_write:
  assumes ok: "cache_ok dsk dsz bs" and b: "b < NBUF" "b_valid (bs b)" "b_sector (bs b) = n"
    and dsk: "dsk' = splice (unat n * 512) (b_data (bs b)) dsk"
  defines "x \<equiv> (bs b)\<lparr>b_dirty := False, b_valid := True\<rparr>"
  shows "cache_ok dsk' dsz (bs(b := x))" "bview dsk' (bs(b := x)) m = bview dsk bs m"
proof -
  have n: "n < dsz" "b_dev (bs b) = 1" using cache_okD(2) [OF ok b(1,2)] b(3) by simp_all
  have len: "length (b_data (bs b)) = 512" by (rule cache_okD(1) [OF ok b(1)])
  have "unat n < unat dsz" using n(1) by (simp add: word_less_nat_alt)
  then have fits: "unat n * 512 + 512 \<le> length dsk" using ok by (simp add: cache_ok_def)
  have blk: "disk_block dsk' k = (if k = n then b_data (bs b) else disk_block dsk k)" for k
    unfolding dsk by (rule disk_block_splice [OF len fits])
  have other: "b_sector (bs j) \<noteq> n" if "j < NBUF" "j \<noteq> b" "b_valid (bs j)" for j
    using that b n cache_okD(2) [OF ok that(1,3)] cache_ok_inj [OF ok, of j b] by auto
  have bufs: "buf_ok dsk' dsz ((bs(b := x)) j)" if "j < NBUF" for j
  proof (cases "j = b")
    case True
    then show ?thesis using len n b blk by (simp add: x_def buf_ok_def)
  next
    case False
    moreover have "buf_ok dsk dsz (bs j)" using ok that by (simp add: cache_ok_def)
    ultimately show ?thesis using other [OF that] blk by (simp add: buf_ok_def)
  qed
  have "length dsk' = length dsk" unfolding dsk using fits len by simp
  then show ok': "cache_ok dsk' dsz (bs(b := x))"
    using ok bufs by (auto simp: cache_ok_def x_def split: if_splits)
  show "bview dsk' (bs(b := x)) m = bview dsk bs m"
  proof (cases "\<exists>j < NBUF. b_valid (bs j) \<and> b_sector (bs j) = m")
    case True
    then obtain j where j: "j < NBUF" "b_valid (bs j)" "b_sector (bs j) = m" by blast
    then have "bview dsk' (bs(b := x)) m = b_data ((bs(b := x)) j)"
      by (intro bview_cached [OF ok']) (auto simp: x_def)
    then show ?thesis using bview_cached [OF ok j] by (simp add: x_def)
  next
    case False
    then have "bview dsk bs m = disk_block dsk m" by (intro bview_uncached) blast
    moreover have "bview dsk' (bs(b := x)) m = disk_block dsk' m"
      using False b by (intro bview_uncached) (auto simp: x_def split: if_splits)
    moreover have "m \<noteq> n" using False b by blast
    ultimately show ?thesis by (simp add: blk)
  qed
qed

text \<open>Writing a held buffer brings the disk up to date for its block.\<close>

lemma bwrite_spec:
  assumes "H b = Some n"
  shows "kspec {} (bc s0 V D H) (bwrite b)
    (\<lambda>_. bc (s0\<lparr>memdisk := splice (unat n * 512) (V n) (memdisk s0)\<rparr>) V (D - {n}) H)"
proof (rule kspecI_eq)
  fix s assume bc: "bc s0 V D H s"
  note h = bc_held [OF bc assms] and ok = bcD(5) [OF bc]
  let ?bs = "bcache s" and ?dsk = "splice (unat n * 512) (V n) (memdisk s0)"
  let ?x = "(?bs b)\<lparr>b_dirty := False, b_valid := True\<rparr>"
  let ?t = "s\<lparr>memdisk := ?dsk, bcache := ?bs(b := ?x)\<rparr>"
  have data: "b_data (?bs b) = V n" by (rule bc_data [OF bc assms])
  have "bwrite b s = Ret () ?t"
    using h data bc_rest [OF bc] by (simp add: bwrite_def upd_buf_eq iderw_def Let_def kop_simps not_le)
  note w = bview_write [OF ok, of b n ?dsk, unfolded data]
  have "bc (s0\<lparr>memdisk := ?dsk\<rparr>) V (D - {n}) H ?t"
    unfolding bc_def
  proof (intro conjI allI impI)
    show "?t = s0\<lparr>memdisk := ?dsk, bcache := bcache ?t, ptable := ptable ?t\<rparr>" by (subst bcD(1) [OF bc]) simp
    from bcD(4) [OF bc] obtain xs where "mru ?bs xs" by blast
    then show "\<exists>xs. mru (bcache ?t) xs" by auto
    show "dirty_blocks (bcache ?t) = D - {n}"
    proof (rule set_eqI)
      fix m
      have *: "i = b" if "i < NBUF" "b_dirty (?bs i)" "b_sector (?bs i) = n" for i
        using that h cache_okD(2,3) [OF ok that(1)] cache_ok_inj [OF ok, of i b] by simp
      have "m \<in> dirty_blocks (bcache ?t) \<longleftrightarrow> (\<exists>i < NBUF. i \<noteq> b \<and> b_dirty (?bs i) \<and> b_sector (?bs i) = m)"
        by (auto simp: dirty_blocks_def)
      also have "\<dots> \<longleftrightarrow> m \<in> D - {n}"
        unfolding bcD(7) [OF bc, symmetric] dirty_blocks_def using * h by blast
      finally show "m \<in> dirty_blocks (bcache ?t) \<longleftrightarrow> m \<in> D - {n}" .
    qed
    show "held (bcache ?t) = H" unfolding bcD(8) [OF bc, symmetric] using h by (auto simp: held_def)
  qed (use h bcD(2,3,6,9) [OF bc] w in \<open>auto split: if_splits\<close>)
  with \<open>bwrite b s = Ret () ?t\<close>
  show "\<exists>a t. bwrite b s = Ret a t \<and> bc (s0\<lparr>memdisk := ?dsk\<rparr>) V (D - {n}) H t" by blast
qed

section \<open>Initialisation\<close>

text \<open>After \<open>k\<close> rounds of the loop of \<^verbatim>\<open>binit\<close> the first \<open>k\<close> buffers are linked, the last one in front.\<close>

definition binit_inv :: "'a bio_state_scheme \<Rightarrow> nat \<Rightarrow> 'a bio_state_scheme \<Rightarrow> bool" where
  "binit_inv s0 k s \<longleftrightarrow> s = s0\<lparr>bcache := bcache s\<rparr> \<and>
     chain (\<lambda>i. b_next (bcache s i)) (\<lambda>i. b_prev (bcache s i)) NBUF (rev [0..<k]) NBUF \<and>
     (\<forall>i < NBUF. b_busy (bcache s i) = b_busy (bcache s0 i) \<and> b_valid (bcache s i) = b_valid (bcache s0 i) \<and>
        b_dirty (bcache s i) = b_dirty (bcache s0 i) \<and> b_data (bcache s i) = b_data (bcache s0 i)) \<and>
     (\<forall>i < k. b_dev (bcache s i) = - 1)"

lemma upd_bcache_eq: "s = s0\<lparr>bcache := x\<rparr> \<Longrightarrow> s\<lparr>bcache := y\<rparr> = s0\<lparr>bcache := y\<rparr>"
  by simp

lemma binit_step:
  assumes "k < NBUF"
  shows "kspec {} (binit_inv s0 k) (binit_link k) (\<lambda>_. binit_inv s0 (Suc k))"
proof (rule kspecI_eq)
  fix s assume I: "binit_inv s0 k s"
  let ?bs = "bcache s" and ?f = "b_next (bcache s NBUF)"
  let ?b2 = "b_set_prev k NBUF (b_set_next k ?f ?bs)"
  let ?b3 = "?b2(k := (?b2 k)\<lparr>b_dev := - 1\<rparr>)"
  let ?b4 = "b_set_next NBUF k (b_set_prev (b_next (?b3 NBUF)) k ?b3)"
  have kN: "k \<noteq> NBUF" using assms by simp
  have c: "chain (\<lambda>i. b_next (?bs i)) (\<lambda>i. b_prev (?bs i)) NBUF (rev [0..<k]) NBUF" using I by (simp add: binit_inv_def)
  have fst: "b_next (?b3 NBUF) = ?f" using kN by simp
  have nx: "(\<lambda>i. b_next (?b4 i)) = (\<lambda>i. b_next (?bs i))(k := ?f, NBUF := k)"
    using kN by (auto simp: fun_eq_iff)
  have pv: "(\<lambda>i. b_prev (?b4 i)) = (\<lambda>i. b_prev (?bs i))(k := NBUF, ?f := k)"
    unfolding fst using kN by (auto simp: fun_eq_iff)
  have "chain (\<lambda>i. b_next (?b4 i)) (\<lambda>i. b_prev (?b4 i)) NBUF (k # rev [0..<k]) NBUF"
    unfolding nx pv using assms by (intro chain_push [OF c]) auto
  moreover have "\<forall>i < NBUF. b_busy (?b4 i) = b_busy (bcache s0 i) \<and> b_valid (?b4 i) = b_valid (bcache s0 i) \<and>
        b_dirty (?b4 i) = b_dirty (bcache s0 i) \<and> b_data (?b4 i) = b_data (bcache s0 i)"
      "\<forall>i < Suc k. b_dev (?b4 i) = - 1"
    using I unfolding binit_inv_def by (auto simp: less_Suc_eq)
  moreover have "s\<lparr>bcache := ?b4\<rparr> = s0\<lparr>bcache := ?b4\<rparr>"
    using I unfolding binit_inv_def by (intro upd_bcache_eq [where x = ?bs]) blast
  ultimately have "binit_inv s0 (Suc k) (s\<lparr>bcache := ?b4\<rparr>)"
    unfolding binit_inv_def by simp
  moreover have "binit_link k s = Ret () (s\<lparr>bcache := ?b4\<rparr>)"
    by (simp add: binit_link_def kseq_eq link_ops_eq upd_buf_eq [of k "\<lambda>x. x\<lparr>b_dev := - 1\<rparr>"]
        del: fun_upd_apply b_set_links_at)
  ultimately show "\<exists>a t. binit_link k s = Ret a t \<and> binit_inv s0 (Suc k) t" by blast
qed

lemma binit_start:
  "binit_inv s0 0 (s0\<lparr>bcache := b_set_next NBUF NBUF (b_set_prev NBUF NBUF (bcache s0))\<rparr>)"
  by (simp add: binit_inv_def)

lemma binit_eq:
  "binit s = kforeach [0..<NBUF] binit_link
     (s\<lparr>locks := (locks s)(L_bcache := \<lparr>locked = 0, lk_name = ''bcache'', lk_cpu = None\<rparr>),
        bcache := b_set_next NBUF NBUF (b_set_prev NBUF NBUF (bcache s))\<rparr>)"
proof -
  have n: "upd_buf NBUF (\<lambda>h. h\<lparr>b_next := NBUF\<rparr>) u = Ret () (u\<lparr>bcache := b_set_next NBUF NBUF (bcache u)\<rparr>)"
    for u :: "'a bio_state_scheme" by (simp add: upd_buf_eq b_set_next_def)
  show ?thesis
    by (simp add: binit_def initlock_def kmod_def kseq_eq link_ops_eq n
        del: fun_upd_apply b_set_links_at kforeach.simps upt_rec_numeral)
qed

lemma binit_loop: "kspec {} (binit_inv s0 0) (kforeach [0..<NBUF] binit_link) (\<lambda>_. binit_inv s0 NBUF)"
  using kspec_foreach [of "[0..<NBUF]" "{}" "binit_inv s0" binit_link] by (simp add: binit_step del: kforeach.simps upt_rec_numeral)

lemma lockable_initlock:
  "lockable lk' s \<Longrightarrow> lockable lk' (s\<lparr>locks := (locks s)(lk := \<lparr>locked = 0, lk_name = nm, lk_cpu = None\<rparr>)\<rparr>)"
  by (simp add: lockable_def)

lemma binit_bc:
  assumes "\<And>lk. lockable lk s" "unat (disksize s) * 512 \<le> length (memdisk s)"
    and "\<And>i. i < NBUF \<Longrightarrow> \<not> b_busy (bcache s i) \<and> \<not> b_valid (bcache s i) \<and> \<not> b_dirty (bcache s i) \<and>
      length (b_data (bcache s i)) = 512"
  shows "\<exists>t. binit s = Ret () t \<and> bc t (disk_block (memdisk s)) {} Map.empty t \<and> mru (bcache t) (rev [0..<NBUF]) \<and>
    memdisk t = memdisk s \<and> disksize t = disksize s \<and> (\<forall>i < NBUF. b_dev (bcache t i) = - 1) \<and>
    bio_state.more t = bio_state.more s"
proof -
  define s1 where "s1 = s\<lparr>locks := (locks s)(L_bcache := \<lparr>locked = 0, lk_name = ''bcache'', lk_cpu = None\<rparr>)\<rparr>"
  from kspecD_unit [OF binit_loop binit_start [of s1]] obtain t where
    t: "kforeach [0..<NBUF] binit_link (s1\<lparr>bcache := b_set_next NBUF NBUF (b_set_prev NBUF NBUF (bcache s1))\<rparr>) = Ret () t"
    and I: "binit_inv s1 NBUF t" by blast
  have s1: "bcache s1 = bcache s" "memdisk s1 = memdisk s" "disksize s1 = disksize s" by (simp_all add: s1_def)
  have st: "binit s = Ret () t" unfolding binit_eq using t unfolding s1 unfolding s1_def .
  have teq: "t = s1\<lparr>bcache := bcache t\<rparr>" using I by (simp only: binit_inv_def)
  have m: "mru (bcache t) (rev [0..<NBUF])" using I by (simp add: binit_inv_def mru_def)
  have f: "\<not> b_busy (bcache t i)" "\<not> b_valid (bcache t i)" "\<not> b_dirty (bcache t i)" "length (b_data (bcache t i)) = 512"
      "b_dev (bcache t i) = - 1" if "i < NBUF" for i
    using I assms(3) [OF that] that by (simp_all add: binit_inv_def s1)
  have d: "memdisk t = memdisk s" "disksize t = disksize s"
    using arg_cong [OF teq, of memdisk] arg_cong [OF teq, of disksize] by (simp_all add: s1)
  have "lockable lk s1" for lk unfolding s1_def using lockable_initlock [OF assms(1)] .
  then have l: "lockable lk t" for lk using arg_cong [OF teq, of "lockable lk"] by simp
  have ok: "cache_ok (memdisk s) (disksize s) (bcache t)" using assms(2) f by (simp add: cache_ok_def buf_ok_def)
  have v: "bview (memdisk s) (bcache t) n = disk_block (memdisk s) n" for n using f by (intro bview_uncached) blast
  have dh: "dirty_blocks (bcache t) = {}" "held (bcache t) = Map.empty"
    using f by (auto simp: dirty_blocks_def held_def fun_eq_iff)
  have "bc t (disk_block (memdisk s)) {} Map.empty t"
    unfolding bc_def using m ok v dh f l d by auto
  moreover have "bio_state.more t = bio_state.more s"
    using arg_cong [OF teq, of bio_state.more] by (simp add: s1_def)
  ultimately show ?thesis using st m d f(5) by blast
qed

text \<open>A block rewritten in place: \<^verbatim>\<open>bread\<close>, a change of the data, \<^verbatim>\<open>bwrite\<close>, \<^verbatim>\<open>brelse\<close>.\<close>

lemma rewrite_block:
  assumes "bc s0 V D H s" "n < disksize s0" "n \<notin> ran H" "card (D \<union> ran H) < NBUF" "length (f (V n)) = 512"
  shows "\<exists>t. kbind (bread 1 n) (\<lambda>b. kseq (set_data b f) (kseq (bwrite b) (brelse b))) s = Ret () t \<and>
    bc (s0\<lparr>memdisk := splice (unat n * 512) (f (V n)) (memdisk s0)\<rparr>) (V(n := f (V n))) (D - {n}) H t"
proof -
  let ?V = "V(n := f (V n))" and ?dsk = "splice (unat n * 512) (f (V n)) (memdisk s0)"
  let ?s0 = "s0\<lparr>memdisk := ?dsk\<rparr>"
  have fits: "unat n * 512 + 512 \<le> length (memdisk s0)"
    using bcD(5) [OF assms(1)] assms(2) by (simp add: cache_ok_def word_less_nat_alt)
  note blk = disk_block_splice [OF assms(5) fits]
  have "kspec {} (bc s0 V D H) (kbind (bread 1 n) (\<lambda>b. kseq (set_data b f) (kseq (bwrite b) (brelse b))))
      (\<lambda>_. bc ?s0 ?V (D - {n}) H)"
  proof (rule kspec_bind)
    show "kspec {} (bc s0 V D H) (bread 1 n) (\<lambda>b s. (b < NBUF \<and> H b = None) \<and> bc s0 V D (H(b \<mapsto> n)) s)"
      using bread_spec [OF assms(2,3), of D V] assms(4) by simp
    fix b
    show "kspec {} (\<lambda>s. (b < NBUF \<and> H b = None) \<and> bc s0 V D (H(b \<mapsto> n)) s)
        (kseq (set_data b f) (kseq (bwrite b) (brelse b))) (\<lambda>_. bc ?s0 ?V (D - {n}) H)"
    proof (rule kspec_pure, rule kspec_seq, rule set_data_spec [of _ b n], simp, rule assms(5), rule kspec_seq)
      assume b: "b < NBUF \<and> H b = None"
      show "kspec {} (bc s0 ?V D (H(b \<mapsto> n))) (bwrite b) (\<lambda>_. bc ?s0 ?V (D - {n}) (H(b \<mapsto> n)))"
        using bwrite_spec [of "H(b \<mapsto> n)" b n s0 ?V D] by simp
      have "kspec {} (bc ?s0 ?V (D - {n}) (H(b \<mapsto> n))) (brelse b) (\<lambda>_. bc ?s0 ?V (D - {n}) ((H(b \<mapsto> n))(b := None)))"
        by (rule brelse_spec [of _ b n]) (simp_all add: blk)
      moreover have "(H(b \<mapsto> n))(b := None) = H" using b by auto
      ultimately show "kspec {} (bc ?s0 ?V (D - {n}) (H(b \<mapsto> n))) (brelse b) (\<lambda>_. bc ?s0 ?V (D - {n}) H)" by simp
    qed
  qed
  from kspecD_unit [OF this assms(1)] obtain t where
    r: "kbind (bread 1 n) (\<lambda>b. kseq (set_data b f) (kseq (bwrite b) (brelse b))) s = Ret () t"
    and t: "bc ?s0 ?V (D - {n}) H t" by blast
  then show ?thesis by blast
qed

section \<open>Properties\<close>

text \<open>
  C15: \<^verbatim>\<open>binit\<close> links the zeroed buffers into a well-formed list and establishes the cache's invariant: the
  cache shows exactly the disk, nothing is held and nothing is waiting to be written.
\<close>

theorem binit_establishes:
  assumes "\<forall>lk. lockable lk s" "unat (disksize s) * 512 \<le> length (memdisk s)"
    and "\<forall>i < NBUF. \<not> b_busy (bcache s i) \<and> \<not> b_valid (bcache s i) \<and> \<not> b_dirty (bcache s i) \<and>
      length (b_data (bcache s i)) = 512"
  shows "\<exists>t. binit s = Ret () t \<and> bc t (disk_block (memdisk s)) {} Map.empty t \<and> mru (bcache t) (rev [0..<NBUF])"
  using binit_bc [of s] assms by blast

definition bio_zero :: "u8 list \<Rightarrow> 'a \<Rightarrow> 'a bio_state_scheme" where
  "bio_zero dsk m =
     \<lparr>mycpu = 0, cpus = (\<lambda>_. boot_cpu), locks = (\<lambda>_. \<lparr>locked = 0, lk_name = [], lk_cpu = None\<rparr>),
      ptable = [], nextpid = 1, initproc = None, mem = (\<lambda>_. 0), kend = 0x80108000, use_lock = True, freelist = 0,
      bcache = (\<lambda>_. \<lparr>b_busy = False, b_valid = False, b_dirty = False, b_dev = 0, b_sector = 0, b_prev = 0,
        b_next = 0, b_data = replicate 512 0\<rparr>),
      memdisk = dsk, disksize = of_nat (length dsk) div 512, \<dots> = m\<rparr>"

definition bio_boot :: "u8 list \<Rightarrow> 'a \<Rightarrow> 'a bio_state_scheme" where
  "bio_boot dsk m = (case binit (bio_zero dsk m) of Ret u t \<Rightarrow> t | _ \<Rightarrow> bio_zero dsk m)"

lemma bio_zero_lockable: "lockable lk (bio_zero dsk m)"
  by (simp add: bio_zero_def lockable_def boot_cpu_def)

lemma bio_boot_bc:
  assumes "length dsk = k * 512" "k < 8388608"
  shows "bc (bio_boot dsk m) (disk_block dsk) {} Map.empty (bio_boot dsk m)" "disksize (bio_boot dsk m) = of_nat k"
    "mru (bcache (bio_boot dsk m)) (rev [0..<NBUF])" "memdisk (bio_boot dsk m) = dsk"
    "\<forall>i < NBUF. b_dev (bcache (bio_boot dsk m) i) = - 1" "bio_state.more (bio_boot dsk m) = m"
proof -
  have k: "(of_nat (k * 512) :: u32) div 512 = of_nat k"
  proof -
    have "unat (of_nat (k * 512) :: u32) = k * 512" using assms(2) by (intro unat_of_nat_u32) simp
    then show ?thesis using assms(2) by (simp add: word_unat_eq_iff unat_div del: of_nat_mult)
  qed
  have "\<exists>t. binit (bio_zero dsk m) = Ret () t \<and> bc t (disk_block (memdisk (bio_zero dsk m))) {} Map.empty t \<and>
      mru (bcache t) (rev [0..<NBUF]) \<and> memdisk t = memdisk (bio_zero dsk m) \<and> disksize t = disksize (bio_zero dsk m) \<and>
      (\<forall>i < NBUF. b_dev (bcache t i) = - 1) \<and> bio_state.more t = bio_state.more (bio_zero dsk m)"
  proof (rule binit_bc)
    show "unat (disksize (bio_zero dsk m)) * 512 \<le> length (memdisk (bio_zero dsk m))"
      using k assms by (simp add: bio_zero_def unat_of_nat)
  qed (simp_all add: bio_zero_lockable, simp_all add: bio_zero_def)
  then show "bc (bio_boot dsk m) (disk_block dsk) {} Map.empty (bio_boot dsk m)" "disksize (bio_boot dsk m) = of_nat k"
      "mru (bcache (bio_boot dsk m)) (rev [0..<NBUF])" "memdisk (bio_boot dsk m) = dsk"
      "\<forall>i < NBUF. b_dev (bcache (bio_boot dsk m) i) = - 1" "bio_state.more (bio_boot dsk m) = m"
    using assms k by (auto simp: bio_boot_def) (simp_all add: bio_zero_def)
qed

theorem binit_establishes_witness:
  "\<exists>t. binit (bio_zero (replicate 1024 7) ()) = Ret () t \<and> mru (bcache t) (rev [0..<NBUF])"
  using binit_establishes [of "bio_zero (replicate 1024 7) ()"] bio_zero_lockable [of _ "replicate 1024 7" "()"]
  by (auto simp: bio_zero_def)

text \<open>
  C5: Reading a block through the cache gives its current contents, whether it comes from the cache or
  from the disk: with a buffer to spare and the block not held, \<^verbatim>\<open>bread\<close> returns a held buffer with the
  block's data, evicts nothing that still has to be written, and changes no block.
\<close>

theorem bread_coherent:
  assumes "bc s0 V D H s" "n < disksize s0" "n \<notin> ran H" "card (D \<union> ran H) < NBUF"
  shows "\<exists>b t. bread 1 n s = Ret b t \<and> b_busy (bcache t b) \<and> b_data (bcache t b) = V n \<and> bc s0 V D (H(b \<mapsto> n)) t"
proof -
  have "kspec {} (bc s0 V D H) (bread 1 n) (\<lambda>b s. b < NBUF \<and> H b = None \<and> bc s0 V D (H(b \<mapsto> n)) s)"
    using bread_spec [OF assms(2,3), of D V] assms(4) by simp
  from kspecD_total [OF this assms(1)] obtain b t
    where r: "bread 1 n s = Ret b t" and t: "bc s0 V D (H(b \<mapsto> n)) t" by blast
  then show ?thesis using bc_held [OF t, of b n] bc_data [OF t, of b n] by auto
qed

theorem bread_coherent_witness:
  "\<exists>b t. bread 1 1 (bio_boot (replicate 512 3 @ replicate 512 7) ()) = Ret b t \<and> b_data (bcache t b) = replicate 512 7"
proof -
  let ?dsk = "replicate 512 3 @ replicate 512 7 :: u8 list"
  have "disk_block ?dsk 1 = replicate 512 7" by (simp add: disk_block_def slice_def)
  then show ?thesis using bread_coherent [OF bio_boot_bc(1), of ?dsk 2 1 "()"] bio_boot_bc(2) [of ?dsk 2 "()"] by auto
qed

text \<open>
  C14: The read, modify, write, release cycle on a block brings the change to the disk and to every
  later reader, and to no other block.
\<close>

theorem bio_write_through:
  assumes "bc s0 V D H s" "n < disksize s0" "n \<notin> ran H" "card (D \<union> ran H) < NBUF" "length (f (V n)) = 512"
  shows "\<exists>t. kbind (bread 1 n) (\<lambda>b. kseq (set_data b f) (kseq (bwrite b) (brelse b))) s = Ret () t \<and>
    disk_block (memdisk t) n = f (V n) \<and> (\<forall>m. m \<noteq> n \<longrightarrow> disk_block (memdisk t) m = disk_block (memdisk s) m) \<and>
    bc (s0\<lparr>memdisk := memdisk t\<rparr>) (V(n := f (V n))) (D - {n}) H t"
proof -
  from rewrite_block [of s0 V D H s n f, OF assms] obtain t
    where r: "kbind (bread 1 n) (\<lambda>b. kseq (set_data b f) (kseq (bwrite b) (brelse b))) s = Ret () t"
      and t: "bc (s0\<lparr>memdisk := splice (unat n * 512) (f (V n)) (memdisk s0)\<rparr>) (V(n := f (V n))) (D - {n}) H t" by blast
  have "unat n * 512 + 512 \<le> length (memdisk s0)"
    using bcD(5) [OF assms(1)] assms(2) by (simp add: cache_ok_def word_less_nat_alt)
  note blk = disk_block_splice [OF assms(5) this]
  have "memdisk t = splice (unat n * 512) (f (V n)) (memdisk s0)" using bc_rest [OF t] by simp
  then show ?thesis using r t blk bc_rest [OF assms(1)] by (intro exI [of _ t]) simp
qed

theorem bio_write_through_witness:
  "\<exists>t. kbind (bread 1 1) (\<lambda>b. kseq (set_data b (\<lambda>_. replicate 512 9)) (kseq (bwrite b) (brelse b)))
      (bio_boot (replicate 1024 7) ()) = Ret () t \<and> disk_block (memdisk t) 1 = replicate 512 9"
  using bio_write_through [OF bio_boot_bc(1), of "replicate 1024 7" 2 1 "()" "\<lambda>_. replicate 512 9"]
    bio_boot_bc(2) [of "replicate 1024 7" 2 "()"] by auto

text \<open>
  C13: The linked list implements least-recently-used replacement: giving a buffer back moves it to the
  front, and a block that is not cached takes the buffer that is last in that order among those
  neither held nor waiting to be written; \<^verbatim>\<open>bget\<close> panics exactly when there is none.
\<close>

theorem bcache_lru:
  assumes "mru (bcache s) xs" "\<forall>lk. lockable lk s" "b < NBUF" "b_busy (bcache s b)"
    and "\<forall>i < NBUF. \<not> (b_dev (bcache s i) = dev \<and> b_sector (bcache s i) = n)"
  shows "(\<exists>t. brelse b s = Ret () t \<and> mru (bcache t) (b # remove1 b xs)) \<and>
    (case find (\<lambda>i. \<not> b_busy (bcache s i) \<and> \<not> b_dirty (bcache s i)) (rev xs) of
       None \<Rightarrow> bget dev n s = Panic ''bget: no buffers''
     | Some c \<Rightarrow> \<exists>t. bget dev n s = Ret c t \<and> mru (bcache t) xs \<and> b_sector (bcache t c) = n)"
proof -
  have "find (\<lambda>i. b_dev (bcache s i) = dev \<and> b_sector (bcache s i) = n) xs = None"
    using assms(5) unfolding find_rev_mru(2) [OF assms(1)] .
  note g = bget_miss [OF _ assms(1) this]
  have "mru ((relink b (bcache s))(b := (relink b (bcache s) b)\<lparr>b_busy := False\<rparr>)) (b # remove1 b xs)"
    using relink_mru [OF assms(1,3)] by simp
  then show ?thesis using g brelse_eq [of s b] assms(1,2,4) by (simp split: option.splits)
qed

definition bio_held :: bio_state where
  "bio_held = (let s = bio_boot (replicate 1024 7) () in s\<lparr>bcache := (bcache s)(3 := (bcache s 3)\<lparr>b_busy := True\<rparr>)\<rparr>)"

theorem bcache_lru_witness:
  "\<exists>t. brelse 3 bio_held = Ret () t \<and> mru (bcache t) (3 # remove1 3 (rev [0..<NBUF]))"
proof -
  let ?s = "bio_boot (replicate 1024 7) ()"
  have "lockable lk bio_held" for lk
    using bcD(3) [OF bio_boot_bc(1), of "replicate 1024 7" 2] by (simp add: bio_held_def Let_def)
  then show ?thesis
    using bcache_lru [of bio_held "rev [0..<NBUF]" 3 1 0] bio_boot_bc(3,5) [of "replicate 1024 7" 2 "()"]
    by (simp add: bio_held_def Let_def)
qed

end
