(* ===== verification/Layout.thy ===== *)
theory Layout
  imports Params
begin

text \<open>
  The structures of the on-disk file system (\<^verbatim>\<open>fs.h\<close>) and of the log header (\<^verbatim>\<open>log.c\<close>), with their layout
  in bytes: \<^verbatim>\<open>superblock\<close>, \<^verbatim>\<open>dinode\<close>, \<^verbatim>\<open>dirent\<close>. Each layout is shown to be a \<open>codec\<close>, from which the laws
  of arrays of inodes and directory entries in a block follow. A \<^verbatim>\<open>short\<close> is kept as its 16 bits.
\<close>

lemma slice_append: "slice a m bs @ slice (a + m) n bs = slice a (m + n) bs"
  by (simp add: slice_def take_add add.commute)

lemma slice_append2: "slice 0 2 bs @ slice 2 n bs = slice 0 (2 + n) bs"
  using slice_append [of 0 2 bs n] by (simp only: add_0)

lemma slice_all: "length bs = n \<Longrightarrow> slice 0 n bs = bs"
  by (simp add: slice_def)

lemma slice_prefix: "length xs = n \<Longrightarrow> slice 0 n (xs @ ys) = xs"
  by (simp add: slice_def)

lemma slice_skip: "length xs \<le> off \<Longrightarrow> slice off n (xs @ ys) = slice (off - length xs) n ys"
  by (simp add: slice_def)

section \<open>The super block\<close>

record superblock =
  sb_size :: u32
  sb_nblocks :: u32
  sb_ninodes :: u32
  sb_nlog :: u32

definition enc_sb :: "superblock \<Rightarrow> u8 list" where
  "enc_sb sb = le32 (sb_size sb) @ le32 (sb_nblocks sb) @ le32 (sb_ninodes sb) @ le32 (sb_nlog sb)"

definition dec_sb :: "u8 list \<Rightarrow> superblock" where
  "dec_sb bs = \<lparr>sb_size = un_le32 (slice 0 4 bs), sb_nblocks = un_le32 (slice 4 4 bs),
     sb_ninodes = un_le32 (slice 8 4 bs), sb_nlog = un_le32 (slice 12 4 bs)\<rparr>"

interpretation sbc: codec enc_sb dec_sb 16 "\<lambda>_. True"
proof
  fix x :: superblock and bs :: "u8 list"
  show "length (enc_sb x) = 16" by (simp add: enc_sb_def)
  show "dec_sb (enc_sb x) = x" by (simp add: enc_sb_def dec_sb_def slice_prefix slice_skip slice_all)
  show "enc_sb (dec_sb bs) = bs" if "length bs = 16"
    using that slice_append [of 0 4 bs 4] slice_append [of 0 8 bs 4] slice_append [of 0 12 bs 4] slice_all [OF that]
    by (simp add: enc_sb_def dec_sb_def le32_un_le32 append_assoc [symmetric] del: append_assoc)
qed simp

section \<open>Inodes\<close>

record dinode =
  d_type :: u16
  d_major :: u16
  d_minor :: u16
  d_nlink :: u16
  d_size :: u32
  d_addrs :: "u32 list"

definition dinode_wf :: "dinode \<Rightarrow> bool" where
  "dinode_wf d \<longleftrightarrow> length (d_addrs d) = NDIRECT + 2"

definition enc_dinode :: "dinode \<Rightarrow> u8 list" where
  "enc_dinode d = le16 (d_type d) @ le16 (d_major d) @ le16 (d_minor d) @ le16 (d_nlink d) @
     le32 (d_size d) @ le32s (d_addrs d)"

definition dec_dinode :: "u8 list \<Rightarrow> dinode" where
  "dec_dinode bs = \<lparr>d_type = un_le16 (slice 0 2 bs), d_major = un_le16 (slice 2 2 bs),
     d_minor = un_le16 (slice 4 2 bs), d_nlink = un_le16 (slice 6 2 bs), d_size = un_le32 (slice 8 4 bs),
     d_addrs = un_le32s (NDIRECT + 2) (slice 12 52 bs)\<rparr>"

interpretation dic: codec enc_dinode dec_dinode 64 dinode_wf
proof
  fix x :: dinode and bs :: "u8 list"
  show "length (enc_dinode x) = 64" if "dinode_wf x" using that by (simp add: enc_dinode_def dinode_wf_def)
  show "dec_dinode (enc_dinode x) = x" if "dinode_wf x"
    using that un_le32s_le32s [of "d_addrs x"]
    by (simp add: enc_dinode_def dec_dinode_def dinode_wf_def slice_prefix slice_skip slice_all)
  show "enc_dinode (dec_dinode bs) = bs" if "length bs = 64"
    using that slice_append2 [of bs 2] slice_append [of 0 4 bs 2] slice_append [of 0 6 bs 2]
      slice_append [of 0 8 bs 4] slice_append [of 0 12 bs 52] slice_all [OF that]
    by (simp add: enc_dinode_def dec_dinode_def le16_un_le16 le32_un_le32 le32s_un_le32s
        append_assoc [symmetric] del: append_assoc)
  show "dinode_wf (dec_dinode bs)" if "length bs = 64" by (simp add: dinode_wf_def dec_dinode_def)
qed

section \<open>Directory entries\<close>

record dirent =
  de_inum :: u16
  de_name :: "u8 list"

definition dirent_wf :: "dirent \<Rightarrow> bool" where
  "dirent_wf d \<longleftrightarrow> length (de_name d) = DIRSIZ"

definition enc_dirent :: "dirent \<Rightarrow> u8 list" where
  "enc_dirent d = le16 (de_inum d) @ de_name d"

definition dec_dirent :: "u8 list \<Rightarrow> dirent" where
  "dec_dirent bs = \<lparr>de_inum = un_le16 (slice 0 2 bs), de_name = slice 2 14 bs\<rparr>"

interpretation dent: codec enc_dirent dec_dirent 16 dirent_wf
proof
  fix x :: dirent and bs :: "u8 list"
  show "length (enc_dirent x) = 16" if "dirent_wf x" using that by (simp add: enc_dirent_def dirent_wf_def)
  show "dec_dirent (enc_dirent x) = x" if "dirent_wf x"
    using that by (simp add: enc_dirent_def dec_dirent_def dirent_wf_def slice_prefix slice_skip slice_all)
  show "enc_dirent (dec_dirent bs) = bs" if "length bs = 16"
    using that slice_append2 [of bs 14] slice_all [OF that]
    by (simp add: enc_dirent_def dec_dirent_def le16_un_le16)
  show "dirent_wf (dec_dirent bs)" if "length bs = 16" using that by (simp add: dirent_wf_def dec_dirent_def)
qed

section \<open>Properties\<close>



end
