(* ===== verification/Log.thy ===== *)
theory Log
  imports Bio Layout
begin

text \<open>
  The write-ahead log (\<^verbatim>\<open>log.c\<close>) over the buffer cache: \<^verbatim>\<open>initlog\<close>, \<^verbatim>\<open>begin_trans\<close>, \<^verbatim>\<open>log_write\<close>,
  \<^verbatim>\<open>commit_trans\<close>, \<^verbatim>\<open>install_trans\<close>, \<^verbatim>\<open>read_head\<close>, \<^verbatim>\<open>write_head\<close>, \<^verbatim>\<open>recover_from_log\<close>, and \<^verbatim>\<open>readsb\<close> of
  \<^verbatim>\<open>fs.c\<close>, which \<^verbatim>\<open>initlog\<close> calls. Commit is shown to bring the disk up to date; recovery is shown not to
  change any block outside the log.
\<close>

section \<open>State\<close>

record log_state = bio_state +
  log_start :: u32
  log_size :: int
  log_busy :: bool
  log_dev :: u32
  lh_n :: int
  lh_sector :: "u32 list"

abbreviation buf_data :: "nat \<Rightarrow> 'a bio_state_scheme \<Rightarrow> u8 list" where
  "buf_data b s \<equiv> b_data (bcache s b)"

lemma hw_frame_log [simp]:
  "acq lk (s\<lparr>log_busy := x\<rparr>) = (acq lk s)\<lparr>log_busy := x\<rparr>" "log_busy (acq lk s) = log_busy s"
  "lockable lk (s\<lparr>log_busy := x\<rparr>) = lockable lk s" "lh_n (acq lk s) = lh_n s" "lh_sector (acq lk s) = lh_sector s"
  "lockable lk (s\<lparr>lh_n := n\<rparr>) = lockable lk s" "lockable lk (s\<lparr>lh_sector := l\<rparr>) = lockable lk s"
  "lockable lk (s\<lparr>log_start := a\<rparr>) = lockable lk s" "lockable lk (s\<lparr>log_size := i\<rparr>) = lockable lk s"
  "lockable lk (s\<lparr>log_dev := a\<rparr>) = lockable lk s"
  by (simp_all add: acq_def lockable_def)

lemma release_frame_log [simp]:
  "lockable lk s \<Longrightarrow> release lk ((acq lk s)\<lparr>log_busy := x\<rparr>) = Ret () (s\<lparr>log_busy := x\<rparr>)"
  "lockable lk s \<Longrightarrow> release lk ((acq lk s)\<lparr>log_busy := x, ptable := p\<rparr>) = Ret () (s\<lparr>log_busy := x, ptable := p\<rparr>)"
  using release_acq [of lk "s\<lparr>log_busy := x\<rparr>"] release_acq [of lk "s\<lparr>log_busy := x, ptable := p\<rparr>"] by simp_all

section \<open>Operations\<close>

definition readsb :: "u32 \<Rightarrow> ('a bio_state_scheme, superblock) kop" where
  "readsb dev = kbind (bread dev 1) (\<lambda>bp.
     kbind (kget (buf_data bp)) (\<lambda>d.
     kseq (brelse bp) (kret (dec_sb d))))"

definition install_one :: "nat \<Rightarrow> ('a log_state_scheme, unit) kop" where
  "install_one tail s =
     (if tail < LOGSIZE then
        kbind (bread (log_dev s) (log_start s + of_nat tail + 1)) (\<lambda>lbuf.
        kbind (bread (log_dev s) (lh_sector s ! tail)) (\<lambda>dbuf.
        kbind (kget (buf_data dbuf)) (\<lambda>d.
        kseq (set_data lbuf (\<lambda>_. d))
       (kseq (bwrite lbuf) (kseq (bwrite dbuf)
       (kseq (brelse lbuf) (brelse dbuf))))))) s
      else Fault)"

definition install_trans :: "('a log_state_scheme, unit) kop" where
  "install_trans = kbind (kget lh_n) (\<lambda>n. kforeach [0..<nat n] install_one)"

text \<open>
  The header as it is copied from a block. The loop of \<^verbatim>\<open>read_head\<close> writes \<^verbatim>\<open>log.lh.sector[i]\<close> for \<^verbatim>\<open>i < n\<close>, so
  a count above \<^verbatim>\<open>LOGSIZE\<close> overruns the array.
\<close>

definition hdr_count :: "u8 list \<Rightarrow> int" where
  "hdr_count d = sint (arr_get 4 un_le32 0 d)"

definition hdr_load :: "u8 list \<Rightarrow> 'a log_state_scheme \<Rightarrow> 'a log_state_scheme" where
  "hdr_load d s = s\<lparr>lh_n := hdr_count d,
     lh_sector := map (\<lambda>i. if int i < hdr_count d then arr_get 4 un_le32 (i + 1) d else lh_sector s ! i) [0..<LOGSIZE]\<rparr>"

definition read_head :: "('a log_state_scheme, unit) kop" where
  "read_head s = kbind (bread (log_dev s) (log_start s)) (\<lambda>b.
     kbind (kget (buf_data b)) (\<lambda>d.
     kseq (\<lambda>s. if hdr_count d > int LOGSIZE then Fault else Ret () (hdr_load d s))
      (brelse b))) s"

definition put_head :: "int \<Rightarrow> u32 list \<Rightarrow> u8 list \<Rightarrow> u8 list" where
  "put_head n secs d =
     fold (\<lambda>i d. arr_put 4 le32 (i + 1) (secs ! i) d) [0..<nat n] (arr_put 4 le32 0 (of_int n) d)"

definition write_head :: "('a log_state_scheme, unit) kop" where
  "write_head s = kbind (bread (log_dev s) (log_start s)) (\<lambda>b.
     kseq (set_data b (put_head (lh_n s) (lh_sector s)))
    (kseq (bwrite b) (brelse b))) s"

definition recover_from_log :: "('a log_state_scheme, unit) kop" where
  "recover_from_log = kseq read_head (kseq install_trans
     (kseq (kmod (\<lambda>s. s\<lparr>lh_n := 0\<rparr>)) write_head))"

definition initlog :: "('a log_state_scheme, unit) kop" where
  "initlog = kseq (initlock L_log ''log'')
     (kbind (readsb ROOTDEV) (\<lambda>sb.
      kseq (kmod (\<lambda>s. s\<lparr>log_start := sb_size sb - sb_nlog sb\<rparr>))
     (kseq (kmod (\<lambda>s. s\<lparr>log_size := sint (sb_nlog sb)\<rparr>))
     (kseq (kmod (\<lambda>s. s\<lparr>log_dev := ROOTDEV\<rparr>)) recover_from_log))))"

text \<open>\<^verbatim>\<open>begin_trans\<close> from the head of its loop on, with the log's lock held.\<close>

definition begin_trans_loop :: "('a log_state_scheme, unit) kop" where
  "begin_trans_loop s = (if log_busy s then sleep_retry Ch_log L_log s
     else kseq (kmod (\<lambda>s. s\<lparr>log_busy := True\<rparr>)) (release L_log) s)"

definition begin_trans :: "('a log_state_scheme, unit) kop" where
  "begin_trans = kseq (acquire L_log) begin_trans_loop"

definition begin_trans_resume :: "bool \<Rightarrow> ('a log_state_scheme, unit) kop" where
  "begin_trans_resume ie = kseq (sleep_resume ie L_log) begin_trans_loop"

definition commit_write :: "('a log_state_scheme, unit) kop" where
  "commit_write s = (if lh_n s > 0
     then kseq write_head (kseq install_trans (kseq (kmod (\<lambda>s. s\<lparr>lh_n := 0\<rparr>)) write_head)) s
     else Ret () s)"

definition commit_trans :: "('a log_state_scheme, unit) kop" where
  "commit_trans = kseq commit_write
     (kseq (acquire L_log) (kseq (kmod (\<lambda>s. s\<lparr>log_busy := False\<rparr>)) (kseq (wakeup Ch_log) (release L_log))))"

text \<open>The position at which \<^verbatim>\<open>log_write\<close> records the block: where it is already, or at the end.\<close>

definition log_slot :: "int \<Rightarrow> u32 list \<Rightarrow> u32 \<Rightarrow> nat" where
  "log_slot n secs x = (case first_slot (\<lambda>y. y = x) (take (nat n) secs) of Some i \<Rightarrow> i | None \<Rightarrow> nat n)"

definition log_write :: "nat \<Rightarrow> ('a log_state_scheme, unit) kop" where
  "log_write b = (\<lambda>s.
     if lh_n s \<ge> int LOGSIZE \<or> lh_n s \<ge> log_size s - 1 then Panic ''too big a transaction''
     else if \<not> log_busy s then Panic ''write outside of trans''
     else let x = b_sector (bcache s b); i = log_slot (lh_n s) (lh_sector s) x in
       kseq (kmod (\<lambda>s. s\<lparr>lh_sector := (lh_sector s)[i := x]\<rparr>))
      (kseq (kmod (\<lambda>s. s\<lparr>lh_n := (if int i = lh_n s then lh_n s + 1 else lh_n s)\<rparr>))
        (upd_buf b (\<lambda>y. y\<lparr>b_dirty := True\<rparr>))) s)"

section \<open>The log and the cache\<close>

lemma bc_log_fields:
  assumes "bc s0 V D H s"
  shows "log_start s = log_start s0" "log_size s = log_size s0" "log_busy s = log_busy s0" "log_dev s = log_dev s0"
    "lh_n s = lh_n s0" "lh_sector s = lh_sector s0"
  using arg_cong [OF bcD(1) [OF assms], of log_start] arg_cong [OF bcD(1) [OF assms], of log_size]
    arg_cong [OF bcD(1) [OF assms], of log_busy] arg_cong [OF bcD(1) [OF assms], of log_dev]
    arg_cong [OF bcD(1) [OF assms], of lh_n] arg_cong [OF bcD(1) [OF assms], of lh_sector] by simp_all

lemma bc_log_upd:
  assumes "bc s0 V D H s"
  shows "bc (s0\<lparr>lh_n := n\<rparr>) V D H (s\<lparr>lh_n := n\<rparr>)" "bc (s0\<lparr>lh_sector := l\<rparr>) V D H (s\<lparr>lh_sector := l\<rparr>)"
    "bc (s0\<lparr>log_busy := x\<rparr>) V D H (s\<lparr>log_busy := x\<rparr>)" "bc (s0\<lparr>log_start := a\<rparr>) V D H (s\<lparr>log_start := a\<rparr>)"
    "bc (s0\<lparr>log_size := i\<rparr>) V D H (s\<lparr>log_size := i\<rparr>)" "bc (s0\<lparr>log_dev := a\<rparr>) V D H (s\<lparr>log_dev := a\<rparr>)"
  by (rule bc_frame_upd [OF assms]; simp)+

text \<open>The sectors of the current transaction.\<close>

definition logged :: "'a log_state_scheme \<Rightarrow> u32 list" where
  "logged s = take (nat (lh_n s)) (lh_sector s)"

definition log_wf :: "'a log_state_scheme \<Rightarrow> bool" where
  "log_wf s \<longleftrightarrow> 0 \<le> lh_n s \<and> lh_n s \<le> int LOGSIZE \<and> length (lh_sector s) = LOGSIZE \<and> distinct (logged s) \<and> log_dev s = 1"

definition log_add :: "u32 \<Rightarrow> 'a log_state_scheme \<Rightarrow> 'a log_state_scheme" where
  "log_add x s = (let i = log_slot (lh_n s) (lh_sector s) x in
     s\<lparr>lh_sector := (lh_sector s)[i := x], lh_n := (if int i = lh_n s then lh_n s + 1 else lh_n s)\<rparr>)"

lemma bc_V_length: "bc s0 V D H s \<Longrightarrow> n < disksize s0 \<Longrightarrow> length (V n) = 512"
proof -
  assume bc: "bc s0 V D H s" and n: "n < disksize s0"
  have "length (bview (memdisk s0) (bcache s) n) = 512"
    using length_disk_block [OF bcD(5) [OF bc] n] cache_okD(1) [OF bcD(5) [OF bc]]
    by (auto simp: bview_def find_Some_iff split: option.split)
  then show ?thesis using bcD(6) [OF bc n] by simp
qed

lemma log_add_spec:
  assumes "log_wf s" "lh_n s < int LOGSIZE"
  shows "log_wf (log_add x s)"
    "logged (log_add x s) = (if x \<in> set (logged s) then logged s else logged s @ [x])"
    "lh_n (log_add x s) = (if x \<in> set (logged s) then lh_n s else lh_n s + 1)"
proof -
  obtain k where k: "lh_n s = int k" "k < LOGSIZE" using assms by (auto simp: log_wf_def dest: zero_le_imp_eq_int)
  have len: "length (lh_sector s) = LOGSIZE" "distinct (take k (lh_sector s))" "log_dev s = 1"
    using assms(1) k by (simp_all add: log_wf_def logged_def)
  have *: "logged s = take k (lh_sector s)" by (simp add: logged_def k)
  have "log_wf (log_add x s) \<and> logged (log_add x s) = (if x \<in> set (logged s) then logged s else logged s @ [x]) \<and>
      lh_n (log_add x s) = (if x \<in> set (logged s) then lh_n s else lh_n s + 1)"
  proof (cases "first_slot (\<lambda>y. y = x) (take k (lh_sector s))")
    case None
    then have x: "x \<notin> set (logged s)" unfolding * first_slot_None by blast
    have "take (Suc k) ((lh_sector s)[k := x]) = take k (lh_sector s) @ [x]"
      using k(2) len(1) by (simp add: take_Suc_conv_app_nth)
    moreover have "log_slot (lh_n s) (lh_sector s) x = k" using None by (simp add: log_slot_def k)
    moreover have "nat (1 + int k) = Suc k" by simp
    ultimately show ?thesis using x k len unfolding *
      by (simp add: log_add_def log_wf_def logged_def Let_def add.commute)
  next
    case (Some i)
    then have i: "i < k" "lh_sector s ! i = x" using first_slot_SomeD [OF Some] len(1) k(2) by auto
    then have "x \<in> set (logged s)" unfolding * using len(1) k(2) by (metis in_set_conv_nth length_take min.absorb4 nth_take)
    moreover have "(lh_sector s)[i := x] = lh_sector s" using i(2) by (metis list_update_id)
    moreover have "log_slot (lh_n s) (lh_sector s) x = i" using Some by (simp add: log_slot_def k)
    ultimately show ?thesis using assms(1) i k unfolding *
      by (simp add: log_add_def Let_def log_wf_def logged_def)
  qed
  then show "log_wf (log_add x s)"
    "logged (log_add x s) = (if x \<in> set (logged s) then logged s else logged s @ [x])"
    "lh_n (log_add x s) = (if x \<in> set (logged s) then lh_n s else lh_n s + 1)" by simp_all
qed

lemma log_write_spec:
  assumes "H b = Some n" "log_busy s0"
  shows "kspec (if lh_n s0 < int LOGSIZE \<and> lh_n s0 < log_size s0 - 1 then {} else {''too big a transaction''})
    (bc s0 V D H) (log_write b) (\<lambda>_. bc (log_add n s0) V (insert n D) H)"
proof (rule kspecI)
  fix s assume bc: "bc s0 V D H s"
  let ?i = "log_slot (lh_n s0) (lh_sector s0) n" and ?l = "(lh_sector s0)[log_slot (lh_n s0) (lh_sector s0) n := n]"
  let ?n = "if int ?i = lh_n s0 then lh_n s0 + 1 else lh_n s0"
  let ?t = "s\<lparr>lh_sector := ?l, lh_n := ?n\<rparr>"
  have "bc (s0\<lparr>lh_sector := ?l, lh_n := ?n\<rparr>) V D H ?t"
    by (intro bc_log_upd bc)
  then have bct: "bc (log_add n s0) V D H ?t" by (simp add: log_add_def Let_def)
  obtain u where u: "upd_buf b (\<lambda>x. x\<lparr>b_dirty := True\<rparr>) ?t = Ret () u" "bc (log_add n s0) V (insert n D) H u"
    using kspecD_unit [OF set_dirty_spec [of H b n, OF assms(1)] bct] by blast
  have "b_sector (bcache s b) = n" using bc_held [OF bc assms(1)] by simp
  then show "(\<exists>a t. log_write b s = Ret a t \<and> bc (log_add n s0) V (insert n D) H t) \<or>
    (\<exists>e \<in> if lh_n s0 < int LOGSIZE \<and> lh_n s0 < log_size s0 - 1 then {} else {''too big a transaction''}.
      log_write b s = Panic e)"
    using u assms(2) by (auto simp: log_write_def bc_log_fields [OF bc] Let_def kmod_def kseq_eq)
qed

lemma length_put_head:
  assumes "length d = 512" "n \<le> int LOGSIZE"
  shows "length (put_head n secs d) = 512"
proof -
  have *: "length (fold (\<lambda>i d. arr_put 4 le32 (i + 1) (secs ! i) d) is d') = 512"
    if "\<forall>i \<in> set is. i < LOGSIZE" "length d' = 512" for "is" d'
    using that by (induction "is" arbitrary: d') (simp_all add: u32c.length_put)
  show ?thesis unfolding put_head_def by (rule *) (use assms in \<open>auto simp: u32c.length_put\<close>)
qed

text \<open>A block rewritten in place, with nothing else held: \<^verbatim>\<open>bread\<close>, a change of the data, \<^verbatim>\<open>bwrite\<close>, \<^verbatim>\<open>brelse\<close>.\<close>

definition disk_set :: "u32 \<Rightarrow> u8 list \<Rightarrow> u8 list \<Rightarrow> u8 list" where
  "disk_set n x dsk = splice (unat n * 512) x dsk"

lemma disk_block_set:
  assumes "bc s0 V D H s" "n < disksize s0" "length x = 512"
  shows "disk_block (disk_set n x (memdisk s0)) m = (if m = n then x else disk_block (memdisk s0) m)"
  unfolding disk_set_def using assms bcD(5) [OF assms(1)]
  by (intro disk_block_splice) (simp_all add: cache_ok_def word_less_nat_alt)

lemma write_head_spec:
  assumes "log_wf s0" "log_start s0 < disksize s0" "log_start s0 \<notin> D" "card D < NBUF"
  shows "kspec {} (bc s0 V D Map.empty) write_head
    (\<lambda>_. bc (s0\<lparr>memdisk := disk_set (log_start s0) (put_head (lh_n s0) (lh_sector s0) (V (log_start s0))) (memdisk s0)\<rparr>)
       (V(log_start s0 := put_head (lh_n s0) (lh_sector s0) (V (log_start s0)))) D Map.empty)"
proof (rule kspecI_eq)
  fix s assume bc: "bc s0 V D Map.empty s"
  let ?n = "log_start s0" and ?f = "put_head (lh_n s0) (lh_sector s0)"
  have "length (?f (V ?n)) = 512"
    using assms(1) bc_V_length [OF bc assms(2)] by (simp add: length_put_head log_wf_def)
  then obtain t where t: "kbind (bread 1 ?n) (\<lambda>b. kseq (set_data b ?f) (kseq (bwrite b) (brelse b))) s = Ret () t"
      "bc (s0\<lparr>memdisk := disk_set ?n (?f (V ?n)) (memdisk s0)\<rparr>) (V(?n := ?f (V ?n))) (D - {?n}) Map.empty t"
    using rewrite_block [OF bc assms(2), of ?f] assms(4) unfolding disk_set_def by auto
  moreover have "write_head s = Ret () t"
    using t(1) assms(1) by (simp add: write_head_def bc_log_fields [OF bc] log_wf_def)
  ultimately show "\<exists>a t. write_head s = Ret a t \<and> bc (s0\<lparr>memdisk := disk_set ?n (?f (V ?n)) (memdisk s0)\<rparr>)
      (V(?n := ?f (V ?n))) D Map.empty t" using assms(3) by auto
qed

text \<open>
  One round of \<^verbatim>\<open>install_trans\<close>: the block's current contents go both to its slot in the log and to its
  home, after which it is no longer waiting to be written.
\<close>

lemma install_one_spec:
  assumes wf: "log_wf s0" "tail < LOGSIZE" and l: "l = log_start s0 + of_nat tail + 1" "l < disksize s0" "l \<notin> D"
    and h: "h = lh_sector s0 ! tail" "h < disksize s0" "h \<noteq> l"
    and room: "card D < NBUF" "h \<in> D \<or> Suc (card D) < NBUF" "finite D"
  shows "kspec {} (bc s0 V D Map.empty) (install_one tail)
    (\<lambda>_. bc (s0\<lparr>memdisk := disk_set h (V h) (disk_set l (V h) (memdisk s0))\<rparr>) (V(l := V h)) (D - {h}) Map.empty)"
proof (rule kspec_cong)
  let ?m = "kbind (bread 1 l) (\<lambda>lbuf. kbind (bread 1 h) (\<lambda>dbuf. kbind (kget (buf_data dbuf)) (\<lambda>d.
    kseq (set_data lbuf (\<lambda>_. d)) (kseq (bwrite lbuf) (kseq (bwrite dbuf) (kseq (brelse lbuf) (brelse dbuf)))))))"
  show "install_one tail s = ?m s" if "bc s0 V D Map.empty s" for s
    using wf l(1) h(1) by (simp add: install_one_def bc_log_fields [OF that] log_wf_def)
  let ?s1 = "s0\<lparr>memdisk := disk_set l (V h) (memdisk s0)\<rparr>"
  let ?s2 = "s0\<lparr>memdisk := disk_set h (V h) (disk_set l (V h) (memdisk s0))\<rparr>"
  let ?V = "V(l := V h)"
  show "kspec {} (bc s0 V D Map.empty) ?m (\<lambda>_. bc ?s2 ?V (D - {h}) Map.empty)"
  proof (rule kspec_bind)
    show "kspec {} (bc s0 V D Map.empty) (bread 1 l) (\<lambda>b s. bc s0 V D [b \<mapsto> l] s)"
      using bread_spec [OF l(2), of Map.empty D V] room(1) by (simp add: kspec_post)
    fix lb
    show "kspec {} (bc s0 V D [lb \<mapsto> l]) (kbind (bread 1 h) (\<lambda>dbuf. kbind (kget (buf_data dbuf)) (\<lambda>d.
      kseq (set_data lb (\<lambda>_. d)) (kseq (bwrite lb) (kseq (bwrite dbuf) (kseq (brelse lb) (brelse dbuf)))))))
      (\<lambda>_. bc ?s2 ?V (D - {h}) Map.empty)"
    proof (rule kspec_bind)
      have "card (D \<union> ran [lb \<mapsto> l]) < NBUF \<or> h \<in> D" using room l(3) by auto
      then show "kspec {} (bc s0 V D [lb \<mapsto> l]) (bread 1 h) (\<lambda>b s. b \<noteq> lb \<and> bc s0 V D [lb \<mapsto> l, b \<mapsto> h] s)"
        using bread_spec [OF h(2), of "[lb \<mapsto> l]" D V] h(3) by (auto elim!: kspec_post split: if_splits)
      fix db
      let ?H = "[lb \<mapsto> l, db \<mapsto> h]"
      show "kspec {} (\<lambda>s. db \<noteq> lb \<and> bc s0 V D ?H s) (kbind (kget (buf_data db)) (\<lambda>d.
        kseq (set_data lb (\<lambda>_. d)) (kseq (bwrite lb) (kseq (bwrite db) (kseq (brelse lb) (brelse db))))))
        (\<lambda>_. bc ?s2 ?V (D - {h}) Map.empty)"
      proof (rule kspec_pure, rule kspec_get_bind [where v = "V h"])
        assume ne: "db \<noteq> lb"
        show "buf_data db s = V h" if "bc s0 V D ?H s" for s using bc_data [OF that, of db h] by simp
        have fits: "length (V h) = 512 \<and> unat (disksize s0) * 512 \<le> length (memdisk s0)" if "bc s0 V D ?H s" for s
          using bc_V_length [OF that h(2)] bcD(5) [OF that] by (simp add: cache_ok_def)
        show "kspec {} (bc s0 V D ?H) (kseq (set_data lb (\<lambda>_. V h)) (kseq (bwrite lb) (kseq (bwrite db)
          (kseq (brelse lb) (brelse db))))) (\<lambda>_. bc ?s2 ?V (D - {h}) Map.empty)"
        proof (rule kspec_facts, rule fits, assumption)
          assume f: "length (V h) = 512 \<and> unat (disksize s0) * 512 \<le> length (memdisk s0)"
          then have le: "unat l * 512 + 512 \<le> length (memdisk s0)" "unat h * 512 + 512 \<le> length (memdisk s0)"
            using l(2) h(2) by (simp_all add: word_less_nat_alt)
          have blk: "disk_block (disk_set h (V h) (disk_set l (V h) (memdisk s0))) k =
              (if k = h \<or> k = l then V h else disk_block (memdisk s0) k)" for k
            using f le by (simp add: disk_set_def disk_block_splice)
          have 1: "kspec {} (bc s0 V D ?H) (set_data lb (\<lambda>_. V h)) (\<lambda>_. bc s0 ?V D ?H)"
            using set_data_spec [of ?H lb l "\<lambda>_. V h" V s0 D] f ne by simp
          have 2: "kspec {} (bc s0 ?V D ?H) (bwrite lb) (\<lambda>_. bc ?s1 ?V D ?H)"
            using bwrite_spec [of ?H lb l s0 ?V D] ne l(3) by (simp add: disk_set_def)
          have 3: "kspec {} (bc ?s1 ?V D ?H) (bwrite db) (\<lambda>_. bc ?s2 ?V (D - {h}) ?H)"
            using bwrite_spec [of ?H db h ?s1 ?V D] h(3) by (simp add: disk_set_def)
          have 4: "kspec {} (bc ?s2 ?V (D - {h}) ?H) (brelse lb) (\<lambda>_. bc ?s2 ?V (D - {h}) [db \<mapsto> h])"
            using brelse_spec [of ?H lb l "D - {h}" ?V ?s2] ne by (simp add: blk fun_upd_twist)
          have 5: "kspec {} (bc ?s2 ?V (D - {h}) [db \<mapsto> h]) (brelse db) (\<lambda>_. bc ?s2 ?V (D - {h}) Map.empty)"
            using brelse_spec [of "[db \<mapsto> h]" db h "D - {h}" ?V ?s2] h(3) by (simp add: blk)
          show ?thesis by (intro kspec_seq [OF 1] kspec_seq [OF 2] kspec_seq [OF 3] kspec_seq [OF 4] 5)
        qed
      qed
    qed
  qed
qed

text \<open>
  The blocks of the log, and what the log needs of its surroundings: it lies on the disk, the transaction
  fits in it, and the blocks of the transaction lie on the disk outside it.
\<close>

definition in_log :: "'a log_state_scheme \<Rightarrow> u32 \<Rightarrow> bool" where
  "in_log s n \<longleftrightarrow> log_start s \<le> n \<and> unat n < unat (log_start s) + nat (log_size s)"

definition log_fits :: "'a log_state_scheme \<Rightarrow> bool" where
  "log_fits s \<longleftrightarrow> log_wf s \<and> lh_n s < log_size s \<and>
     unat (log_start s) + nat (log_size s) \<le> unat (disksize s) \<and>
     (\<forall>h \<in> set (logged s). h < disksize s \<and> \<not> in_log s h)"

lemma log_fields_memdisk [simp]:
  "log_wf (s\<lparr>memdisk := x\<rparr>) = log_wf s" "in_log (s\<lparr>memdisk := x\<rparr>) = in_log s"
  "logged (s\<lparr>memdisk := x\<rparr>) = logged s" "log_fits (s\<lparr>memdisk := x\<rparr>) = log_fits s"
  by (simp_all add: log_wf_def in_log_def logged_def log_fits_def fun_eq_iff)

lemma log_slot_block:
  assumes "log_fits s" "int k < lh_n s"
  shows "log_start s + of_nat k + 1 < disksize s" "in_log s (log_start s + of_nat k + 1)"
    "log_start s + of_nat k + 1 \<noteq> log_start s"
proof -
  have "int k + 1 < log_size s" using assms by (simp add: log_fits_def)
  then have "Suc k < nat (log_size s)" by linarith
  then have b: "unat (log_start s) + k + 1 < unat (log_start s) + nat (log_size s)"
      "unat (log_start s) + nat (log_size s) \<le> unat (disksize s)"
    using assms by (simp_all add: log_fits_def)
  then have "unat (log_start s) + k + 1 < 4294967296" using u32_bound [of "disksize s"] by linarith
  then have u: "unat (log_start s + of_nat k + 1) = unat (log_start s) + k + 1"
    by (simp add: unat_word_ariths unat_of_nat)
  show "log_start s + of_nat k + 1 < disksize s" "in_log s (log_start s + of_nat k + 1)"
    using u b by (simp_all add: in_log_def word_less_nat_alt word_le_nat_alt)
  show "log_start s + of_nat k + 1 \<noteq> log_start s"
  proof
    assume "log_start s + of_nat k + 1 = log_start s"
    with u show False by simp
  qed
qed

lemma log_start_block: "log_fits s \<Longrightarrow> log_start s < disksize s \<and> in_log s (log_start s)"
  by (auto simp: log_fits_def in_log_def log_wf_def word_less_nat_alt)

lemma logged_nth:
  assumes "log_fits s" "int k < lh_n s"
  shows "k < length (logged s)" "logged s ! k = lh_sector s ! k" "lh_sector s ! k < disksize s"
    "\<not> in_log s (lh_sector s ! k)" "k < LOGSIZE" "lh_sector s ! k \<notin> set (take k (logged s))"
proof -
  have len: "length (lh_sector s) = LOGSIZE" "lh_n s \<le> int LOGSIZE" using assms(1) by (simp_all add: log_fits_def log_wf_def)
  then show k: "k < length (logged s)" "logged s ! k = lh_sector s ! k" "k < LOGSIZE"
    using assms(2) by (simp_all add: logged_def)
  then have "lh_sector s ! k \<in> set (logged s)" by (metis nth_mem)
  then show "lh_sector s ! k < disksize s" "\<not> in_log s (lh_sector s ! k)" using assms(1) by (simp_all add: log_fits_def)
  have "distinct (logged s)" using assms(1) by (simp add: log_fits_def log_wf_def)
  then show "lh_sector s ! k \<notin> set (take k (logged s))"
    unfolding k(2) [symmetric] using k(1) by (metis distinct_take id_take_nth_drop not_distinct_conv_prefix take_Suc_conv_app_nth)
qed

definition install_inv :: "'a log_state_scheme \<Rightarrow> (u32 \<Rightarrow> u8 list) \<Rightarrow> u32 set \<Rightarrow> nat \<Rightarrow> 'a log_state_scheme \<Rightarrow> bool" where
  "install_inv s0 V D k s \<longleftrightarrow> (\<exists>V' dsk. (\<forall>n. \<not> in_log s0 n \<longrightarrow> V' n = V n \<and>
       disk_block dsk n = (if n \<in> set (take k (logged s0)) then V n else disk_block (memdisk s0) n)) \<and>
     bc (s0\<lparr>memdisk := dsk\<rparr>) V' (D - set (take k (logged s0))) Map.empty s)"

lemma install_step:
  assumes fits: "log_fits s0" and k: "int k < lh_n s0" and D: "D = {} \<or> D = set (logged s0)" "card D < NBUF"
  shows "kspec {} (install_inv s0 V D k) (install_one k) (\<lambda>_. install_inv s0 V D (Suc k))"
  unfolding install_inv_def
proof (intro kspec_ex kspec_pure)
  fix V' dsk
  let ?l = "log_start s0 + of_nat k + 1" and ?h = "lh_sector s0 ! k" and ?D = "D - set (take k (logged s0))"
  let ?s = "s0\<lparr>memdisk := dsk\<rparr>" and ?dsk = "disk_set (lh_sector s0 ! k) (V' (lh_sector s0 ! k))
    (disk_set (log_start s0 + of_nat k + 1) (V' (lh_sector s0 ! k)) dsk)"
  assume I: "\<forall>n. \<not> in_log s0 n \<longrightarrow> V' n = V n \<and>
       disk_block dsk n = (if n \<in> set (take k (logged s0)) then V n else disk_block (memdisk s0) n)"
  note L = log_slot_block [OF fits k] and N = logged_nth [OF fits k]
  have ne: "?h \<noteq> ?l" using L(2) N(4) by auto
  have lD: "?l \<notin> D" using D(1) L(2) fits by (auto simp: log_fits_def)
  have fin: "finite D" using D(1) by auto
  have card: "card ?D < NBUF" using card_mono [OF fin, of ?D] D(2) by simp
  have room: "?h \<in> ?D \<or> Suc (card ?D) < NBUF" using D(1) N(1,2,6) nth_mem [OF N(1)] by auto
  have tk: "set (take (Suc k) (logged s0)) = insert ?h (set (take k (logged s0)))"
    using N(1,2) by (simp add: take_Suc_conv_app_nth)
  have *: "disk_block ?dsk n = (if n = ?h \<or> n = ?l then V' ?h else disk_block dsk n)"
    if "bc ?s V' ?D Map.empty s" for n s
  proof -
    have len: "length (V' ?h) = 512" using bc_V_length [OF that] N(3) by simp
    have "unat (disksize s0) * 512 \<le> length dsk" using bcD(5) [OF that] by (simp add: cache_ok_def)
    then have "unat ?l * 512 + 512 \<le> length dsk" "unat ?h * 512 + 512 \<le> length dsk"
      using L(1) N(3) by (simp_all add: word_less_nat_alt)
    then show ?thesis using len by (simp add: disk_set_def disk_block_splice)
  qed
  show "kspec {} (bc ?s V' ?D Map.empty) (install_one k) (\<lambda>_ s. \<exists>V' dsk. (\<forall>n. \<not> in_log s0 n \<longrightarrow> V' n = V n \<and>
       disk_block dsk n = (if n \<in> set (take (Suc k) (logged s0)) then V n else disk_block (memdisk s0) n)) \<and>
     bc (s0\<lparr>memdisk := dsk\<rparr>) V' (D - set (take (Suc k) (logged s0))) Map.empty s)"
  proof (rule kspec_facts [where A = "\<forall>n. disk_block ?dsk n = (if n = ?h \<or> n = ?l then V' ?h else disk_block dsk n)"])
    show "\<forall>n. disk_block ?dsk n = (if n = ?h \<or> n = ?l then V' ?h else disk_block dsk n)"
      if "bc ?s V' ?D Map.empty s" for s using * [OF that] by blast
    assume blk: "\<forall>n. disk_block ?dsk n = (if n = ?h \<or> n = ?l then V' ?h else disk_block dsk n)"
    have "kspec {} (bc ?s V' ?D Map.empty) (install_one k)
        (\<lambda>_. bc (s0\<lparr>memdisk := ?dsk\<rparr>) (V'(?l := V' ?h)) (?D - {?h}) Map.empty)"
      using install_one_spec [of ?s k ?l ?D ?h V'] fits L(1) N(3,5) lD ne card room fin
      by (simp add: log_fits_def)
    then show ?thesis
    proof (rule kspec_post)
      fix s assume bc: "bc (s0\<lparr>memdisk := ?dsk\<rparr>) (V'(?l := V' ?h)) (?D - {?h}) Map.empty s"
      have DD: "?D - {?h} = D - set (take (Suc k) (logged s0))" unfolding tk by auto
      have "\<forall>n. \<not> in_log s0 n \<longrightarrow> (V'(?l := V' ?h)) n = V n \<and>
          disk_block ?dsk n = (if n \<in> set (take (Suc k) (logged s0)) then V n else disk_block (memdisk s0) n)"
        unfolding tk using I blk L(2) N(4) by auto
      with bc show "\<exists>V' dsk. (\<forall>n. \<not> in_log s0 n \<longrightarrow> V' n = V n \<and>
          disk_block dsk n = (if n \<in> set (take (Suc k) (logged s0)) then V n else disk_block (memdisk s0) n)) \<and>
        bc (s0\<lparr>memdisk := dsk\<rparr>) V' (D - set (take (Suc k) (logged s0))) Map.empty s"
        unfolding DD by blast
    qed
  qed
qed

lemma install_trans_spec:
  assumes fits: "log_fits s0" and D: "D = {} \<or> D = set (logged s0)" "card D < NBUF"
  shows "kspec {} (bc s0 V D Map.empty) install_trans (\<lambda>_. install_inv s0 V D (nat (lh_n s0)))"
proof (rule kspec_cong)
  show "install_trans s = kforeach [0..<nat (lh_n s0)] install_one s" if "bc s0 V D Map.empty s" for s
    by (simp add: install_trans_def kget_def kbind_def bc_log_fields [OF that])
  have "kspec {} (install_inv s0 V D 0) (kforeach [0..<nat (lh_n s0)] install_one)
      (\<lambda>_. install_inv s0 V D (length [0..<nat (lh_n s0)]))"
    using install_step [OF fits _ D] by (intro kspec_foreach) simp
  then have "kspec {} (install_inv s0 V D 0) (kforeach [0..<nat (lh_n s0)] install_one)
      (\<lambda>_. install_inv s0 V D (nat (lh_n s0)))" by simp
  then show "kspec {} (bc s0 V D Map.empty) (kforeach [0..<nat (lh_n s0)] install_one)
      (\<lambda>_. install_inv s0 V D (nat (lh_n s0)))"
  proof (rule kspec_pre)
    fix s assume bc: "bc s0 V D Map.empty s"
    then have "bc (s0\<lparr>memdisk := memdisk s0\<rparr>) V (D - set (take 0 (logged s0))) Map.empty s" by simp
    then show "install_inv s0 V D 0 s" unfolding install_inv_def
      by (intro exI [of _ V] exI [of _ "memdisk s0"] conjI) simp_all
  qed
qed

text \<open>With nothing held, a block that is not waiting to be written is on the disk as it is seen.\<close>

lemma bc_clean:
  assumes bc: "bc s0 V D Map.empty s" and n: "n < disksize s0" "n \<notin> D"
  shows "disk_block (memdisk s0) n = V n"
proof -
  note ok = bcD(5) [OF bc]
  have nb: "\<not> b_busy (bcache s i)" if "i < NBUF" for i
    using that fun_cong [OF bcD(8) [OF bc], of i] by (simp add: held_def split: if_splits)
  have "bview (memdisk s0) (bcache s) n = disk_block (memdisk s0) n"
  proof (cases "\<exists>i < NBUF. b_valid (bcache s i) \<and> b_sector (bcache s i) = n")
    case True
    then obtain i where i: "i < NBUF" "b_valid (bcache s i)" "b_sector (bcache s i) = n" by blast
    have "\<not> b_dirty (bcache s i)"
      using n(2) i unfolding bcD(7) [OF bc, symmetric] dirty_blocks_def by blast
    then show ?thesis using bview_cached [OF ok i] cache_okD(4) [OF ok i(1,2)] nb i by simp
  qed (intro bview_uncached, blast)
  then show ?thesis using bcD(6) [OF bc n(1)] by simp
qed

text \<open>The disk as a commit leaves it, and the state of the log.\<close>

definition committed :: "'a log_state_scheme \<Rightarrow> (u32 \<Rightarrow> u8 list) \<Rightarrow> 'a log_state_scheme \<Rightarrow> bool" where
  "committed s0 V s \<longleftrightarrow> (\<exists>V' dsk. (\<forall>n < disksize s0. \<not> in_log s0 n \<longrightarrow> V' n = V n \<and> disk_block dsk n = V n) \<and>
     bc (s0\<lparr>lh_n := 0, memdisk := dsk\<rparr>) V' {} Map.empty s)"

lemma log_fits_erased: "log_fits s \<Longrightarrow> log_fits (s\<lparr>lh_n := 0\<rparr>)"
  by (auto simp: log_fits_def log_wf_def logged_def)

lemma disk_block_set_log:
  assumes "bc s1 V D H s" "m < disksize s1" "length x = 512" "n \<noteq> m"
  shows "disk_block (disk_set m x (memdisk s1)) n = disk_block (memdisk s1) n"
  using disk_block_set [OF assms(1-3), of n] assms(4) by simp

lemma erase_head:
  assumes fits: "log_fits s0" and D: "D = {} \<or> D = set (logged s0)" "card D < NBUF"
    and clean: "\<forall>n < disksize s0. \<not> in_log s0 n \<longrightarrow> n \<in> set (logged s0) \<or> disk_block (memdisk s0) n = V n"
  shows "kspec {} (install_inv s0 V D (nat (lh_n s0))) (kseq (kmod (\<lambda>s. s\<lparr>lh_n := 0\<rparr>)) write_head) (\<lambda>_. committed s0 V)"
  unfolding install_inv_def
proof (intro kspec_ex kspec_pure kspec_seq)
  fix V' dsk
  assume I: "\<forall>n. \<not> in_log s0 n \<longrightarrow> V' n = V n \<and>
       disk_block dsk n = (if n \<in> set (take (nat (lh_n s0)) (logged s0)) then V n else disk_block (memdisk s0) n)"
  let ?s1 = "s0\<lparr>memdisk := dsk, lh_n := 0\<rparr>"
  let ?hd = "put_head 0 (lh_sector s0) (V' (log_start s0))"
  have all: "set (take (nat (lh_n s0)) (logged s0)) = set (logged s0)" by (simp add: logged_def)
  have D0: "D - set (logged s0) = {}" using D(1) by auto
  show "kspec {} (bc (s0\<lparr>memdisk := dsk\<rparr>) V' (D - set (take (nat (lh_n s0)) (logged s0))) Map.empty)
      (kmod (\<lambda>s. s\<lparr>lh_n := 0\<rparr>)) (\<lambda>_. bc ?s1 V' {} Map.empty)"
    unfolding all D0 by (intro kspec_mod bc_log_upd(1))
  have fits1: "log_fits ?s1" using log_fits_erased [of "s0\<lparr>memdisk := dsk\<rparr>"] fits by simp
  note ls = log_start_block [OF fits]
  have hd: "disk_block (disk_set (log_start s0) ?hd dsk) n = disk_block dsk n"
    if "bc ?s1 V' {} Map.empty s" "n \<noteq> log_start s0" for n s
    using disk_block_set_log [OF that(1), of "log_start s0" ?hd n] that ls bc_V_length [OF that(1), of "log_start s0"]
      length_put_head [of "V' (log_start s0)" 0] by simp
  have "kspec {} (bc ?s1 V' {} Map.empty) write_head
      (\<lambda>_. bc (?s1\<lparr>memdisk := disk_set (log_start s0) ?hd dsk\<rparr>) (V'(log_start s0 := ?hd)) {} Map.empty)"
    using write_head_spec [of ?s1 "{}" V'] fits1 ls by (simp add: log_fits_def)
  note w = this
  show "kspec {} (bc ?s1 V' {} Map.empty) write_head (\<lambda>_. committed s0 V)"
  proof (rule kspec_facts [where A = "\<forall>n. n \<noteq> log_start s0 \<longrightarrow> disk_block (disk_set (log_start s0) ?hd dsk) n = disk_block dsk n"])
    show "\<forall>n. n \<noteq> log_start s0 \<longrightarrow> disk_block (disk_set (log_start s0) ?hd dsk) n = disk_block dsk n"
      if "bc ?s1 V' {} Map.empty s" for s using hd [OF that] by blast
    assume blk: "\<forall>n. n \<noteq> log_start s0 \<longrightarrow> disk_block (disk_set (log_start s0) ?hd dsk) n = disk_block dsk n"
    show ?thesis
    proof (rule kspec_post [OF w])
      fix s assume bc: "bc (?s1\<lparr>memdisk := disk_set (log_start s0) ?hd dsk\<rparr>) (V'(log_start s0 := ?hd)) {} Map.empty s"
      have "(V'(log_start s0 := ?hd)) n = V n \<and> disk_block (disk_set (log_start s0) ?hd dsk) n = V n"
        if "n < disksize s0" "\<not> in_log s0 n" for n
      proof -
        have "n \<noteq> log_start s0" using that(2) ls by auto
        then show ?thesis using that I clean blk unfolding all by auto
      qed
      with bc show "committed s0 V s" unfolding committed_def
        by (intro exI [of _ "V'(log_start s0 := ?hd)"] exI [of _ "disk_set (log_start s0) ?hd dsk"]) simp
    qed
  qed
qed

lemma write_head_keeps:
  assumes fits: "log_fits s0" and D: "D = {} \<or> D = set (logged s0)" "card D < NBUF"
  shows "kspec {} (bc s0 V D Map.empty) write_head
    (\<lambda>_ s. \<exists>V' dsk. (\<forall>n. \<not> in_log s0 n \<longrightarrow> V' n = V n \<and> disk_block dsk n = disk_block (memdisk s0) n) \<and>
       bc (s0\<lparr>memdisk := dsk\<rparr>) V' D Map.empty s)"
proof -
  note ls = log_start_block [OF fits]
  let ?hd = "put_head (lh_n s0) (lh_sector s0) (V (log_start s0))"
  have lD: "log_start s0 \<notin> D" using D(1) ls fits by (auto simp: log_fits_def)
  have w: "kspec {} (bc s0 V D Map.empty) write_head
      (\<lambda>_. bc (s0\<lparr>memdisk := disk_set (log_start s0) ?hd (memdisk s0)\<rparr>) (V(log_start s0 := ?hd)) D Map.empty)"
    using write_head_spec [of s0 D V] fits ls lD D(2) by (simp add: log_fits_def)
  show ?thesis
  proof (rule kspec_facts [where A = "\<forall>n. n \<noteq> log_start s0 \<longrightarrow>
      disk_block (disk_set (log_start s0) ?hd (memdisk s0)) n = disk_block (memdisk s0) n"])
    show "\<forall>n. n \<noteq> log_start s0 \<longrightarrow> disk_block (disk_set (log_start s0) ?hd (memdisk s0)) n = disk_block (memdisk s0) n"
      if "bc s0 V D Map.empty s" for s
      using disk_block_set_log [OF that, of "log_start s0" ?hd] ls fits bc_V_length [OF that, of "log_start s0"]
      by (simp add: length_put_head log_fits_def log_wf_def)
    assume blk: "\<forall>n. n \<noteq> log_start s0 \<longrightarrow>
      disk_block (disk_set (log_start s0) ?hd (memdisk s0)) n = disk_block (memdisk s0) n"
    have "\<forall>n. \<not> in_log s0 n \<longrightarrow> (V(log_start s0 := ?hd)) n = V n \<and>
        disk_block (disk_set (log_start s0) ?hd (memdisk s0)) n = disk_block (memdisk s0) n"
      using blk ls by auto
    then show ?thesis by (intro kspec_post [OF w]) blast
  qed
qed

lemma committed_memdisk:
  assumes "committed (s0\<lparr>memdisk := dsk\<rparr>) V' s" "\<forall>n. \<not> in_log s0 n \<longrightarrow> V' n = V n"
  shows "committed s0 V s"
proof -
  from assms(1) obtain V'' dsk' where c: "\<forall>n < disksize s0. \<not> in_log s0 n \<longrightarrow> V'' n = V' n \<and> disk_block dsk' n = V' n"
      "bc (s0\<lparr>memdisk := dsk, lh_n := 0, memdisk := dsk'\<rparr>) V'' {} Map.empty s"
    unfolding committed_def by auto
  have "s0\<lparr>memdisk := dsk, lh_n := 0, memdisk := dsk'\<rparr> = s0\<lparr>lh_n := 0, memdisk := dsk'\<rparr>" by simp
  with c assms(2) show ?thesis unfolding committed_def
    by (intro exI [of _ V''] exI [of _ dsk']) simp
qed

text \<open>The part of \<^verbatim>\<open>commit_trans\<close> between the header that commits and the header that erases the log.\<close>

lemma commit_body:
  assumes fits: "log_fits s0" and D: "D = set (logged s0)" "card D < NBUF"
  shows "kspec {} (bc s0 V D Map.empty) commit_write (\<lambda>_. committed s0 V)"
proof (cases "lh_n s0 > 0")
  case False
  then have n0: "lh_n s0 = 0" using fits by (simp add: log_fits_def log_wf_def)
  then have D0: "D = {}" using D(1) by (simp add: logged_def)
  have eq: "s0\<lparr>lh_n := 0, memdisk := memdisk s0\<rparr> = s0" using n0 [symmetric] by simp
  show ?thesis
  proof (rule kspecI_eq, goal_cases)
    case (1 s)
    have "committed s0 V s" unfolding committed_def
      using bc_clean [OF 1] 1 D0 eq by (intro exI [of _ V] exI [of _ "memdisk s0"]) auto
    then show ?case using bc_log_fields(5) [OF 1] n0 by (simp add: commit_write_def)
  qed
next
  case True
  have D': "D = {} \<or> D = set (logged s0)" using D(1) by simp
  show ?thesis
  proof (rule kspec_cong)
    show "commit_write s = kseq write_head (kseq install_trans (kseq (kmod (\<lambda>s. s\<lparr>lh_n := 0\<rparr>)) write_head)) s"
      if "bc s0 V D Map.empty s" for s using bc_log_fields(5) [OF that] True by (simp add: commit_write_def)
    show "kspec {} (bc s0 V D Map.empty)
      (kseq write_head (kseq install_trans (kseq (kmod (\<lambda>s. s\<lparr>lh_n := 0\<rparr>)) write_head))) (\<lambda>_. committed s0 V)"
    proof (rule kspec_facts [where A = "\<forall>n < disksize s0. n \<notin> D \<longrightarrow> disk_block (memdisk s0) n = V n"])
      show "\<forall>n < disksize s0. n \<notin> D \<longrightarrow> disk_block (memdisk s0) n = V n" if "bc s0 V D Map.empty s" for s
        using bc_clean [OF that] by blast
      assume clean: "\<forall>n < disksize s0. n \<notin> D \<longrightarrow> disk_block (memdisk s0) n = V n"
      show "kspec {} (bc s0 V D Map.empty)
        (kseq write_head (kseq install_trans (kseq (kmod (\<lambda>s. s\<lparr>lh_n := 0\<rparr>)) write_head))) (\<lambda>_. committed s0 V)"
      proof (rule kspec_seq [OF write_head_keeps [OF fits D' D(2)]], intro kspec_ex kspec_pure)
        fix V' dsk
        let ?s = "s0\<lparr>memdisk := dsk\<rparr>"
        assume K: "\<forall>n. \<not> in_log s0 n \<longrightarrow> V' n = V n \<and> disk_block dsk n = disk_block (memdisk s0) n"
        have "kspec {} (bc ?s V' D Map.empty) install_trans (\<lambda>_. install_inv ?s V' D (nat (lh_n ?s)))"
          using fits D D' by (intro install_trans_spec) simp_all
        moreover have "kspec {} (install_inv ?s V' D (nat (lh_n ?s))) (kseq (kmod (\<lambda>s. s\<lparr>lh_n := 0\<rparr>)) write_head)
            (\<lambda>_. committed ?s V')"
          using fits D D' K clean by (intro erase_head) auto
        ultimately have "kspec {} (bc ?s V' D Map.empty)
            (kseq install_trans (kseq (kmod (\<lambda>s. s\<lparr>lh_n := 0\<rparr>)) write_head)) (\<lambda>_. committed ?s V')" by (rule kspec_seq)
        then show "kspec {} (bc ?s V' D Map.empty)
            (kseq install_trans (kseq (kmod (\<lambda>s. s\<lparr>lh_n := 0\<rparr>)) write_head)) (\<lambda>_. committed s0 V)"
          using K by (elim kspec_post) (auto intro: committed_memdisk)
      qed
    qed
  qed
qed

lemma bc_self: "bc s0 V D H s \<Longrightarrow> bc s V D H s"
  using bc_rest [of s0 V D H s] unfolding bc_def by simp

lemma trans_end:
  assumes "\<And>lk. lockable lk s"
  shows "kseq (acquire L_log) (kseq (kmod (\<lambda>s. s\<lparr>log_busy := False\<rparr>)) (kseq (wakeup Ch_log) (release L_log))) s =
    Ret () (s\<lparr>log_busy := False, ptable := map (wake1 Ch_log) (ptable s)\<rparr>)"
  using assms by (simp add: kseq_eq kmod_def)

lemma committed_end:
  assumes "committed s0 V s"
  shows "\<exists>t. kseq (acquire L_log) (kseq (kmod (\<lambda>s. s\<lparr>log_busy := False\<rparr>)) (kseq (wakeup Ch_log) (release L_log))) s = Ret () t \<and>
    \<not> log_busy t \<and> lh_n t = 0 \<and> (\<forall>n < disksize s0. \<not> in_log s0 n \<longrightarrow> disk_block (memdisk t) n = V n) \<and>
    (\<exists>V'. (\<forall>n < disksize s0. \<not> in_log s0 n \<longrightarrow> V' n = V n) \<and> bc t V' {} Map.empty t)"
proof -
  from assms obtain V' dsk where c: "\<forall>n < disksize s0. \<not> in_log s0 n \<longrightarrow> V' n = V n \<and> disk_block dsk n = V n"
      "bc (s0\<lparr>lh_n := 0, memdisk := dsk\<rparr>) V' {} Map.empty s" unfolding committed_def by blast
  let ?t = "s\<lparr>log_busy := False, ptable := map (wake1 Ch_log) (ptable (s\<lparr>log_busy := False\<rparr>))\<rparr>"
  have bc: "bc (s0\<lparr>lh_n := 0, memdisk := dsk, log_busy := False\<rparr>) V' {} Map.empty ?t"
    by (rule bc_wakeup) (rule bc_log_upd(3) [OF c(2)])
  have "memdisk s = dsk" "lh_n s = 0" using bc_rest [OF c(2)] bc_log_fields(5) [OF c(2)] by simp_all
  then show ?thesis
    using trans_end [OF bcD(3) [OF c(2)]] c(1) bc_self [OF bc] by auto
qed

section \<open>Logged updates\<close>

text \<open>
  The idiom of the file system, \<^verbatim>\<open>bp = bread(...); modify bp->data; log_write(bp); brelse(bp)\<close>. Its only
  failures are the cache's and the log's lack of room.
\<close>

definition room :: "'a log_state_scheme \<Rightarrow> u32 set \<Rightarrow> (nat \<Rightarrow> u32 option) \<Rightarrow> u32 \<Rightarrow> bool" where
  "room s0 D H n \<longleftrightarrow> (card (D \<union> ran H) < NBUF \<or> n \<in> D) \<and> lh_n s0 < int LOGSIZE \<and> lh_n s0 < log_size s0 - 1"

definition no_room :: "string set" where
  "no_room = {''bget: no buffers'', ''too big a transaction''}"

definition log_update :: "u32 \<Rightarrow> u32 \<Rightarrow> (u8 list \<Rightarrow> u8 list) \<Rightarrow> ('a log_state_scheme, unit) kop" where
  "log_update dev n f = kbind (bread dev n) (\<lambda>bp. kseq (set_data bp f) (kseq (log_write bp) (brelse bp)))"

lemma log_write_done:
  assumes "H b = None" "log_busy s0" "length (f (V n)) = 512"
  shows "kspec (if lh_n s0 < int LOGSIZE \<and> lh_n s0 < log_size s0 - 1 then {} else no_room)
    (bc s0 V D (H(b \<mapsto> n))) (kseq (set_data b f) (kseq (log_write b) (brelse b)))
    (\<lambda>_. bc (log_add n s0) (V(n := f (V n))) (insert n D) H)"
proof -
  let ?H = "H(b \<mapsto> n)" and ?V = "V(n := f (V n))"
  let ?E = "if lh_n s0 < int LOGSIZE \<and> lh_n s0 < log_size s0 - 1 then {} else no_room"
  have 1: "kspec ?E (bc s0 V D ?H) (set_data b f) (\<lambda>_. bc s0 ?V D ?H)"
    using set_data_spec [of ?H b n f V s0 D] assms(3) by (auto intro: kspec_weaken)
  have 2: "kspec ?E (bc s0 ?V D ?H) (log_write b) (\<lambda>_. bc (log_add n s0) ?V (insert n D) ?H)"
    using log_write_spec [of ?H b n s0 ?V D] assms(2) by (auto intro: kspec_weaken simp: no_room_def)
  have "?H(b := None) = H" using assms(1) by auto
  then have 3: "kspec ?E (bc (log_add n s0) ?V (insert n D) ?H) (brelse b) (\<lambda>_. bc (log_add n s0) ?V (insert n D) H)"
    using brelse_spec [of ?H b n "insert n D" ?V "log_add n s0"] by (auto intro: kspec_weaken)
  show ?thesis by (intro kspec_seq [OF 1] kspec_seq [OF 2] 3)
qed

lemma log_update_spec:
  assumes "n < disksize s0" "n \<notin> ran H" "log_busy s0" "length (f (V n)) = 512"
  shows "kspec (if room s0 D H n then {} else no_room) (bc s0 V D H) (log_update 1 n f)
    (\<lambda>_. bc (log_add n s0) (V(n := f (V n))) (insert n D) H)"
  unfolding log_update_def
proof (rule kspec_bind)
  have "kspec (if card (D \<union> ran H) < NBUF \<or> n \<in> D then {} else {''bget: no buffers''}) (bc s0 V D H) (bread 1 n)
      (\<lambda>b s. (b < NBUF \<and> H b = None) \<and> bc s0 V D (H(b \<mapsto> n)) s)"
    using bread_spec [OF assms(1,2), of D V] by simp
  then show "kspec (if room s0 D H n then {} else no_room) (bc s0 V D H) (bread 1 n)
      (\<lambda>b s. (b < NBUF \<and> H b = None) \<and> bc s0 V D (H(b \<mapsto> n)) s)"
    by (rule kspec_weaken) (auto simp: room_def no_room_def)
  fix b
  show "kspec (if room s0 D H n then {} else no_room) (\<lambda>s. (b < NBUF \<and> H b = None) \<and> bc s0 V D (H(b \<mapsto> n)) s)
      (kseq (set_data b f) (kseq (log_write b) (brelse b))) (\<lambda>_. bc (log_add n s0) (V(n := f (V n))) (insert n D) H)"
  proof (rule kspec_pure)
    assume "b < NBUF \<and> H b = None"
    then show "kspec (if room s0 D H n then {} else no_room) (bc s0 V D (H(b \<mapsto> n)))
        (kseq (set_data b f) (kseq (log_write b) (brelse b))) (\<lambda>_. bc (log_add n s0) (V(n := f (V n))) (insert n D) H)"
      using assms(3,4) by (intro kspec_weaken [OF log_write_done]) (auto simp: room_def)
  qed
qed

text \<open>A block read and given back unchanged, with the rest of the routine depending on its contents.\<close>

lemma read_block_spec:
  assumes "n < disksize s0" "n \<notin> ran H" "n \<in> D \<or> disk_block (memdisk s0) n = V n"
  shows "kspec (if card (D \<union> ran H) < NBUF \<or> n \<in> D then {} else {''bget: no buffers''}) (bc s0 V D H)
    (kbind (bread 1 n) (\<lambda>b. kbind (kget (buf_data b)) (\<lambda>d. kseq (brelse b) (kret (g d)))))
    (\<lambda>r s. r = g (V n) \<and> bc s0 V D H s)"
proof (rule kspec_bind)
  let ?E = "if card (D \<union> ran H) < NBUF \<or> n \<in> D then {} else {''bget: no buffers''}"
  show "kspec ?E (bc s0 V D H) (bread 1 n) (\<lambda>b s. (b < NBUF \<and> H b = None) \<and> bc s0 V D (H(b \<mapsto> n)) s)"
    using bread_spec [OF assms(1,2), of D V] by simp
  fix b
  show "kspec ?E (\<lambda>s. (b < NBUF \<and> H b = None) \<and> bc s0 V D (H(b \<mapsto> n)) s)
      (kbind (kget (buf_data b)) (\<lambda>d. kseq (brelse b) (kret (g d)))) (\<lambda>r s. r = g (V n) \<and> bc s0 V D H s)"
  proof (rule kspec_pure, rule kspec_get_bind [where v = "V n"])
    assume b: "b < NBUF \<and> H b = None"
    show "buf_data b s = V n" if "bc s0 V D (H(b \<mapsto> n)) s" for s using bc_data [OF that, of b n] by simp
    have "(H(b \<mapsto> n))(b := None) = H" using b by auto
    then have 1: "kspec ?E (bc s0 V D (H(b \<mapsto> n))) (brelse b) (\<lambda>_. bc s0 V D H)"
      using brelse_spec [of "H(b \<mapsto> n)" b n D V s0] assms(3) by (auto intro: kspec_weaken)
    show "kspec ?E (bc s0 V D (H(b \<mapsto> n))) (kseq (brelse b) (kret (g (V n)))) (\<lambda>r s. r = g (V n) \<and> bc s0 V D H s)"
      by (rule kspec_seq [OF 1]) (simp add: kspec_ret)
  qed
qed

section \<open>Properties\<close>


definition log_boot :: "u8 list \<Rightarrow> log_state" where
  "log_boot dsk = bio_boot dsk (log_state.fields 2 3 True 1 0 (replicate LOGSIZE 0))"

lemma log_boot_fields:
  assumes "length dsk = 5 * 512"
  shows "log_start (log_boot dsk) = 2" "log_size (log_boot dsk) = 3" "log_busy (log_boot dsk)" "log_dev (log_boot dsk) = 1"
    "lh_n (log_boot dsk) = 0" "lh_sector (log_boot dsk) = replicate LOGSIZE 0" "disksize (log_boot dsk) = 5"
    "memdisk (log_boot dsk) = dsk" "bc (log_boot dsk) (disk_block dsk) {} Map.empty (log_boot dsk)"
proof -
  note b = bio_boot_bc [OF assms, of "log_state.fields 2 3 True 1 0 (replicate LOGSIZE 0)", simplified, folded log_boot_def]
  show "log_start (log_boot dsk) = 2" "log_size (log_boot dsk) = 3" "log_busy (log_boot dsk)" "log_dev (log_boot dsk) = 1"
    "lh_n (log_boot dsk) = 0" "lh_sector (log_boot dsk) = replicate LOGSIZE 0"
    using b(6) by (cases "log_boot dsk"; simp add: log_state.defs)+
  show "disksize (log_boot dsk) = 5" "memdisk (log_boot dsk) = dsk"
    "bc (log_boot dsk) (disk_block dsk) {} Map.empty (log_boot dsk)" using b by simp_all
qed

lemma log_update_boot:
  assumes dsk: "length dsk = 5 * 512" and x: "length x = 512"
  shows "\<exists>s. log_update 1 1 (\<lambda>_. x) (log_boot dsk) = Ret () s \<and>
    bc (log_add 1 (log_boot dsk)) ((disk_block dsk)(1 := x)) {1} Map.empty s \<and>
    log_fits (log_add 1 (log_boot dsk)) \<and> logged (log_add 1 (log_boot dsk)) = [1]"
proof -
  note f = log_boot_fields [OF dsk]
  have wf: "log_wf (log_boot dsk)" "logged (log_boot dsk) = []" by (simp_all add: log_wf_def logged_def f)
  have lg: "logged (log_add 1 (log_boot dsk)) = [1]" "log_wf (log_add 1 (log_boot dsk))" "lh_n (log_add 1 (log_boot dsk)) = 1"
    using log_add_spec [of "log_boot dsk" 1] wf f by simp_all
  have fl: "log_start (log_add 1 (log_boot dsk)) = 2" "log_size (log_add 1 (log_boot dsk)) = 3"
      "disksize (log_add 1 (log_boot dsk)) = 5" by (simp_all add: log_add_def Let_def f)
  have fits: "log_fits (log_add 1 (log_boot dsk))" by (simp add: log_fits_def lg fl in_log_def word_le_nat_alt)
  have k: "kspec {} (bc (log_boot dsk) (disk_block dsk) {} Map.empty) (log_update 1 1 (\<lambda>_. x))
      (\<lambda>_. bc (log_add 1 (log_boot dsk)) ((disk_block dsk)(1 := x)) {1} Map.empty)"
    using log_update_spec [of 1 "log_boot dsk" Map.empty "\<lambda>_. x" "disk_block dsk" "{}"] x f by (simp add: room_def)
  then show ?thesis using kspecD_unit [OF k f(9)] lg fits by blast
qed


lemma read_head_spec:
  assumes "log_start s0 < disksize s0" "log_dev s0 = 1" "hdr_count (V (log_start s0)) \<le> int LOGSIZE"
  shows "kspec {} (bc s0 V {} Map.empty) read_head (\<lambda>_. bc (hdr_load (V (log_start s0)) s0) V {} Map.empty)"
proof (rule kspec_cong)
  let ?n = "log_start s0"
  let ?m = "kbind (bread 1 ?n) (\<lambda>b. kbind (kget (buf_data b)) (\<lambda>d.
     kseq (\<lambda>s. if hdr_count d > int LOGSIZE then Fault else Ret () (hdr_load d s)) (brelse b)))"
  show "read_head s = ?m s" if "bc s0 V {} Map.empty s" for s
    using assms(2) by (simp add: read_head_def bc_log_fields [OF that])
  show "kspec {} (bc s0 V {} Map.empty) ?m (\<lambda>_. bc (hdr_load (V ?n) s0) V {} Map.empty)"
  proof (rule kspec_facts [where A = "disk_block (memdisk s0) ?n = V ?n"])
    show "disk_block (memdisk s0) ?n = V ?n" if "bc s0 V {} Map.empty s" for s using bc_clean [OF that assms(1)] by simp
    assume clean: "disk_block (memdisk s0) ?n = V ?n"
    show ?thesis
    proof (rule kspec_bind)
      show "kspec {} (bc s0 V {} Map.empty) (bread 1 ?n) (\<lambda>b. bc s0 V {} [b \<mapsto> ?n])"
        using bread_spec [OF assms(1), of Map.empty "{}" V] by (simp add: kspec_post)
      fix b
      show "kspec {} (bc s0 V {} [b \<mapsto> ?n]) (kbind (kget (buf_data b)) (\<lambda>d.
          kseq (\<lambda>s. if hdr_count d > int LOGSIZE then Fault else Ret () (hdr_load d s)) (brelse b)))
          (\<lambda>_. bc (hdr_load (V ?n) s0) V {} Map.empty)"
      proof (rule kspec_get_bind [where v = "V ?n"], goal_cases)
        case (1 s)
        then show ?case using bc_data [OF 1, of b ?n] by simp
      next
        case 2
        have "kspec {} (bc s0 V {} [b \<mapsto> ?n]) (\<lambda>s. if hdr_count (V ?n) > int LOGSIZE then Fault else Ret () (hdr_load (V ?n) s))
            (\<lambda>_. bc (hdr_load (V ?n) s0) V {} [b \<mapsto> ?n])"
        proof (rule kspecI_eq)
          fix s assume bc: "bc s0 V {} [b \<mapsto> ?n] s"
          have "bc (hdr_load (V ?n) s0) V {} [b \<mapsto> ?n] (hdr_load (V ?n) s)"
            unfolding hdr_load_def bc_log_fields(6) [OF bc] by (intro bc_log_upd bc)
          then show "\<exists>a t. (if hdr_count (V ?n) > int LOGSIZE then Fault else Ret () (hdr_load (V ?n) s)) = Ret a t \<and>
              bc (hdr_load (V ?n) s0) V {} [b \<mapsto> ?n] t" using assms(3) by simp
        qed
        moreover have "kspec {} (bc (hdr_load (V ?n) s0) V {} [b \<mapsto> ?n]) (brelse b)
            (\<lambda>_. bc (hdr_load (V ?n) s0) V {} Map.empty)"
          using brelse_spec [of "[b \<mapsto> ?n]" b ?n "{}" V "hdr_load (V ?n) s0"] clean by (simp add: hdr_load_def)
        ultimately show ?case by (rule kspec_seq)
      qed
    qed
  qed
qed

text \<open>
  C12: Recovery restores nothing. Started after a crash with any valid header in the log,
  \<^verbatim>\<open>recover_from_log\<close> erases the log and leaves every block outside it exactly as the crash left it: the blocks
  that a committed transaction had in the log are overwritten by their old home copies, because
  \<^verbatim>\<open>install_trans\<close> copies from the home block to the log block and not the other way.
\<close>

theorem recovery_restores_nothing:
  assumes "bc s0 V {} Map.empty s" "log_fits (hdr_load (V (log_start s0)) s0)"
  shows "\<exists>t. recover_from_log s = Ret () t \<and> lh_n t = 0 \<and>
    (\<forall>n < disksize s0. \<not> in_log s0 n \<longrightarrow> disk_block (memdisk t) n = disk_block (memdisk s) n)"
proof -
  let ?s1 = "hdr_load (V (log_start s0)) s0"
  have f: "log_start ?s1 = log_start s0" "disksize ?s1 = disksize s0" "memdisk ?s1 = memdisk s0" "in_log ?s1 = in_log s0"
      "log_dev s0 = 1" "hdr_count (V (log_start s0)) \<le> int LOGSIZE"
    using assms(2) by (simp_all add: hdr_load_def in_log_def fun_eq_iff log_fits_def log_wf_def)
  have 1: "kspec {} (bc s0 V {} Map.empty) read_head (\<lambda>_. bc ?s1 V {} Map.empty)"
    using log_start_block [OF assms(2)] f by (intro read_head_spec) auto
  have 2: "kspec {} (bc ?s1 V {} Map.empty) install_trans (\<lambda>_. install_inv ?s1 V {} (nat (lh_n ?s1)))"
    by (rule install_trans_spec [OF assms(2)]) simp_all
  have 3: "kspec {} (install_inv ?s1 V {} (nat (lh_n ?s1))) (kseq (kmod (\<lambda>s. s\<lparr>lh_n := 0\<rparr>)) write_head) (\<lambda>_. committed ?s1 V)"
    using bc_clean [OF assms(1)] f by (intro erase_head [OF assms(2)]) auto
  have "kspec {} (bc s0 V {} Map.empty) recover_from_log (\<lambda>_. committed ?s1 V)"
    unfolding recover_from_log_def by (rule kspec_seq [OF 1 kspec_seq [OF 2 3]])
  from kspecD_unit [OF this assms(1)] obtain t where t: "recover_from_log s = Ret () t" "committed ?s1 V t" by blast
  then obtain V' dsk where c: "\<forall>n < disksize s0. \<not> in_log s0 n \<longrightarrow> disk_block dsk n = V n"
      "bc (?s1\<lparr>lh_n := 0, memdisk := dsk\<rparr>) V' {} Map.empty t" unfolding committed_def f by blast
  have "memdisk t = dsk" "lh_n t = 0" using bc_rest [OF c(2)] bc_log_fields(5) [OF c(2)] by simp_all
  then show ?thesis using t(1) c(1) bc_clean [OF assms(1)] bc_rest [OF assms(1)] by auto
qed

text \<open>A disk after a crash: the header records a committed write of block 1, whose new contents are in the log.\<close>

definition crash_header :: "u8 list" where
  "crash_header = le32 1 @ le32 1 @ replicate 504 0"

definition crash_disk :: "u8 list" where
  "crash_disk = replicate 1024 7 @ crash_header @ replicate 512 9 @ replicate 512 0"

lemma crash_disk_blocks:
  "length crash_disk = 5 * 512" "disk_block crash_disk 2 = crash_header" "disk_block crash_disk 1 = replicate 512 7"
  "disk_block crash_disk 3 = replicate 512 9"
  by (simp_all add: crash_disk_def crash_header_def disk_block_def slice_skip slice_prefix Codec.slice_def)

lemma crash_header_load:
  "hdr_count crash_header = 1" "arr_get 4 un_le32 1 crash_header = 1"
  by (simp_all add: hdr_count_def crash_header_def arr_get_def slice_skip slice_prefix)

theorem recovery_restores_nothing_witness:
  "disk_block crash_disk 3 = replicate 512 9 \<and>
   (\<exists>t. recover_from_log (log_boot crash_disk) = Ret () t \<and> disk_block (memdisk t) 1 = replicate 512 7)"
proof -
  let ?s = "log_boot crash_disk" and ?s1 = "hdr_load crash_header (log_boot crash_disk)"
  note f = log_boot_fields [OF crash_disk_blocks(1)]
  have lg: "logged ?s1 = [1]" "length (lh_sector ?s1) = LOGSIZE"
    using crash_header_load by (simp_all add: logged_def hdr_load_def upt_rec)
  have "log_fits ?s1" unfolding log_fits_def log_wf_def lg
    using crash_header_load f by (simp add: in_log_def hdr_load_def word_le_nat_alt)
  moreover have "\<not> in_log ?s 1" by (simp add: in_log_def f word_le_nat_alt)
  ultimately show ?thesis
    using recovery_restores_nothing [OF f(9)] crash_disk_blocks f by auto
qed


text \<open>A process as it is in the zeroed process table, and a machine that runs it.\<close>

definition proc_zero :: proc where
  "proc_zero = \<lparr>sz = 0, pgdir = 0, kstack = 0, pstate = UNUSED, pid = 0, parent = None,
     tf = \<lparr>tf_edi = 0, tf_esi = 0, tf_ebp = 0, tf_oesp = 0, tf_ebx = 0, tf_edx = 0, tf_ecx = 0, tf_eax = 0,
       tf_gs = 0, tf_fs = 0, tf_es = 0, tf_ds = 0, tf_trapno = 0, tf_err = 0, tf_eip = 0, tf_cs = 0,
       tf_eflags = 0, tf_esp = 0, tf_ss = 0\<rparr>,
     ctx = \<lparr>ctx_edi = 0, ctx_esi = 0, ctx_ebx = 0, ctx_ebp = 0, ctx_eip = 0\<rparr>, pchan = None, killed = False,
     ofile = replicate NOFILE None, cwd = None, pname = replicate 16 0, alarmticks = 0, alarmticked = 0, alarmhandler = 0\<rparr>"

definition log_running :: log_state where
  "log_running = (bio_zero [] (log_state.fields 2 3 True 1 0 (replicate LOGSIZE 0)))
     \<lparr>cpus := (\<lambda>_. boot_cpu\<lparr>cproc := Some 0\<rparr>), ptable := [proc_zero\<lparr>pstate := RUNNING\<rparr>]\<rparr>"


end
