(* ===== verification/Inode.thy ===== *)
theory Inode
  imports Log
begin

text \<open>
  The lower half of the file system (\<^verbatim>\<open>fs.c\<close>): the block allocator (\<^verbatim>\<open>bzero\<close>, \<^verbatim>\<open>balloc\<close>, \<^verbatim>\<open>bfree\<close>), the inode
  cache (\<^verbatim>\<open>iinit\<close>, \<^verbatim>\<open>iget\<close>, \<^verbatim>\<open>idup\<close>, \<^verbatim>\<open>ilock\<close>, \<^verbatim>\<open>iunlock\<close>, \<^verbatim>\<open>iput\<close>, \<^verbatim>\<open>iunlockput\<close>), inodes on disk (\<^verbatim>\<open>ialloc\<close>,
  \<^verbatim>\<open>iupdate\<close>) and the block map of an inode (\<^verbatim>\<open>bmap\<close>, \<^verbatim>\<open>itrunc\<close>, \<^verbatim>\<open>stati\<close>). A \<^verbatim>\<open>struct inode*\<close> is an index into the
  cache, a possibly null one an \<open>option\<close>.
\<close>

section \<open>State\<close>

text \<open>The bits \<^verbatim>\<open>I_BUSY\<close> and \<^verbatim>\<open>I_VALID\<close> of \<^verbatim>\<open>flags\<close> are two booleans.\<close>

record inode =
  i_dev :: u32
  i_inum :: u32
  i_ref :: int
  i_busy :: bool
  i_valid :: bool
  i_type :: u16
  i_major :: u16
  i_minor :: u16
  i_nlink :: u16
  i_size :: u32
  i_addrs :: "u32 list"

record icache_state = log_state +
  icache :: "inode list"

lemma hw_frame_icache [simp]:
  "acq lk (s\<lparr>icache := x\<rparr>) = (acq lk s)\<lparr>icache := x\<rparr>" "icache (acq lk s) = icache s"
  "lockable lk (s\<lparr>icache := x\<rparr>) = lockable lk s" "holding lk (s\<lparr>icache := x\<rparr>) = holding lk s"
  by (simp_all add: acq_def lockable_def holding_def)

lemma release_frame_icache [simp]:
  "lockable lk s \<Longrightarrow> release lk ((acq lk s)\<lparr>icache := x\<rparr>) = Ret () (s\<lparr>icache := x\<rparr>)"
  "lockable lk s \<Longrightarrow> release lk ((acq lk s)\<lparr>icache := x, ptable := p\<rparr>) = Ret () (s\<lparr>icache := x, ptable := p\<rparr>)"
  using release_acq [of lk "s\<lparr>icache := x\<rparr>"] release_acq [of lk "s\<lparr>icache := x, ptable := p\<rparr>"] by simp_all

abbreviation the_inode :: "nat \<Rightarrow> 'a icache_state_scheme \<Rightarrow> inode" where
  "the_inode i s \<equiv> icache s ! i"

definition upd_inode :: "nat \<Rightarrow> (inode \<Rightarrow> inode) \<Rightarrow> ('a icache_state_scheme, unit) kop" where
  "upd_inode i f s = (if i < length (icache s) then Ret () (s\<lparr>icache := (icache s)[i := f (icache s ! i)]\<rparr>) else Fault)"

section \<open>Blocks\<close>

definition bzero :: "u32 \<Rightarrow> u32 \<Rightarrow> ('a log_state_scheme, unit) kop" where
  "bzero dev bno = kbind (bread dev bno) (\<lambda>bp.
     kseq (set_data bp (\<lambda>_. replicate BSIZE 0))
    (kseq (log_write bp) (brelse bp)))"

definition bit_mask :: "nat \<Rightarrow> u8" where
  "bit_mask bi = push_bit (bi mod 8) 1"

definition bit_free :: "u8 list \<Rightarrow> nat \<Rightarrow> bool" where
  "bit_free d bi \<longleftrightarrow> d ! (bi div 8) AND bit_mask bi = 0"

definition set_bit_at :: "nat \<Rightarrow> u8 list \<Rightarrow> u8 list" where
  "set_bit_at bi d = d[bi div 8 := d ! (bi div 8) OR bit_mask bi]"

definition clear_bit_at :: "nat \<Rightarrow> u8 list \<Rightarrow> u8 list" where
  "clear_bit_at bi d = d[bi div 8 := d ! (bi div 8) AND NOT (bit_mask bi)]"

text \<open>
  The two loops of \<^verbatim>\<open>balloc\<close>: \<open>bitmap_bases\<close> are the values \<^verbatim>\<open>b\<close> takes, \<open>free_bit\<close> is the \<^verbatim>\<open>bi\<close> at which the inner
  loop finds a clear bit. (The sums \<^verbatim>\<open>b + bi\<close> stay below the size of the file system, hence do not wrap.)
\<close>

definition bitmap_bases :: "u32 \<Rightarrow> nat list" where
  "bitmap_bases n = filter (\<lambda>b. b < unat n) (map (\<lambda>k. k * BPB) [0..<unat n div BPB + 1])"

definition free_bit :: "u32 \<Rightarrow> nat \<Rightarrow> u8 list \<Rightarrow> nat option" where
  "free_bit n b d = find (bit_free d) [0..<min BPB (unat n - b)]"

definition balloc :: "u32 \<Rightarrow> ('a log_state_scheme, u32) kop" where
  "balloc dev = kbind (readsb dev) (\<lambda>sb.
     kbind (kfor (bitmap_bases (sb_size sb)) (\<lambda>b.
       kbind (bread dev (BBLOCK (of_nat b) (sb_ninodes sb))) (\<lambda>bp.
       kbind (kget (buf_data bp)) (\<lambda>d.
         case free_bit (sb_size sb) b d of
           Some bi \<Rightarrow> kseq (set_data bp (set_bit_at bi))
             (kseq (log_write bp)
             (kseq (brelse bp)
             (kseq (bzero dev (of_nat (b + bi)))
             (kret (Some (of_nat (b + bi)))))))
         | None \<Rightarrow> kseq (brelse bp) (kret None)))))
     (\<lambda>r. case r of Some x \<Rightarrow> kret x | None \<Rightarrow> kpanic ''balloc: out of blocks''))"

definition bfree :: "u32 \<Rightarrow> u32 \<Rightarrow> ('a log_state_scheme, unit) kop" where
  "bfree dev b = kbind (readsb dev) (\<lambda>sb.
     kbind (bread dev (BBLOCK b (sb_ninodes sb))) (\<lambda>bp.
     kbind (kget (buf_data bp)) (\<lambda>d.
       let bi = unat b mod BPB in
       if bit_free d bi then kpanic ''freeing free block''
       else kseq (set_data bp (clear_bit_at bi))
         (kseq (log_write bp) (brelse bp)))))"

section \<open>Inodes on disk and in the cache\<close>

definition iinit :: "('a icache_state_scheme, unit) kop" where
  "iinit = initlock L_icache ''icache''"

definition dinode_of :: "inode \<Rightarrow> dinode" where
  "dinode_of ip = \<lparr>d_type = i_type ip, d_major = i_major ip, d_minor = i_minor ip, d_nlink = i_nlink ip,
     d_size = i_size ip, d_addrs = i_addrs ip\<rparr>"

definition load_inode :: "dinode \<Rightarrow> inode \<Rightarrow> inode" where
  "load_inode d ip = ip\<lparr>i_type := d_type d, i_major := d_major d, i_minor := d_minor d, i_nlink := d_nlink d,
     i_size := d_size d, i_addrs := d_addrs d\<rparr>"

abbreviation (input) dslot :: "u32 \<Rightarrow> nat" where
  "dslot inum \<equiv> unat (inum mod IPB)"

definition iupdate :: "nat \<Rightarrow> ('a icache_state_scheme, unit) kop" where
  "iupdate ip = kbind (kget (the_inode ip)) (\<lambda>x.
     kbind (bread (i_dev x) (IBLOCK (i_inum x))) (\<lambda>bp.
     kseq (set_data bp (arr_put 64 enc_dinode (dslot (i_inum x)) (dinode_of x)))
    (kseq (log_write bp) (brelse bp))))"

text \<open>The search of \<^verbatim>\<open>iget\<close>: the cached entry, else the first empty one.\<close>

definition iget_slot :: "u32 \<Rightarrow> u32 \<Rightarrow> inode list \<Rightarrow> nat option" where
  "iget_slot dev inum xs = first_slot (\<lambda>x. i_ref x > 0 \<and> i_dev x = dev \<and> i_inum x = inum) xs"

definition iget :: "u32 \<Rightarrow> u32 \<Rightarrow> ('a icache_state_scheme, nat) kop" where
  "iget dev inum = kseq (acquire L_icache)
     (kbind (kget icache) (\<lambda>xs.
       case iget_slot dev inum xs of
         Some i \<Rightarrow> kseq (upd_inode i (\<lambda>x. x\<lparr>i_ref := i_ref x + 1\<rparr>)) (kseq (release L_icache) (kret i))
       | None \<Rightarrow> (case first_slot (\<lambda>x. i_ref x = 0) xs of
           None \<Rightarrow> kpanic ''iget: no inodes''
         | Some i \<Rightarrow>
             kseq (upd_inode i (\<lambda>x. x\<lparr>i_dev := dev, i_inum := inum, i_ref := 1, i_busy := False, i_valid := False\<rparr>))
            (kseq (release L_icache) (kret i)))))"

definition ialloc :: "u32 \<Rightarrow> u16 \<Rightarrow> ('a icache_state_scheme, nat) kop" where
  "ialloc dev type = kbind (readsb dev) (\<lambda>sb.
     kbind (kfor [1..<unat (sb_ninodes sb)] (\<lambda>inum.
       kbind (bread dev (IBLOCK (of_nat inum))) (\<lambda>bp.
       kbind (kget (buf_data bp)) (\<lambda>d.
         if d_type (arr_get 64 dec_dinode (inum mod 8) d) = 0
         then kseq (set_data bp (arr_put 64 enc_dinode (inum mod 8)
                (\<lparr>d_type = type, d_major = 0, d_minor = 0, d_nlink = 0, d_size = 0, d_addrs = replicate (NDIRECT + 2) 0\<rparr>)))
             (kseq (log_write bp)
             (kseq (brelse bp)
             (kbind (iget dev (of_nat inum)) (\<lambda>i. kret (Some i)))))
         else kseq (brelse bp) (kret None)))))
     (\<lambda>r. case r of Some i \<Rightarrow> kret i | None \<Rightarrow> kpanic ''ialloc: no inodes''))"

definition idup :: "nat \<Rightarrow> ('a icache_state_scheme, nat) kop" where
  "idup ip = kseq (acquire L_icache)
     (kseq (upd_inode ip (\<lambda>x. x\<lparr>i_ref := i_ref x + 1\<rparr>)) (kseq (release L_icache) (kret ip)))"

text \<open>
  \<^verbatim>\<open>ilock\<close> from the head of its loop on, with the cache's lock held; \<open>ilock_load\<close> is the part after the lock.
\<close>

definition ilock_load :: "nat \<Rightarrow> ('a icache_state_scheme, unit) kop" where
  "ilock_load ip = kbind (kget (the_inode ip)) (\<lambda>x.
     if i_valid x then kret ()
     else kbind (bread (i_dev x) (IBLOCK (i_inum x))) (\<lambda>bp.
       kbind (kget (buf_data bp)) (\<lambda>d.
       kseq (upd_inode ip (load_inode (arr_get 64 dec_dinode (dslot (i_inum x)) d)))
      (kseq (brelse bp)
      (kseq (upd_inode ip (\<lambda>y. y\<lparr>i_valid := True\<rparr>))
      (kassert (\<lambda>s. i_type (the_inode ip s) \<noteq> 0) ''ilock: no type''))))))"

definition ilock_loop :: "nat \<Rightarrow> ('a icache_state_scheme, unit) kop" where
  "ilock_loop ip s = (if i_busy (the_inode ip s) then sleep_retry (Ch_inode ip) L_icache s
     else kseq (upd_inode ip (\<lambda>x. x\<lparr>i_busy := True\<rparr>)) (kseq (release L_icache) (ilock_load ip)) s)"

definition ilock :: "nat option \<Rightarrow> ('a icache_state_scheme, unit) kop" where
  "ilock p s = (case p of None \<Rightarrow> Panic ''ilock''
     | Some ip \<Rightarrow> if i_ref (the_inode ip s) < 1 then Panic ''ilock''
         else kseq (acquire L_icache) (ilock_loop ip) s)"

definition ilock_resume :: "bool \<Rightarrow> nat \<Rightarrow> ('a icache_state_scheme, unit) kop" where
  "ilock_resume ie ip = kseq (sleep_resume ie L_icache) (ilock_loop ip)"

definition iunlock :: "nat option \<Rightarrow> ('a icache_state_scheme, unit) kop" where
  "iunlock p s = (case p of None \<Rightarrow> Panic ''iunlock''
     | Some ip \<Rightarrow> if \<not> i_busy (the_inode ip s) \<or> i_ref (the_inode ip s) < 1 then Panic ''iunlock''
         else kseq (acquire L_icache)
           (kseq (upd_inode ip (\<lambda>x. x\<lparr>i_busy := False\<rparr>))
           (kseq (wakeup (Ch_inode ip)) (release L_icache))) s)"

section \<open>The blocks of an inode\<close>

definition trunc_direct :: "nat \<Rightarrow> nat \<Rightarrow> ('a icache_state_scheme, unit) kop" where
  "trunc_direct ip i = kbind (kget (the_inode ip)) (\<lambda>x.
     if i_addrs x ! i \<noteq> 0
     then kseq (bfree (i_dev x) (i_addrs x ! i)) (upd_inode ip (\<lambda>x. x\<lparr>i_addrs := (i_addrs x)[i := 0]\<rparr>))
     else kret ())"

definition trunc_entry :: "nat \<Rightarrow> nat \<Rightarrow> nat \<Rightarrow> ('a icache_state_scheme, unit) kop" where
  "trunc_entry ip bp j = kbind (kget (\<lambda>s. arr_get 4 un_le32 j (buf_data bp s))) (\<lambda>a.
     if a \<noteq> 0 then kbind (kget (the_inode ip)) (\<lambda>x. bfree (i_dev x) a) else kret ())"

definition itrunc :: "nat \<Rightarrow> ('a icache_state_scheme, unit) kop" where
  "itrunc ip = kseq (kforeach [0..<NDIRECT] (trunc_direct ip))
    (kseq (kbind (kget (the_inode ip)) (\<lambda>x.
       if i_addrs x ! NDIRECT \<noteq> 0
       then kbind (bread (i_dev x) (i_addrs x ! NDIRECT)) (\<lambda>bp.
         kseq (kforeach [0..<NINDIRECT] (trunc_entry ip bp))
        (kseq (brelse bp)
        (kseq (bfree (i_dev x) (i_addrs x ! NDIRECT))
              (upd_inode ip (\<lambda>x. x\<lparr>i_addrs := (i_addrs x)[NDIRECT := 0]\<rparr>)))))
       else kret ()))
    (kseq (upd_inode ip (\<lambda>x. x\<lparr>i_size := 0\<rparr>)) (iupdate ip)))"

definition iput :: "nat \<Rightarrow> ('a icache_state_scheme, unit) kop" where
  "iput ip = kseq (acquire L_icache)
    (kseq (kbind (kget (the_inode ip)) (\<lambda>x.
       if i_ref x = 1 \<and> i_valid x \<and> i_nlink x = 0
       then if i_busy x then kpanic ''iput busy''
         else kseq (upd_inode ip (\<lambda>x. x\<lparr>i_busy := True\<rparr>))
           (kseq (release L_icache)
           (kseq (itrunc ip)
           (kseq (upd_inode ip (\<lambda>x. x\<lparr>i_type := 0\<rparr>))
           (kseq (iupdate ip)
           (kseq (acquire L_icache)
           (kseq (upd_inode ip (\<lambda>x. x\<lparr>i_busy := False, i_valid := False\<rparr>))
                 (wakeup (Ch_inode ip))))))))
       else kret ()))
    (kseq (upd_inode ip (\<lambda>x. x\<lparr>i_ref := i_ref x - 1\<rparr>)) (release L_icache)))"

definition iunlockput :: "nat \<Rightarrow> ('a icache_state_scheme, unit) kop" where
  "iunlockput ip = kseq (iunlock (Some ip)) (iput ip)"

text \<open>
  \<^verbatim>\<open>bmap\<close>: an entry of \<^verbatim>\<open>ip->addrs\<close>, allocated when it is zero, and an entry of an indirect block, likewise; the
  four accesses of the source are instances of these two.
\<close>

definition bmap_addr :: "nat \<Rightarrow> nat \<Rightarrow> ('a icache_state_scheme, u32) kop" where
  "bmap_addr ip k = kbind (kget (the_inode ip)) (\<lambda>x.
     if i_addrs x ! k = 0
     then kbind (balloc (i_dev x)) (\<lambda>addr.
       kseq (upd_inode ip (\<lambda>x. x\<lparr>i_addrs := (i_addrs x)[k := addr]\<rparr>)) (kret addr))
     else kret (i_addrs x ! k))"

definition bmap_entry :: "nat \<Rightarrow> u32 \<Rightarrow> nat \<Rightarrow> ('a icache_state_scheme, u32) kop" where
  "bmap_entry ip b j = kbind (kget (\<lambda>s. i_dev (the_inode ip s))) (\<lambda>dev.
     kbind (bread dev b) (\<lambda>bp.
     kbind (kget (\<lambda>s. arr_get 4 un_le32 j (buf_data bp s))) (\<lambda>addr.
       if addr = 0
       then kbind (balloc dev) (\<lambda>addr.
         kseq (set_data bp (arr_put 4 le32 j addr))
        (kseq (log_write bp)
        (kseq (brelse bp) (kret addr))))
       else kseq (brelse bp) (kret addr))))"

definition bmap :: "nat \<Rightarrow> u32 \<Rightarrow> ('a icache_state_scheme, u32) kop" where
  "bmap ip bn = (let n = unat bn in
     if n < NDIRECT then bmap_addr ip n
     else if n - NDIRECT < NINDIRECT then
       kbind (bmap_addr ip NDIRECT) (\<lambda>b. bmap_entry ip b (n - NDIRECT))
     else if n - NDIRECT - NINDIRECT < NINDIRECT * NINDIRECT then
       kbind (bmap_addr ip (NDIRECT + 1)) (\<lambda>b.
       kbind (bmap_entry ip b ((n - NDIRECT - NINDIRECT) div NINDIRECT)) (\<lambda>b'.
         bmap_entry ip b' ((n - NDIRECT - NINDIRECT) mod NINDIRECT)))
     else kpanic ''bmap: out of range'')"

record stat =
  st_type :: u16
  st_dev :: u32
  st_ino :: u32
  st_nlink :: u16
  st_size :: u32

definition stati :: "inode \<Rightarrow> stat" where
  "stati ip = \<lparr>st_type = i_type ip, st_dev = i_dev ip, st_ino = i_inum ip, st_nlink = i_nlink ip, st_size = i_size ip\<rparr>"

end
