(* ===== verification/Devices.thy ===== *)
theory Devices
  imports Inode
begin

text \<open>
  The interrupt hardware: the 8259A controllers (\<^verbatim>\<open>picirq.c\<close>), the I/O APIC (\<^verbatim>\<open>ioapic.c\<close>), the local APIC
  (\<^verbatim>\<open>lapic.c\<close>) and the interval timer (\<^verbatim>\<open>timer.c\<close>). Port output is recorded as the sequence of bytes written; the
  APICs are their register files. \<^verbatim>\<open>ioapicinit\<close> and \<^verbatim>\<open>cpunum\<close>, which print, are in theory \<^verbatim>\<open>Console\<close>.
\<close>

section \<open>State\<close>

text \<open>
  \<open>irqmask\<close> is the static variable of \<^verbatim>\<open>picirq.c\<close>; \<open>ioapic_reg\<close> are the registers behind the I/O APIC's index
  register; \<open>lapic\<close> is null until \<^verbatim>\<open>mpinit\<close> finds the table, then the local APIC's registers.
\<close>

record dev_state = icache_state +
  ports :: "(u16 \<times> u8) list"
  irqmask :: u16
  ismp :: bool
  ioapicid :: u8
  ioapic_reg :: "nat \<Rightarrow> u32"
  lapic :: "(nat \<Rightarrow> u32) option"

lemma hw_frame_dev [simp]:
  "acq lk (s\<lparr>ports := x\<rparr>) = (acq lk s)\<lparr>ports := x\<rparr>" "ports (acq lk s) = ports s" "lapic (acq lk s) = lapic s"
  "lockable lk (s\<lparr>ports := x\<rparr>) = lockable lk s" "lockable lk (s\<lparr>irqmask := m\<rparr>) = lockable lk s"
  "lockable lk (s\<lparr>ioapic_reg := r\<rparr>) = lockable lk s" "lockable lk (s\<lparr>lapic := l\<rparr>) = lockable lk s"
  by (simp_all add: acq_def lockable_def)

definition outb :: "u16 \<Rightarrow> u8 \<Rightarrow> ('a dev_state_scheme, unit) kop" where
  "outb port data = kmod (\<lambda>s. s\<lparr>ports := ports s @ [(port, data)]\<rparr>)"

definition outbs :: "(u16 \<times> u8) list \<Rightarrow> ('a dev_state_scheme, unit) kop" where
  "outbs ws = kforeach ws (\<lambda>(p, d). outb p d)"

lemma outbs_eq: "outbs ws s = Ret () (s\<lparr>ports := ports s @ ws\<rparr>)"
  by (induction ws arbitrary: s) (auto simp: outbs_def outb_def kop_simps)

section \<open>The 8259A controllers\<close>

abbreviation (input) IO_PIC1 :: u16 where "IO_PIC1 \<equiv> 0x20"
abbreviation (input) IO_PIC2 :: u16 where "IO_PIC2 \<equiv> 0xA0"
abbreviation (input) IRQ_SLAVE :: nat where "IRQ_SLAVE \<equiv> 2"

definition picsetmask :: "u16 \<Rightarrow> ('a dev_state_scheme, unit) kop" where
  "picsetmask m = kseq (kmod (\<lambda>s. s\<lparr>irqmask := m\<rparr>))
     (kseq (outb (IO_PIC1 + 1) (ucast m)) (outb (IO_PIC2 + 1) (ucast (drop_bit 8 m))))"

definition picenable :: "nat \<Rightarrow> ('a dev_state_scheme, unit) kop" where
  "picenable irq s = picsetmask (irqmask s AND NOT (push_bit irq 1)) s"

definition picinit :: "('a dev_state_scheme, unit) kop" where
  "picinit = kseq (outbs [(IO_PIC1 + 1, 0xFF), (IO_PIC2 + 1, 0xFF),
       (IO_PIC1, 0x11), (IO_PIC1 + 1, ucast T_IRQ0), (IO_PIC1 + 1, push_bit IRQ_SLAVE 1), (IO_PIC1 + 1, 0x3),
       (IO_PIC2, 0x11), (IO_PIC2 + 1, ucast T_IRQ0 + 8), (IO_PIC2 + 1, of_nat IRQ_SLAVE), (IO_PIC2 + 1, 0x3),
       (IO_PIC1, 0x68), (IO_PIC1, 0x0a), (IO_PIC2, 0x68), (IO_PIC2, 0x0a)])
     (\<lambda>s. if irqmask s \<noteq> 0xFFFF then picsetmask (irqmask s) s else Ret () s)"

section \<open>The timer\<close>

abbreviation (input) IO_TIMER1 :: u16 where "IO_TIMER1 \<equiv> 0x40"

definition TIMER_DIV :: "nat \<Rightarrow> nat" where
  "TIMER_DIV x = (1193182 + x div 2) div x"

definition timerinit :: "('a dev_state_scheme, unit) kop" where
  "timerinit = kseq (outbs [(IO_TIMER1 + 3, 0x00 OR 0x04 OR 0x30),
       (IO_TIMER1, of_nat (TIMER_DIV 100 mod 256)), (IO_TIMER1, of_nat (TIMER_DIV 100 div 256))])
     (picenable (unat IRQ_TIMER))"

section \<open>The I/O APIC\<close>

abbreviation (input) REG_TABLE :: nat where "REG_TABLE \<equiv> 0x10"
abbreviation (input) INT_DISABLED :: u32 where "INT_DISABLED \<equiv> 0x00010000"

definition ioapicread :: "nat \<Rightarrow> 'a dev_state_scheme \<Rightarrow> u32" where
  "ioapicread reg s = ioapic_reg s reg"

definition ioapicwrite :: "nat \<Rightarrow> u32 \<Rightarrow> ('a dev_state_scheme, unit) kop" where
  "ioapicwrite reg data = kmod (\<lambda>s. s\<lparr>ioapic_reg := (ioapic_reg s)(reg := data)\<rparr>)"

definition ioapic_clear :: "nat \<Rightarrow> ('a dev_state_scheme, unit) kop" where
  "ioapic_clear i = kseq (ioapicwrite (REG_TABLE + 2 * i) (INT_DISABLED OR (T_IRQ0 + of_nat i)))
     (ioapicwrite (REG_TABLE + 2 * i + 1) 0)"

definition ioapicenable :: "nat \<Rightarrow> u32 \<Rightarrow> ('a dev_state_scheme, unit) kop" where
  "ioapicenable irq cpunum s = (if \<not> ismp s then Ret () s
     else kseq (ioapicwrite (REG_TABLE + 2 * irq) (T_IRQ0 + of_nat irq))
       (ioapicwrite (REG_TABLE + 2 * irq + 1) (push_bit 24 cpunum)) s)"

section \<open>The local APIC\<close>

text \<open>Register indices are the byte offsets of the source divided by four.\<close>

definition lapicw :: "nat \<Rightarrow> u32 \<Rightarrow> ('a dev_state_scheme, unit) kop" where
  "lapicw index value s = (case lapic s of None \<Rightarrow> Fault | Some r \<Rightarrow> Ret () (s\<lparr>lapic := Some (r(index := value))\<rparr>))"

definition lapicws :: "(nat \<times> u32) list \<Rightarrow> ('a dev_state_scheme, unit) kop" where
  "lapicws ws = kforeach ws (\<lambda>(i, v). lapicw i v)"

abbreviation (input) LAPIC_ID :: nat where "LAPIC_ID \<equiv> 0x20 div 4"
abbreviation (input) VER :: nat where "VER \<equiv> 0x30 div 4"
abbreviation (input) TPR :: nat where "TPR \<equiv> 0x80 div 4"
abbreviation (input) EOI :: nat where "EOI \<equiv> 0xB0 div 4"
abbreviation (input) SVR :: nat where "SVR \<equiv> 0xF0 div 4"
abbreviation (input) ESR :: nat where "ESR \<equiv> 0x280 div 4"
abbreviation (input) ICRLO :: nat where "ICRLO \<equiv> 0x300 div 4"
abbreviation (input) ICRHI :: nat where "ICRHI \<equiv> 0x310 div 4"
abbreviation (input) LTIMER :: nat where "LTIMER \<equiv> 0x320 div 4"
abbreviation (input) PCINT :: nat where "PCINT \<equiv> 0x340 div 4"
abbreviation (input) LINT0 :: nat where "LINT0 \<equiv> 0x350 div 4"
abbreviation (input) LINT1 :: nat where "LINT1 \<equiv> 0x360 div 4"
abbreviation (input) LERROR :: nat where "LERROR \<equiv> 0x370 div 4"
abbreviation (input) TICR :: nat where "TICR \<equiv> 0x380 div 4"
abbreviation (input) TDCR :: nat where "TDCR \<equiv> 0x3E0 div 4"
abbreviation (input) MASKED :: u32 where "MASKED \<equiv> 0x00010000"
abbreviation (input) IRQ_ERROR :: u32 where "IRQ_ERROR \<equiv> 19"

text \<open>
  The loop that waits for the delivery of the interrupt command reads the register just written: it goes on for
  ever if the delivery bit stays set.
\<close>

definition lapicinit :: "('a dev_state_scheme, unit) kop" where
  "lapicinit s = (case lapic s of None \<Rightarrow> Ret () s
     | Some r0 \<Rightarrow>
       kseq (lapicws [(SVR, 0x100 OR (T_IRQ0 + IRQ_SPURIOUS)),
         (TDCR, 0xB), (LTIMER, 0x20000 OR (T_IRQ0 + IRQ_TIMER)), (TICR, 10000000),
         (LINT0, MASKED), (LINT1, MASKED)])
      (kseq (\<lambda>s. case lapic s of None \<Rightarrow> Fault
           | Some r \<Rightarrow> if drop_bit 16 (r VER) AND 0xFF \<ge> 4 then lapicw PCINT MASKED s else Ret () s)
      (kseq (lapicws [(LERROR, T_IRQ0 + IRQ_ERROR), (ESR, 0), (ESR, 0), (EOI, 0),
         (ICRHI, 0), (ICRLO, 0x80000 OR 0x500 OR 0x8000)])
      (kseq (\<lambda>s. case lapic s of None \<Rightarrow> Fault | Some r \<Rightarrow> if r ICRLO AND 0x1000 \<noteq> 0 then Hang else Ret () s)
        (lapicw TPR 0)))) s)"

definition lapiceoi :: "('a dev_state_scheme, unit) kop" where
  "lapiceoi s = (if lapic s \<noteq> None then lapicw EOI 0 s else Ret () s)"

text \<open>\<^verbatim>\<open>microdelay\<close> has an empty body.\<close>

definition microdelay :: "nat \<Rightarrow> ('a dev_state_scheme, unit) kop" where
  "microdelay us = kret ()"

text \<open>The warm reset vector is at physical address \<^verbatim>\<open>40:67\<close>.\<close>

definition store16 :: "u32 \<Rightarrow> u16 \<Rightarrow> memory \<Rightarrow> memory" where
  "store16 a w m = m(a := ucast w, a + 1 := ucast (drop_bit 8 w))"

definition lapicstartap :: "u8 \<Rightarrow> u32 \<Rightarrow> ('a dev_state_scheme, unit) kop" where
  "lapicstartap apicid addr = kseq (outbs [(0x70, 0xF), (0x71, 0x0A)])
    (kseq (kmod (\<lambda>s. let wrv = p2v (push_bit 4 0x40 OR 0x67) in
       s\<lparr>mem := store16 (wrv + 2) (ucast (drop_bit 4 addr)) (store16 wrv 0 (mem s))\<rparr>))
    (kseq (lapicws [(ICRHI, push_bit 24 (ucast apicid)), (ICRLO, 0x500 OR 0x8000 OR 0x4000)])
    (kseq (microdelay 200)
    (kseq (lapicws [(ICRLO, 0x500 OR 0x8000)])
    (kseq (microdelay 100)
    (kforeach [0..<2::nat] (\<lambda>i.
       kseq (lapicws [(ICRHI, push_bit 24 (ucast apicid)), (ICRLO, 0x600 OR drop_bit 12 addr)])
         (microdelay 200))))))))"

section \<open>What they do\<close>

text \<open>The mask the two controllers hold, as the last bytes written to their data ports.\<close>

definition last_write :: "u16 \<Rightarrow> (u16 \<times> u8) list \<Rightarrow> u8 option" where
  "last_write p ws = map_option snd (find (\<lambda>w. fst w = p) (rev ws))"

definition pic_mask :: "(u16 \<times> u8) list \<Rightarrow> u16 option" where
  "pic_mask ws = (case last_write (IO_PIC1 + 1) ws of None \<Rightarrow> None | Some lo \<Rightarrow>
     (case last_write (IO_PIC2 + 1) ws of None \<Rightarrow> None | Some hi \<Rightarrow> Some (ucast lo OR push_bit 8 (ucast hi))))"

lemma join_bytes: "ucast (ucast w :: u8) OR push_bit 8 (ucast (ucast (drop_bit 8 w) :: u8)) = (w :: u16)"
proof (rule bit_word_eqI)
  fix n assume n: "n < LENGTH(16)"
  show "bit (ucast (ucast w :: u8) OR push_bit 8 (ucast (ucast (drop_bit 8 w) :: u8)) :: u16) n = bit w n"
    using n by (cases "n < 8") (auto simp: bit_or_iff bit_push_bit_iff bit_ucast_iff bit_drop_bit_eq)
qed

lemma picsetmask_eq:
  "picsetmask m s = Ret () (s\<lparr>irqmask := m, ports := ports s @ [(0x21, ucast m), (0xA1, ucast (drop_bit 8 m))]\<rparr>)"
  by (simp add: picsetmask_def outb_def kop_simps)

lemma pic_mask_append: "pic_mask (ws @ [(0x21, ucast m), (0xA1, ucast (drop_bit 8 m))]) = Some m"
  using join_bytes [of m] by (simp add: pic_mask_def last_write_def)


section \<open>Properties\<close>

text \<open>
  C1: The controllers' mask follows the kernel's: after \<^verbatim>\<open>picinit\<close> and any sequence of \<^verbatim>\<open>picenable\<close> calls, the two
  8259As hold the 16 bits of \<^verbatim>\<open>irqmask\<close>, in which exactly the interrupts that were masked before and not enabled
  are masked.
\<close>

theorem pic_mask_follows:
  assumes "irqmask s \<noteq> 0xFFFF"
  shows "\<exists>t. kseq picinit (kforeach irqs picenable) s = Ret () t \<and> pic_mask (ports t) = Some (irqmask t) \<and>
    (\<forall>n. bit (irqmask t) n = (bit (irqmask s) n \<and> n \<notin> set irqs))"
proof -
  have loop: "\<exists>t. kforeach irqs picenable u = Ret () t \<and> pic_mask (ports t) = Some (irqmask t) \<and>
      (\<forall>n. bit (irqmask t) n = (bit (irqmask u) n \<and> n \<notin> set irqs))"
    if "pic_mask (ports u) = Some (irqmask u)" for u :: "'a dev_state_scheme"
    using that
  proof (induction irqs arbitrary: u)
    case (Cons i irqs)
    define m where "m = irqmask u AND NOT (push_bit i 1)"
    let ?v = "u\<lparr>irqmask := m, ports := ports u @ [(0x21, ucast m), (0xA1, ucast (drop_bit 8 m))]\<rparr>"
    have b: "bit m n = (bit (irqmask u) n \<and> n \<noteq> i)" for n
      by (auto simp: m_def bit_and_iff bit_not_iff bit_exp_iff dest: bit_imp_le_length)
    have "pic_mask (ports ?v) = Some (irqmask ?v)" using pic_mask_append [of "ports u" m] by simp
    from Cons.IH [OF this] obtain t where t: "kforeach irqs picenable ?v = Ret () t" "pic_mask (ports t) = Some (irqmask t)"
        "\<forall>n. bit (irqmask t) n = (bit m n \<and> n \<notin> set irqs)" by auto
    moreover have "picenable i u = Ret () ?v" by (simp add: picenable_def picsetmask_eq m_def)
    ultimately show ?case using b by (auto simp: kseq_eq)
  qed (simp add: kret_def)
  obtain ws where w: "picinit s = picsetmask (irqmask s) (s\<lparr>ports := ws\<rparr>)"
    using assms by (simp add: picinit_def kseq_eq [OF outbs_eq])
  let ?u = "s\<lparr>ports := ws @ [(0x21, ucast (irqmask s)), (0xA1, ucast (drop_bit 8 (irqmask s)))]\<rparr>"
  have u: "picinit s = Ret () ?u" by (simp add: w picsetmask_eq)
  have "pic_mask (ports ?u) = Some (irqmask ?u)" using pic_mask_append [of ws "irqmask s"] by simp
  from loop [OF this] show ?thesis unfolding kseq_eq [of picinit s ?u, OF u] by simp
qed

end
