(* ===== verification/CString.thy ===== *)
theory CString
  imports Params
begin

text \<open>
  The NUL-terminated strings of \<^verbatim>\<open>string.c\<close> (\<^verbatim>\<open>strncmp\<close>, \<^verbatim>\<open>strncpy\<close>, \<^verbatim>\<open>safestrcpy\<close>, \<^verbatim>\<open>strlen\<close>), of \<^verbatim>\<open>ulib.c\<close>
  (\<^verbatim>\<open>strcpy\<close>, \<^verbatim>\<open>strcmp\<close>, \<^verbatim>\<open>strlen\<close>, \<^verbatim>\<open>strchr\<close>, \<^verbatim>\<open>atoi\<close>), and the name comparison and path splitting of
  \<^verbatim>\<open>fs.c\<close> (\<^verbatim>\<open>namecmp\<close>, \<^verbatim>\<open>skipelem\<close>). A \<^verbatim>\<open>char*\<close> is the list of bytes from the pointer to the end of the object it
  points into; \<open>None\<close> is the read past that end.
\<close>

section \<open>Operations\<close>

fun strncmp :: "u8 list \<Rightarrow> u8 list \<Rightarrow> nat \<Rightarrow> int option" where
  "strncmp p q 0 = Some 0"
| "strncmp (a # p) (b # q) (Suc n) = (if a \<noteq> 0 \<and> a = b then strncmp p q n else Some (uint a - uint b))"
| "strncmp p q (Suc n) = None"

text \<open>The first loop of \<^verbatim>\<open>strncpy\<close> and the padding of the second; the result is the \<^verbatim>\<open>n\<close> bytes written to \<^verbatim>\<open>s\<close>.\<close>

fun strncpy :: "u8 list \<Rightarrow> nat \<Rightarrow> u8 list option" where
  "strncpy t 0 = Some []"
| "strncpy [] (Suc n) = None"
| "strncpy (c # t) (Suc n) = (if c = 0 then Some (0 # replicate n 0) else map_option (Cons c) (strncpy t n))"

text \<open>The loop of \<^verbatim>\<open>safestrcpy\<close> with \<^verbatim>\<open>n - 1\<close> still to go, and the NUL it ends with; the rest of the buffer keeps its bytes.\<close>

fun safecpy_loop :: "u8 list \<Rightarrow> nat \<Rightarrow> u8 list option" where
  "safecpy_loop t 0 = Some [0]"
| "safecpy_loop [] (Suc n) = None"
| "safecpy_loop (c # t) (Suc n) = (if c = 0 then Some [0, 0] else map_option (Cons c) (safecpy_loop t n))"

definition safestrcpy :: "u8 list \<Rightarrow> u8 list \<Rightarrow> nat \<Rightarrow> u8 list option" where
  "safestrcpy s t n = (if n = 0 then Some s
     else map_option (\<lambda>w. w @ drop (length w) s) (safecpy_loop t (n - 1)))"

fun strlen :: "u8 list \<Rightarrow> nat option" where
  "strlen [] = None"
| "strlen (c # s) = (if c = 0 then Some 0 else map_option Suc (strlen s))"

fun strcpy :: "u8 list \<Rightarrow> u8 list option" where
  "strcpy [] = None"
| "strcpy (c # t) = (if c = 0 then Some [0] else map_option (Cons c) (strcpy t))"

fun strcmp :: "u8 list \<Rightarrow> u8 list \<Rightarrow> int option" where
  "strcmp (a # p) (b # q) = (if a \<noteq> 0 \<and> a = b then strcmp p q else Some (uint a - uint b))"
| "strcmp p q = None"

text \<open>\<^verbatim>\<open>strchr\<close> returns a pointer to the character, or null.\<close>

fun strchr :: "u8 list \<Rightarrow> u8 \<Rightarrow> u8 list option option" where
  "strchr [] c = None"
| "strchr (a # s) c = (if a = 0 then Some None else if a = c then Some (Some (a # s)) else strchr s c)"

definition is_digit :: "u8 \<Rightarrow> bool" where
  "is_digit c \<longleftrightarrow> 48 \<le> c \<and> c \<le> 57"

text \<open>\<^verbatim>\<open>atoi\<close> computes in 32-bit arithmetic.\<close>

fun atoi_loop :: "u8 list \<Rightarrow> u32 \<Rightarrow> u32 option" where
  "atoi_loop [] n = None"
| "atoi_loop (c # s) n = (if is_digit c then atoi_loop s (n * 10 + ucast c - 48) else Some n)"

definition atoi :: "u8 list \<Rightarrow> u32 option" where
  "atoi s = atoi_loop s 0"

definition namecmp :: "u8 list \<Rightarrow> u8 list \<Rightarrow> int option" where
  "namecmp s t = strncmp s t DIRSIZ"

abbreviation (input) SLASH :: u8 where "SLASH \<equiv> 47"

text \<open>
  \<^verbatim>\<open>skipelem\<close>: the new path and the new contents of the 14 bytes \<^verbatim>\<open>name\<close>, or null. The outer \<open>None\<close> is a path
  that is not terminated.
\<close>

fun skip_slashes :: "u8 list \<Rightarrow> u8 list option" where
  "skip_slashes [] = None"
| "skip_slashes (c # s) = (if c = SLASH then skip_slashes s else Some (c # s))"

fun split_elem :: "u8 list \<Rightarrow> (u8 list \<times> u8 list) option" where
  "split_elem [] = None"
| "split_elem (c # s) =
     (if c \<noteq> SLASH \<and> c \<noteq> 0 then map_option (\<lambda>(e, r). (c # e, r)) (split_elem s) else Some ([], c # s))"

definition set_name :: "u8 list \<Rightarrow> u8 list \<Rightarrow> u8 list" where
  "set_name name s = (if length s \<ge> DIRSIZ then take DIRSIZ s else (s @ [0]) @ drop (length s + 1) name)"

definition skipelem :: "u8 list \<Rightarrow> u8 list \<Rightarrow> (u8 list \<times> u8 list) option option" where
  "skipelem path name =
     (case skip_slashes path of None \<Rightarrow> None | Some p \<Rightarrow>
        if hd p = 0 then Some None
        else case split_elem p of None \<Rightarrow> None | Some (e, r) \<Rightarrow>
          (case skip_slashes r of None \<Rightarrow> None | Some r' \<Rightarrow> Some (Some (r', set_name name e))))"

section \<open>Laws\<close>

text \<open>The string a pointer denotes, and that it is one: a NUL comes before the end.\<close>

definition cstr :: "u8 list \<Rightarrow> u8 list" where
  "cstr s = takeWhile (\<lambda>c. c \<noteq> 0) s"

lemma cstr_simps [simp]: "cstr [] = []" "cstr (c # s) = (if c = 0 then [] else c # cstr s)"
  by (simp_all add: cstr_def)

lemma strncmp_zero:
  "strncmp p q n = Some d \<Longrightarrow> d = 0 \<longleftrightarrow> take n (cstr p) = take n (cstr q)"
proof (induction p q n rule: strncmp.induct)
  case (2 a p b q n)
  then show ?case by (auto split: if_splits simp: word_uint_eq_iff)
qed auto

lemma strncmp_defined:
  "0 \<in> set p \<or> n \<le> length p \<Longrightarrow> 0 \<in> set q \<or> n \<le> length q \<Longrightarrow> strncmp p q n \<noteq> None"
  by (induction p q n rule: strncmp.induct) auto

lemma strncmp_sign:
  "strncmp p q n = Some d \<Longrightarrow> strncmp q p n = Some (- d)"
  by (induction p q n arbitrary: d rule: strncmp.induct) (auto split: if_splits)

lemma strncpy_length: "strncpy t n = Some w \<Longrightarrow> length w = n"
  by (induction t n arbitrary: w rule: strncpy.induct) (auto split: if_splits)

lemma cstr_zeros [simp]: "cstr (replicate n 0) = []"
  by (cases n) simp_all

lemma strncpy_cstr: "strncpy t n = Some w \<Longrightarrow> cstr w = take n (cstr t)"
  by (induction t n arbitrary: w rule: strncpy.induct) (auto split: if_splits)

lemma strncpy_defined: "0 \<in> set t \<or> n \<le> length t \<Longrightarrow> strncpy t n \<noteq> None"
  by (induction t n rule: strncpy.induct) auto

lemma strlen_eq: "strlen s = (if 0 \<in> set s then Some (length (cstr s)) else None)"
  by (induction s) auto

lemma safecpy_cstr:
  "safecpy_loop t n = Some w \<Longrightarrow> cstr w = take n (cstr t) \<and> 0 \<in> set w \<and> length w \<le> Suc n"
  by (induction t n arbitrary: w rule: safecpy_loop.induct) (auto split: if_splits)

section \<open>Path names\<close>

text \<open>The elements of a path, as the comment above \<^verbatim>\<open>skipelem\<close> describes them: what stands between slashes.\<close>

function comps :: "u8 list \<Rightarrow> u8 list list" where
  "comps s = (let p = dropWhile (\<lambda>c. c = SLASH) s in
     if p = [] then [] else takeWhile (\<lambda>c. c \<noteq> SLASH) p # comps (dropWhile (\<lambda>c. c \<noteq> SLASH) p))"
  by pat_completeness auto
termination
proof (relation "measure length")
  fix s p :: "u8 list" assume p: "p = dropWhile (\<lambda>c. c = SLASH) s" "p \<noteq> []"
  then have "hd p \<noteq> SLASH" using hd_dropWhile [of "\<lambda>c. c = SLASH" s] by simp
  then have "length (dropWhile (\<lambda>c. c \<noteq> SLASH) p) < length p"
    using p(2) by (cases p) (auto simp: le_imp_less_Suc length_dropWhile_le)
  then show "(dropWhile (\<lambda>c. c \<noteq> SLASH) p, s) \<in> measure length"
    using length_dropWhile_le [of "\<lambda>c. c = SLASH" s] p(1) by simp
qed simp

declare comps.simps [simp del]

lemma comps_Nil: "comps s = [] \<longleftrightarrow> dropWhile (\<lambda>c. c = SLASH) s = []"
  by (subst comps.simps) (simp add: Let_def)

lemma comps_skip: "comps (dropWhile (\<lambda>c. c = SLASH) s) = comps s"
proof -
  have "dropWhile (\<lambda>c. c = SLASH) (dropWhile (\<lambda>c. c = SLASH) s) = dropWhile (\<lambda>c. c = SLASH) s"
    by (rule dropWhile_idem)
  then show ?thesis using comps.simps [of s] comps.simps [of "dropWhile (\<lambda>c. c = SLASH) s"] by simp
qed

lemma skip_slashes_eq:
  "0 \<in> set s \<Longrightarrow> \<exists>r. skip_slashes s = Some r \<and> 0 \<in> set r \<and> cstr r = dropWhile (\<lambda>c. c = SLASH) (cstr s) \<and>
     hd r \<noteq> SLASH \<and> length r \<le> length s"
  by (induction s) (auto simp: le_Suc_eq)

lemma split_elem_eq:
  "0 \<in> set s \<Longrightarrow> \<exists>r. split_elem s = Some (takeWhile (\<lambda>c. c \<noteq> SLASH) (cstr s), r) \<and> 0 \<in> set r \<and>
     cstr r = dropWhile (\<lambda>c. c \<noteq> SLASH) (cstr s) \<and> length r \<le> length s"
  by (induction s) auto

lemma split_elem_length: "split_elem t = Some (e, u) \<Longrightarrow> length u \<le> length t"
proof (induction t arbitrary: e)
  case (Cons c t)
  then show ?case by (cases "split_elem t") (auto split: if_splits)
qed simp

lemma cstr_no_nul: "0 \<notin> set s \<Longrightarrow> cstr (s @ t) = s @ cstr t"
  by (induction s) auto

lemma nul_cstr: "0 \<notin> set (cstr s)"
  by (auto simp: cstr_def dest: set_takeWhileD)

lemma set_name_spec:
  assumes "length name = DIRSIZ" "0 \<notin> set e"
  shows "length (set_name name e) = DIRSIZ" "cstr (set_name name e) = take DIRSIZ e"
proof -
  show "length (set_name name e) = DIRSIZ" using assms(1) by (auto simp: set_name_def)
  have "cstr (take DIRSIZ e @ []) = take DIRSIZ e"
    using assms(2) cstr_no_nul [of "take DIRSIZ e" "[]"] in_set_takeD [of 0 DIRSIZ e] by auto
  then show "cstr (set_name name e) = take DIRSIZ e" using assms(2) by (auto simp: set_name_def cstr_no_nul)
qed

lemma skipelem_comps:
  assumes path: "0 \<in> set path" and name: "length name = DIRSIZ"
  shows "case comps (cstr path) of [] \<Rightarrow> skipelem path name = Some None
    | e # es \<Rightarrow> \<exists>r nm. skipelem path name = Some (Some (r, nm)) \<and> comps (cstr r) = es \<and> 0 \<in> set r \<and>
        (hd r = 0 \<longleftrightarrow> es = []) \<and> length nm = DIRSIZ \<and> cstr nm = take DIRSIZ e \<and> length r < length path"
proof -
  obtain p where p: "skip_slashes path = Some p" "0 \<in> set p" "cstr p = dropWhile (\<lambda>c. c = SLASH) (cstr path)"
      "hd p \<noteq> SLASH" "length p \<le> length path" using skip_slashes_eq [OF path] by blast
  have hd0: "hd p = 0 \<longleftrightarrow> cstr p = []" using p(2) by (cases p) auto
  show ?thesis
  proof (cases "cstr p = []")
    case True
    then have "comps (cstr path) = []" using p(3) by (simp add: comps_Nil)
    then show ?thesis using p(1) hd0 True by (simp add: skipelem_def)
  next
    case False
    obtain r where r: "split_elem p = Some (takeWhile (\<lambda>c. c \<noteq> SLASH) (cstr p), r)" "0 \<in> set r"
        "cstr r = dropWhile (\<lambda>c. c \<noteq> SLASH) (cstr p)" "length r \<le> length p" using split_elem_eq [OF p(2)] by blast
    obtain r' where r': "skip_slashes r = Some r'" "0 \<in> set r'" "cstr r' = dropWhile (\<lambda>c. c = SLASH) (cstr r)"
        "hd r' \<noteq> SLASH" "length r' \<le> length r" using skip_slashes_eq [OF r(2)] by blast
    let ?e = "takeWhile (\<lambda>c. c \<noteq> SLASH) (cstr p)"
    have comps: "comps (cstr path) = ?e # comps (cstr r')"
      unfolding comps.simps [of "cstr path"] p(3) [symmetric] r'(3) comps_skip r(3) using False by (simp add: Let_def)
    have "hd r' = 0 \<longleftrightarrow> comps (cstr r') = []"
      unfolding comps_Nil using r'(2,4) by (cases r') auto
    moreover have e0: "0 \<notin> set ?e" using nul_cstr [of p] by (auto dest: set_takeWhileD)
    moreover have "length r < length path"
    proof -
      obtain c q where q: "p = c # q" using p(2) by (cases p) auto
      then have "c \<noteq> SLASH" "c \<noteq> 0" using False p(4) by auto
      then have "split_elem p = map_option (\<lambda>(e, r). (c # e, r)) (split_elem q)" by (simp add: q)
      then obtain e where "split_elem q = Some (e, r)" using r(1) by (cases "split_elem q") auto
      then have "length r \<le> length q" by (rule split_elem_length)
      then show ?thesis using q p(5) by simp
    qed
    ultimately show ?thesis
      using comps set_name_spec [OF name e0] p r r' hd0 False by (simp add: skipelem_def)
  qed
qed

section \<open>Numbers\<close>

definition decimal :: "u8 list \<Rightarrow> nat" where
  "decimal ds = foldl (\<lambda>n c. n * 10 + (unat c - 48)) 0 ds"

lemma atoi_loop_eq:
  assumes "\<exists>c \<in> set s. \<not> is_digit c"
  shows "atoi_loop s (of_nat n) = Some (of_nat (foldl (\<lambda>n c. n * 10 + (unat c - 48)) n (takeWhile is_digit s)))"
  using assms
proof (induction s arbitrary: n)
  case (Cons c s)
  show ?case
  proof (cases "is_digit c")
    case True
    then have c: "48 \<le> unat c" by (simp add: is_digit_def word_le_nat_alt)
    have "(ucast c :: u32) = of_nat (unat c)" by simp
    then have e: "(of_nat n * 10 + ucast c - 48 :: u32) = of_nat (n * 10 + (unat c - 48))"
      using c by (simp only: of_nat_add of_nat_mult of_nat_diff of_nat_numeral add_diff_eq)
    show ?thesis using True Cons.prems Cons.IH [of "n * 10 + (unat c - 48)"] by (simp only: atoi_loop.simps e) simp
  qed simp
qed simp

section \<open>Properties\<close>

text \<open>
  C23: \<^verbatim>\<open>skipelem\<close> takes the first element off a path, whatever slashes surround it: on a terminated path it
  returns null exactly when the path has no element, and otherwise leaves a shorter terminated path with the
  remaining elements, empty exactly when there are none, and the element's first \<^verbatim>\<open>DIRSIZ\<close> bytes in \<^verbatim>\<open>name\<close>.
\<close>

theorem skipelem_correct:
  assumes "0 \<in> set path" "length name = DIRSIZ"
  shows "case comps (cstr path) of [] \<Rightarrow> skipelem path name = Some None
    | e # es \<Rightarrow> \<exists>r nm. skipelem path name = Some (Some (r, nm)) \<and> comps (cstr r) = es \<and> 0 \<in> set r \<and>
        (hd r = 0 \<longleftrightarrow> es = []) \<and> length nm = DIRSIZ \<and> cstr nm = take DIRSIZ e \<and> length r < length path"
  by (rule skipelem_comps [OF assms])

theorem skipelem_correct_witness:
  "\<exists>r nm. skipelem [47, 47, 97, 47, 98, 98, 0] (replicate 14 0) = Some (Some (r, nm)) \<and> cstr nm = [97] \<and> comps (cstr r) = [[98, 98]]"
proof -
  have "comps (cstr [47, 47, 97, 47, 98, 98, 0]) = [[97], [98, 98]]" by (simp add: comps.simps Let_def)
  then show ?thesis using skipelem_correct [of "[47, 47, 97, 47, 98, 98, 0]" "replicate 14 0"] by auto
qed

text \<open>
  C24: Directory names compare as they are stored: a name copied into an entry by \<^verbatim>\<open>strncpy\<close> matches exactly the
  names that agree with it in their first \<^verbatim>\<open>DIRSIZ\<close> bytes; neither routine reads past the ends.
\<close>

theorem stored_name_matches:
  assumes "0 \<in> set s" "0 \<in> set t"
  shows "\<exists>w d. strncpy s DIRSIZ = Some w \<and> length w = DIRSIZ \<and> namecmp t w = Some d \<and>
    (d = 0 \<longleftrightarrow> take DIRSIZ (cstr t) = take DIRSIZ (cstr s))"
proof -
  obtain w where w: "strncpy s DIRSIZ = Some w" using strncpy_defined [of s DIRSIZ] assms(1) by auto
  then have len: "length w = DIRSIZ" by (rule strncpy_length)
  obtain d where d: "strncmp t w DIRSIZ = Some d" using strncmp_defined [of t DIRSIZ w] assms(2) len by auto
  show ?thesis using w len d strncmp_zero [OF d] strncpy_cstr [OF w] by (simp add: namecmp_def)
qed

theorem stored_name_matches_witness:
  "\<exists>w. strncpy [97, 98, 0] DIRSIZ = Some w \<and> namecmp [97, 98, 0] w = Some 0"
  using stored_name_matches [of "[97, 98, 0]" "[97, 98, 0]"] by auto



end
