(* ===== verification/Console.thy ===== *)
theory Console
  imports Devices CString
begin

text \<open>
  The console: its output (\<^verbatim>\<open>consputc\<close>, \<^verbatim>\<open>cgaputc\<close>, \<^verbatim>\<open>cprintf\<close>, \<^verbatim>\<open>printint\<close>), its line discipline (\<^verbatim>\<open>consoleintr\<close>,
  \<^verbatim>\<open>consoleread\<close>, \<^verbatim>\<open>consolewrite\<close>, \<^verbatim>\<open>consoleinit\<close>) from \<^verbatim>\<open>console.c\<close>; the serial port (\<^verbatim>\<open>uart.c\<close>); the keyboard
  (\<^verbatim>\<open>kbd.c\<close>, \<^verbatim>\<open>kbd.h\<close>); and the routines elsewhere that print: \<^verbatim>\<open>procdump\<close> of \<^verbatim>\<open>proc.c\<close> with \<^verbatim>\<open>getcallerpcs\<close> of
  \<^verbatim>\<open>spinlock.c\<close>, \<^verbatim>\<open>ioapicinit\<close> and \<^verbatim>\<open>cpunum\<close>.
\<close>

section \<open>State\<close>

abbreviation (input) INPUT_BUF :: nat where "INPUT_BUF \<equiv> 128"
abbreviation (input) BACKSPACE :: u32 where "BACKSPACE \<equiv> 0x100"
abbreviation (input) NEWLINE :: u8 where "NEWLINE \<equiv> 10"
abbreviation (input) CTL_D :: u8 where "CTL_D \<equiv> 4"
abbreviation (input) CONSOLE :: nat where "CONSOLE \<equiv> 1"

record input =
  in_buf :: "u8 list"
  in_r :: u32
  in_w :: u32
  in_e :: u32

text \<open>The device functions a \<^verbatim>\<open>devsw\<close> entry may point to: only the console installs any.\<close>

datatype devfn = Dev_console

record devsw_entry =
  dev_read :: "devfn option"
  dev_write :: "devfn option"

text \<open>
  \<open>crt\<close> is the page of 25 rows of 80 cells of the CGA memory and \<open>crt_pos\<close> the cursor registers of its controller;
  \<open>serial_out\<close> are the bytes sent to the serial port. \<open>uart_in\<close> and \<open>kbd_in\<close> are the bytes the two input devices
  hold ready, \<open>kbd_shift\<close> the static variable of \<^verbatim>\<open>kbdgetc\<close>, \<open>cpunum_n\<close> that of \<^verbatim>\<open>cpunum\<close>.
\<close>

record cons_state = dev_state +
  cons_locking :: bool
  panicked :: bool
  crt :: "u16 list"
  crt_pos :: u16
  uart :: bool
  serial_out :: "u8 list"
  uart_in :: "u8 list"
  kbd_in :: "u8 list"
  kbd_shift :: u32
  cpunum_n :: int
  input :: input
  devsw :: "devsw_entry list"

lemma hw_frame_cons [simp]:
  "acq lk (s\<lparr>input := i\<rparr>) = (acq lk s)\<lparr>input := i\<rparr>" "input (acq lk s) = input s"
  "lockable lk (s\<lparr>input := i\<rparr>) = lockable lk s"
  "acq lk (s\<lparr>crt := c\<rparr>) = (acq lk s)\<lparr>crt := c\<rparr>" "crt (acq lk s) = crt s" "lockable lk (s\<lparr>crt := c\<rparr>) = lockable lk s"
  "acq lk (s\<lparr>crt_pos := p\<rparr>) = (acq lk s)\<lparr>crt_pos := p\<rparr>" "crt_pos (acq lk s) = crt_pos s"
  "lockable lk (s\<lparr>crt_pos := p\<rparr>) = lockable lk s"
  "acq lk (s\<lparr>serial_out := o'\<rparr>) = (acq lk s)\<lparr>serial_out := o'\<rparr>" "serial_out (acq lk s) = serial_out s"
  "lockable lk (s\<lparr>serial_out := o'\<rparr>) = lockable lk s"
  "lockable lk (s\<lparr>kbd_in := b\<rparr>) = lockable lk s" "lockable lk (s\<lparr>kbd_shift := h\<rparr>) = lockable lk s"
  "lockable lk (s\<lparr>uart_in := b\<rparr>) = lockable lk s"
  "panicked (acq lk s) = panicked s" "uart (acq lk s) = uart s" "cons_locking (acq lk s) = cons_locking s"
  "acq lk (s\<lparr>kbd_in := b\<rparr>) = (acq lk s)\<lparr>kbd_in := b\<rparr>" "kbd_in (acq lk s) = kbd_in s"
  "acq lk (s\<lparr>kbd_shift := h\<rparr>) = (acq lk s)\<lparr>kbd_shift := h\<rparr>" "kbd_shift (acq lk s) = kbd_shift s"
  "acq lk (s\<lparr>uart_in := b\<rparr>) = (acq lk s)\<lparr>uart_in := b\<rparr>" "uart_in (acq lk s) = uart_in s"
  by (simp_all add: acq_def lockable_def)

definition bytes :: "string \<Rightarrow> u8 list" where
  "bytes cs = map of_char cs"

section \<open>Output\<close>

text \<open>
  \<^verbatim>\<open>uartputc\<close> polls the transmitter at most 128 times, with \<^verbatim>\<open>microdelay\<close> in between, and then sends the byte
  whatever the answers were.
\<close>

definition uartputc :: "u32 \<Rightarrow> ('a cons_state_scheme, unit) kop" where
  "uartputc c = kmod (\<lambda>s. if uart s then s\<lparr>serial_out := serial_out s @ [ucast c]\<rparr> else s)"

text \<open>\<^verbatim>\<open>lsr\<close> is the line status the port answers with.\<close>

definition uartinit :: "u8 \<Rightarrow> ('a cons_state_scheme, unit) kop" where
  "uartinit lsr = kseq (outbs [(0x3fa, 0), (0x3fb, 0x80), (0x3f8, of_nat (115200 div 9600)), (0x3f9, 0), (0x3fb, 0x03), (0x3fc, 0), (0x3f9, 0x01)])
     (if lsr = 0xFF then kret ()
      else kseq (kmod (\<lambda>s. s\<lparr>uart := True\<rparr>))
          (kseq (picenable (unat IRQ_COM1))
          (kseq (ioapicenable (unat IRQ_COM1) 0)
                (kforeach (bytes ''xv6...'' @ [NEWLINE]) (\<lambda>c. uartputc (ucast c))))))"

text \<open>A write beyond the page, and a negative count in the \<^verbatim>\<open>memset\<close> that blanks the last line, are undefined.\<close>

definition cga_scroll :: "u16 list \<Rightarrow> nat \<Rightarrow> (u16 list \<times> nat) option" where
  "cga_scroll cells pos =
     (if pos div 80 \<ge> 24 then
        let up = take (23 * 80) (drop 80 cells) @ drop (23 * 80) cells; p = pos - 80 in
        if p > 24 * 80 then None
        else Some (take p up @ replicate (24 * 80 - p) 0 @ drop (24 * 80) up, p)
      else Some (cells, pos))"

definition cgaputc :: "u32 \<Rightarrow> ('a cons_state_scheme, unit) kop" where
  "cgaputc c s =
     (let pos = unat (crt_pos s);
          put = (if c = ucast NEWLINE then Some (crt s, pos + (80 - pos mod 80))
                 else if c = BACKSPACE then Some (crt s, if pos > 0 then pos - 1 else pos)
                 else if pos < length (crt s) then Some ((crt s)[pos := (ucast c AND 0xff) OR 0x0700], pos + 1)
                 else None) in
      case put of None \<Rightarrow> Fault | Some (cells, pos) \<Rightarrow>
        (case cga_scroll cells pos of None \<Rightarrow> Fault | Some (cells, pos) \<Rightarrow>
           if pos < length cells
           then Ret () (s\<lparr>crt_pos := of_nat pos, crt := cells[pos := 0x20 OR 0x0700]\<rparr>)
           else Fault))"

definition consputc :: "u32 \<Rightarrow> ('a cons_state_scheme, unit) kop" where
  "consputc c s =
     (if panicked s then Hang
      else kseq (if c = BACKSPACE then kseq (uartputc 8) (kseq (uartputc 32) (uartputc 8)) else uartputc c)
        (cgaputc c) s)"

definition hexdigits :: "u8 list" where
  "hexdigits = bytes ''0123456789abcdef''"

text \<open>The do-while loop of \<^verbatim>\<open>printint\<close>: the digits of \<^verbatim>\<open>x\<close>, the last one first.\<close>

function print_digits :: "u8 list \<Rightarrow> nat \<Rightarrow> nat \<Rightarrow> u8 list" where
  "print_digits ds base x =
     ds ! (x mod base) # (if x div base \<noteq> 0 \<and> 1 < base then print_digits ds base (x div base) else [])"
  by auto
termination by (relation "measure (\<lambda>(ds, base, x). x)") (auto intro!: div_less_dividend intro: gr0I)

declare print_digits.simps [simp del]

definition int_chars :: "u8 list \<Rightarrow> u32 \<Rightarrow> nat \<Rightarrow> bool \<Rightarrow> u8 list" where
  "int_chars ds xx base sg =
     (let neg = (sg \<and> xx <s 0); x = (if neg then - xx else xx) in
      print_digits ds base (unat x) @ (if neg then [45] else []))"

definition printint :: "u32 \<Rightarrow> nat \<Rightarrow> bool \<Rightarrow> ('a cons_state_scheme, unit) kop" where
  "printint xx base sg = kforeach (rev (int_chars hexdigits xx base sg)) (\<lambda>c. consputc (ucast c))"

text \<open>An argument of \<^verbatim>\<open>cprintf\<close>: a word, or a pointer to a string, which may be null.\<close>

datatype carg = A_int u32 | A_str "u8 list option"

definition putstr :: "u8 list \<Rightarrow> ('a cons_state_scheme, unit) kop" where
  "putstr cs = (if 0 \<in> set cs then kforeach (cstr cs) (\<lambda>c. consputc (ucast c)) else kfault)"

fun cprintf_loop :: "u8 list \<Rightarrow> carg list \<Rightarrow> ('a cons_state_scheme, unit) kop" where
  "cprintf_loop [] args = kfault"
| "cprintf_loop (c # fmt) args =
     (if c = 0 then kret ()
      else if c \<noteq> 37 then kseq (consputc (ucast c)) (cprintf_loop fmt args)
      else case fmt of [] \<Rightarrow> kfault | d # fmt' \<Rightarrow>
        if d = 0 then kret ()
        else if d = 100 then
          (case args of A_int x # args' \<Rightarrow> kseq (printint x 10 True) (cprintf_loop fmt' args') | _ \<Rightarrow> kfault)
        else if d = 120 \<or> d = 112 then
          (case args of A_int x # args' \<Rightarrow> kseq (printint x 16 False) (cprintf_loop fmt' args') | _ \<Rightarrow> kfault)
        else if d = 115 then
          (case args of A_str p # args' \<Rightarrow>
             kseq (putstr (case p of None \<Rightarrow> bytes ''(null)'' @ [0] | Some cs \<Rightarrow> cs)) (cprintf_loop fmt' args')
           | _ \<Rightarrow> kfault)
        else if d = 37 then kseq (consputc 37) (cprintf_loop fmt' args)
        else kseq (consputc 37) (kseq (consputc (ucast d)) (cprintf_loop fmt' args)))"

definition cprintf :: "u8 list option \<Rightarrow> carg list \<Rightarrow> ('a cons_state_scheme, unit) kop" where
  "cprintf fmt args s = (let locking = cons_locking s in
     kseq (if locking then acquire L_cons else kret ())
    (kseq (case fmt of None \<Rightarrow> kpanic ''null fmt'' | Some f \<Rightarrow> cprintf_loop f args)
          (if locking then release L_cons else kret ())) s)"

abbreviation (input) print :: "string \<Rightarrow> carg list \<Rightarrow> ('a cons_state_scheme, unit) kop" where
  "print f \<equiv> cprintf (Some (bytes f @ [0]))"

section \<open>Routines that print\<close>

fun callerpcs :: "nat \<Rightarrow> memory \<Rightarrow> u32 \<Rightarrow> u32 list" where
  "callerpcs 0 m ebp = []"
| "callerpcs (Suc n) m ebp =
     (if ebp = 0 \<or> ebp < KERNBASE \<or> ebp = 0xffffffff then replicate (Suc n) 0
      else load32 m (ebp + 4) # callerpcs n m (load32 m ebp))"

definition getcallerpcs :: "u32 \<Rightarrow> 'a kmem_state_scheme \<Rightarrow> u32 list" where
  "getcallerpcs v s = callerpcs 10 (mem s) (v - 8)"

fun state_name :: "procstate \<Rightarrow> string" where
  "state_name UNUSED = ''unused''"
| "state_name EMBRYO = ''embryo''"
| "state_name SLEEPING = ''sleep ''"
| "state_name RUNNABLE = ''runble''"
| "state_name RUNNING = ''run   ''"
| "state_name ZOMBIE = ''zombie''"

definition procdump_one :: "proc \<Rightarrow> ('a cons_state_scheme, unit) kop" where
  "procdump_one p = (if pstate p = UNUSED then kret ()
     else kseq (print ''%d %s %s'' [A_int (of_int (pid p)), A_str (Some (bytes (state_name (pstate p)) @ [0])), A_str (Some (pname p))])
       (kseq (if pstate p = SLEEPING
              then kbind (kget (getcallerpcs (ctx_ebp (ctx p) + 8))) (\<lambda>pc.
                kforeach (takeWhile (\<lambda>x. x \<noteq> 0) pc) (\<lambda>x. print '' %p'' [A_int x]))
              else kret ())
        (cprintf (Some [NEWLINE, 0]) [])))"

definition procdump :: "('a cons_state_scheme, unit) kop" where
  "procdump s = kforeach (ptable s) procdump_one s"

definition ioapicinit :: "('a cons_state_scheme, unit) kop" where
  "ioapicinit s = (if \<not> ismp s then Ret () s
     else let maxintr = unat (drop_bit 16 (ioapicread 1 s) AND 0xFF); id = drop_bit 24 (ioapicread 0 s) in
       kseq (if id \<noteq> ucast (ioapicid s)
             then cprintf (Some (bytes ''ioapicinit: id isn'' @ [39] @ bytes ''t equal to ioapicid; not a MP'' @ [NEWLINE, 0])) []
             else kret ())
         (kforeach [0..<maxintr + 1] ioapic_clear) s)"

text \<open>\<^verbatim>\<open>ra\<close> is the return address it prints.\<close>

definition cpunum :: "u32 \<Rightarrow> ('a cons_state_scheme, u32) kop" where
  "cpunum ra s =
     kseq (if fl_if (this_cpu s)
           then kseq (kmod (\<lambda>s. s\<lparr>cpunum_n := cpunum_n s + 1\<rparr>))
             (if cpunum_n s = 0
              then cprintf (Some (bytes ''cpu called from %x with interrupts enabled'' @ [NEWLINE, 0])) [A_int ra] else kret ())
           else kret ())
       (kget (\<lambda>s. case lapic s of Some r \<Rightarrow> drop_bit 24 (r LAPIC_ID) | None \<Rightarrow> 0)) s"

section \<open>Keyboard and serial input\<close>

definition key_table :: "u8 list \<Rightarrow> (nat \<times> u8) list \<Rightarrow> u8 list" where
  "key_table xs entries = fold (\<lambda>(i, v) t. t[i := v]) entries (xs @ replicate (256 - length xs) 0)"

definition normalmap :: "u8 list" where
  "normalmap = key_table
    [0, 27, 49, 50, 51, 52, 53, 54, 55, 56, 57, 48, 45, 61, 8, 9,
     113, 119, 101, 114, 116, 121, 117, 105, 111, 112, 91, 93, 10, 0, 97, 115,
     100, 102, 103, 104, 106, 107, 108, 59, 39, 96, 0, 92, 122, 120, 99, 118,
     98, 110, 109, 44, 46, 47, 0, 42, 0, 32, 0, 0, 0, 0, 0, 0,
     0, 0, 0, 0, 0, 0, 0, 55, 56, 57, 45, 52, 53, 54, 43, 49,
     50, 51, 48, 46, 0, 0, 0, 0]
    [(0x9C, 10), (0xB5, 47), (0xC8, 226), (0xD0, 227), (0xC9, 230), (0xD1, 231), (0xCB, 228), (0xCD, 229), (0x97, 224), (0xCF, 225), (0xD2, 232), (0xD3, 233)]"

definition shiftmap :: "u8 list" where
  "shiftmap = key_table
    [0, 27, 33, 64, 35, 36, 37, 94, 38, 42, 40, 41, 95, 43, 8, 9,
     81, 87, 69, 82, 84, 89, 85, 73, 79, 80, 123, 125, 10, 0, 65, 83,
     68, 70, 71, 72, 74, 75, 76, 58, 34, 126, 0, 124, 90, 88, 67, 86,
     66, 78, 77, 60, 62, 63, 0, 42, 0, 32, 0, 0, 0, 0, 0, 0,
     0, 0, 0, 0, 0, 0, 0, 55, 56, 57, 45, 52, 53, 54, 43, 49,
     50, 51, 48, 46, 0, 0, 0, 0]
    [(0x9C, 10), (0xB5, 47), (0xC8, 226), (0xD0, 227), (0xC9, 230), (0xD1, 231), (0xCB, 228), (0xCD, 229), (0x97, 224), (0xCF, 225), (0xD2, 232), (0xD3, 233)]"

definition ctlmap :: "u8 list" where
  "ctlmap = key_table
    [0, 0, 0, 0, 0, 0, 0, 0, 0, 0, 0, 0, 0, 0, 0, 0,
     17, 23, 5, 18, 20, 25, 21, 9, 15, 16, 0, 0, 13, 0, 1, 19,
     4, 6, 7, 8, 10, 11, 12, 0, 0, 0, 0, 28, 26, 24, 3, 22,
     2, 14, 13, 0, 0, 239, 0, 0]
    [(0x9C, 13), (0xB5, 239), (0xC8, 226), (0xD0, 227), (0xC9, 230), (0xD1, 231), (0xCB, 228), (0xCD, 229), (0x97, 224), (0xCF, 225), (0xD2, 232), (0xD3, 233)]"

definition shiftcode :: "u8 list" where
  "shiftcode = key_table [] [(0x1D, 2), (0x2A, 1), (0x36, 1), (0x38, 4), (0x9D, 2), (0xB8, 4)]"

definition togglecode :: "u8 list" where
  "togglecode = key_table [] [(0x3A, 8), (0x45, 16), (0x46, 32)]"

abbreviation (input) E0ESC :: u32 where "E0ESC \<equiv> 64"

definition charcode :: "u32 \<Rightarrow> u8 list" where
  "charcode i = (if i = 0 then normalmap else if i = 1 then shiftmap else ctlmap)"

definition capslock :: "u32 \<Rightarrow> u32" where
  "capslock c = (if 97 \<le> c \<and> c \<le> 122 then c - 32 else if 65 \<le> c \<and> c \<le> 90 then c + 32 else c)"

text \<open>One byte from the keyboard: the new shift state and the character.\<close>

definition kbd_byte :: "u32 \<Rightarrow> u8 \<Rightarrow> u32 \<times> u32" where
  "kbd_byte shift data =
     (if data = 0xE0 then (shift OR E0ESC, 0)
      else if data AND 0x80 \<noteq> 0 then
        (let d = (if shift AND E0ESC \<noteq> 0 then data else data AND 0x7F) in
         (shift AND NOT (ucast (shiftcode ! unat d) OR E0ESC), 0))
      else
        (let d = (if shift AND E0ESC \<noteq> 0 then data OR 0x80 else data);
             s1 = (if shift AND E0ESC \<noteq> 0 then shift AND NOT E0ESC else shift);
             s2 = (s1 OR ucast (shiftcode ! unat d)) XOR ucast (togglecode ! unat d);
             c = ucast (charcode (s2 AND 3) ! unat d) in
         (s2, if s2 AND 8 \<noteq> 0 then capslock c else c)))"

definition kbdgetc :: "('a cons_state_scheme, int) kop" where
  "kbdgetc s = (case kbd_in s of [] \<Rightarrow> Ret (-1) s
     | data # rest \<Rightarrow> let (shift, c) = kbd_byte (kbd_shift s) data in
         Ret (sint c) (s\<lparr>kbd_in := rest, kbd_shift := shift\<rparr>))"

definition uartgetc :: "('a cons_state_scheme, int) kop" where
  "uartgetc s = (if \<not> uart s then Ret (-1) s
     else case uart_in s of [] \<Rightarrow> Ret (-1) s | c # rest \<Rightarrow> Ret (uint c) (s\<lparr>uart_in := rest\<rparr>))"

section \<open>The line discipline\<close>

definition buf_at :: "input \<Rightarrow> u32 \<Rightarrow> u8" where
  "buf_at i k = in_buf i ! (unat k mod INPUT_BUF)"

text \<open>
  \<^verbatim>\<open>^U\<close>: the loop that erases the line under edit. It runs at most \<^verbatim>\<open>input.e - input.w\<close> times, which is the bound it
  is given.
\<close>

fun kill_line :: "nat \<Rightarrow> ('a cons_state_scheme, unit) kop" where
  "kill_line n s =
     (if in_e (input s) \<noteq> in_w (input s) \<and> buf_at (input s) (in_e (input s) - 1) \<noteq> NEWLINE
      then case n of 0 \<Rightarrow> Hang
        | Suc m \<Rightarrow> kseq (kmod (\<lambda>s. s\<lparr>input := (input s)\<lparr>in_e := in_e (input s) - 1\<rparr>\<rparr>))
            (kseq (consputc BACKSPACE) (kill_line m)) s
      else Ret () s)"

definition console_key :: "int \<Rightarrow> ('a cons_state_scheme, unit) kop" where
  "console_key c s =
     (let i = input s in
      if c = 16 then procdump s
      else if c = 21 then kill_line (unat (in_e i - in_w i)) s
      else if c = 8 \<or> c = 0x7f then
        (if in_e i \<noteq> in_w i
         then kseq (kmod (\<lambda>s. s\<lparr>input := i\<lparr>in_e := in_e i - 1\<rparr>\<rparr>)) (consputc BACKSPACE) s
         else Ret () s)
      else if c \<noteq> 0 \<and> in_e i - in_r i < of_nat INPUT_BUF then
        (let ch = (if c = 13 then NEWLINE else of_int c);
             j = i\<lparr>in_buf := (in_buf i)[unat (in_e i) mod INPUT_BUF := ch], in_e := in_e i + 1\<rparr> in
         kseq (kmod (\<lambda>s. s\<lparr>input := j\<rparr>))
        (kseq (consputc (if c = 13 then ucast NEWLINE else of_int c))
          (if ch = NEWLINE \<or> c = 4 \<or> in_e j = in_r j + of_nat INPUT_BUF
           then kseq (kmod (\<lambda>s. s\<lparr>input := j\<lparr>in_w := in_e j\<rparr>\<rparr>)) (wakeup Ch_input)
           else kret ())) s)
      else Ret () s)"

text \<open>The loop of \<^verbatim>\<open>consoleintr\<close>, with a bound on the characters \<^verbatim>\<open>getc\<close> may deliver.\<close>

fun console_drain :: "nat \<Rightarrow> ('a cons_state_scheme, int) kop \<Rightarrow> ('a cons_state_scheme, unit) kop" where
  "console_drain 0 getc = (\<lambda>s. Hang)"
| "console_drain (Suc n) getc = kbind getc (\<lambda>c. if c < 0 then kret () else kseq (console_key c) (console_drain n getc))"

definition consoleintr :: "nat \<Rightarrow> ('a cons_state_scheme, int) kop \<Rightarrow> ('a cons_state_scheme, unit) kop" where
  "consoleintr n getc = kseq (acquire L_input) (kseq (console_drain n getc) (release L_input))"

definition kbdintr :: "('a cons_state_scheme, unit) kop" where
  "kbdintr s = consoleintr (length (kbd_in s) + 1) kbdgetc s"

definition uartintr :: "('a cons_state_scheme, unit) kop" where
  "uartintr s = consoleintr (length (uart_in s) + 1) uartgetc s"

text \<open>
  \<^verbatim>\<open>consoleread\<close> from the head of its loop on: \<^verbatim>\<open>n\<close> bytes are still wanted of \<^verbatim>\<open>target\<close>, and \<open>out\<close> has been stored
  at \<^verbatim>\<open>dst\<close>. The result is the return value and the bytes stored.
\<close>

definition consoleread_done :: "nat \<Rightarrow> int \<Rightarrow> u8 list \<Rightarrow> ('a cons_state_scheme, int \<times> u8 list) kop" where
  "consoleread_done ip r out = kseq (release L_input) (kseq (ilock (Some ip)) (kret (r, out)))"

fun consoleread_loop :: "nat \<Rightarrow> nat \<Rightarrow> nat \<Rightarrow> u8 list \<Rightarrow> ('a cons_state_scheme, int \<times> u8 list) kop" where
  "consoleread_loop ip target 0 out = consoleread_done ip (int target) out"
| "consoleread_loop ip target (Suc n) out = (\<lambda>s. let i = input s in
     if in_r i = in_w i then
       (case cur s of None \<Rightarrow> Fault | Some p \<Rightarrow>
          if killed (ptable s ! p) then consoleread_done ip (-1) out s
          else sleep_retry Ch_input L_input s)
     else let c = buf_at i (in_r i) in
       if c = CTL_D then
         kseq (if Suc n < target then kret () else kmod (\<lambda>s. s\<lparr>input := i\<lparr>in_r := in_r i + 1\<rparr>\<rparr>))
           (consoleread_done ip (int target - int (Suc n)) out) s
       else
         kseq (kmod (\<lambda>s. s\<lparr>input := i\<lparr>in_r := in_r i + 1\<rparr>\<rparr>))
           (if c = NEWLINE then consoleread_done ip (int target - int n) (out @ [c])
            else consoleread_loop ip target n (out @ [c])) s)"

definition consoleread :: "nat \<Rightarrow> nat \<Rightarrow> ('a cons_state_scheme, int \<times> u8 list) kop" where
  "consoleread ip n = kseq (iunlock (Some ip)) (kseq (acquire L_input) (consoleread_loop ip n n []))"

definition consoleread_resume :: "bool \<Rightarrow> nat \<Rightarrow> nat \<Rightarrow> nat \<Rightarrow> u8 list \<Rightarrow> ('a cons_state_scheme, int \<times> u8 list) kop" where
  "consoleread_resume ie ip target n out = kseq (sleep_resume ie L_input) (consoleread_loop ip target n out)"

definition consolewrite :: "nat \<Rightarrow> u8 list \<Rightarrow> ('a cons_state_scheme, int) kop" where
  "consolewrite ip cs = kseq (iunlock (Some ip)) (kseq (acquire L_cons)
     (kseq (kforeach cs (\<lambda>c. consputc (ucast c)))
     (kseq (release L_cons) (kseq (ilock (Some ip)) (kret (int (length cs)))))))"

definition consoleinit :: "('a cons_state_scheme, unit) kop" where
  "consoleinit = kseq (initlock L_cons ''console'') (kseq (initlock L_input ''input'')
     (kseq (kmod (\<lambda>s. s\<lparr>devsw := (devsw s)[CONSOLE := \<lparr>dev_read = Some Dev_console, dev_write = Some Dev_console\<rparr>]\<rparr>))
     (kseq (kmod (\<lambda>s. s\<lparr>cons_locking := True\<rparr>))
     (kseq (picenable (unat IRQ_KBD)) (ioapicenable (unat IRQ_KBD) 0)))))"

end
