(* ===== verification/Fs.thy ===== *)
theory Fs
  imports Console
begin

text \<open>
  The upper half of the file system (\<^verbatim>\<open>fs.c\<close>): reading and writing the contents of an inode (\<^verbatim>\<open>readi\<close>, \<^verbatim>\<open>writei\<close>),
  directories (\<^verbatim>\<open>dirlookup\<close>, \<^verbatim>\<open>dirlink\<close>) and path names (\<^verbatim>\<open>namex\<close>, \<^verbatim>\<open>namei\<close>, \<^verbatim>\<open>nameiparent\<close>). A routine that stores
  into a caller's buffer returns the bytes it stores; one that reads from it is given the bytes.
\<close>

section \<open>Contents\<close>

text \<open>The loop of \<^verbatim>\<open>readi\<close>: \<open>n\<close> bytes are still to be read at \<open>off\<close>.\<close>

function readi_loop :: "nat \<Rightarrow> nat \<Rightarrow> nat \<Rightarrow> ('a cons_state_scheme, u8 list) kop" where
  "readi_loop ip off n =
     (if n = 0 then kret []
      else let m = min n (BSIZE - off mod BSIZE) in
        kbind (kget (\<lambda>s. i_dev (the_inode ip s))) (\<lambda>dev.
        kbind (bmap ip (of_nat (off div BSIZE))) (\<lambda>b.
        kbind (bread dev b) (\<lambda>bp.
        kbind (kget (\<lambda>s. slice (off mod BSIZE) m (buf_data bp s))) (\<lambda>d.
        kseq (brelse bp)
       (kbind (readi_loop ip (off + m) (n - m)) (\<lambda>ds. kret (d @ ds))))))))"
  by auto
termination by (relation "measure (\<lambda>(ip, off, n). n)") auto

declare readi_loop.simps [simp del]

definition dev_of :: "(devsw_entry \<Rightarrow> devfn option) \<Rightarrow> inode \<Rightarrow> 'a cons_state_scheme \<Rightarrow> devfn option" where
  "dev_of f x s = (if sint (i_major x) < 0 \<or> sint (i_major x) \<ge> int NDEV then None
     else f (devsw s ! nat (sint (i_major x))))"

definition readi :: "nat \<Rightarrow> u32 \<Rightarrow> u32 \<Rightarrow> ('a cons_state_scheme, int \<times> u8 list) kop" where
  "readi ip off n s =
     (let x = the_inode ip s in
      if i_type x = T_DEV then
        (case dev_of dev_read x s of None \<Rightarrow> Ret (-1, []) s
         | Some Dev_console \<Rightarrow> consoleread ip (nat (sint n)) s)
      else if off > i_size x \<or> off + n < off then Ret (-1, []) s
      else let n = (if off + n > i_size x then i_size x - off else n) in
        kbind (readi_loop ip (unat off) (unat n)) (\<lambda>ds. kret (sint n, ds)) s)"

text \<open>The loop of \<^verbatim>\<open>writei\<close>: \<open>src\<close> is still to be written at \<open>off\<close>.\<close>

function writei_loop :: "nat \<Rightarrow> nat \<Rightarrow> u8 list \<Rightarrow> ('a cons_state_scheme, unit) kop" where
  "writei_loop ip off src =
     (if src = [] then kret ()
      else let m = min (length src) (BSIZE - off mod BSIZE) in
        kbind (kget (\<lambda>s. i_dev (the_inode ip s))) (\<lambda>dev.
        kbind (bmap ip (of_nat (off div BSIZE))) (\<lambda>b.
        kbind (bread dev b) (\<lambda>bp.
        kseq (set_data bp (splice (off mod BSIZE) (take m src)))
       (kseq (log_write bp)
       (kseq (brelse bp) (writei_loop ip (off + m) (drop m src))))))))"
  by auto
termination by (relation "measure (\<lambda>(ip, off, src). length src)") auto

declare writei_loop.simps [simp del]

text \<open>\<open>src\<close> are the \<^verbatim>\<open>n\<close> bytes at \<^verbatim>\<open>src\<close>.\<close>

definition writei :: "nat \<Rightarrow> u8 list \<Rightarrow> u32 \<Rightarrow> ('a cons_state_scheme, int) kop" where
  "writei ip src off s =
     (let x = the_inode ip s; n = of_nat (length src) :: u32 in
      if i_type x = T_DEV then
        (case dev_of dev_write x s of None \<Rightarrow> Ret (-1) s
         | Some Dev_console \<Rightarrow> consolewrite ip src s)
      else if off > i_size x \<or> off + n < off then Ret (-1) s
      else if off + n > of_nat (MAXFILE * BSIZE) then Ret (-1) s
      else kseq (writei_loop ip (unat off) src)
        (kseq (\<lambda>s. if n > 0 \<and> off + n > i_size (the_inode ip s)
               then kseq (upd_inode ip (\<lambda>x. x\<lparr>i_size := off + n\<rparr>)) (iupdate ip) s
               else Ret () s)
          (kret (sint n))) s)"

section \<open>Directories\<close>

text \<open>The offsets \<^verbatim>\<open>0, 16, ...\<close> below the size of a directory.\<close>

definition dir_offs :: "u32 \<Rightarrow> nat list" where
  "dir_offs n = map (\<lambda>k. 16 * k) [0..<(unat n + 15) div 16]"

definition read_dirent :: "nat \<Rightarrow> nat \<Rightarrow> ('a cons_state_scheme, dirent) kop" where
  "read_dirent dp off = kbind (readi dp (of_nat off) 16) (\<lambda>(r, bs).
     if r \<noteq> 16 then kpanic ''dirlink read'' else kret (dec_dirent bs))"

text \<open>\<^verbatim>\<open>dirlookup\<close> returns the inode together with the offset it stores at \<^verbatim>\<open>poff\<close>.\<close>

definition dirlookup_entry :: "nat \<Rightarrow> u8 list \<Rightarrow> nat \<Rightarrow> ('a cons_state_scheme, (nat \<times> u32) option) kop" where
  "dirlookup_entry dp name off = kbind (read_dirent dp off) (\<lambda>de.
     if de_inum de = 0 then kret None
     else case namecmp name (de_name de) of None \<Rightarrow> kfault
       | Some d \<Rightarrow>
         if d = 0 then kbind (kget (\<lambda>s. i_dev (the_inode dp s))) (\<lambda>dev.
           kbind (iget dev (ucast (de_inum de))) (\<lambda>i. kret (Some (i, of_nat off))))
         else kret None)"

definition dirlookup :: "nat \<Rightarrow> u8 list \<Rightarrow> ('a cons_state_scheme, (nat \<times> u32) option) kop" where
  "dirlookup dp name s =
     (if i_type (the_inode dp s) \<noteq> T_DIR then Panic ''dirlookup not DIR''
      else kfor (dir_offs (i_size (the_inode dp s))) (dirlookup_entry dp name) s)"

definition dir_free_entry :: "nat \<Rightarrow> nat \<Rightarrow> ('a cons_state_scheme, nat option) kop" where
  "dir_free_entry dp off = kbind (read_dirent dp off) (\<lambda>de. kret (if de_inum de = 0 then Some off else None))"

definition dirlink :: "nat \<Rightarrow> u8 list \<Rightarrow> u32 \<Rightarrow> ('a cons_state_scheme, int) kop" where
  "dirlink dp name inum = kbind (dirlookup dp name) (\<lambda>found.
     case found of
       Some (ip, _) \<Rightarrow> kseq (iput ip) (kret (-1))
     | None \<Rightarrow> kbind (kget (\<lambda>s. dir_offs (i_size (the_inode dp s)))) (\<lambda>offs.
         kbind (kfor offs (dir_free_entry dp)) (\<lambda>r.
         let off = (case r of Some off \<Rightarrow> off | None \<Rightarrow> 16 * length offs) in
         case strncpy name DIRSIZ of None \<Rightarrow> kfault
         | Some nm \<Rightarrow>
           kbind (writei dp (enc_dirent \<lparr>de_inum = ucast inum, de_name = nm\<rparr>) (of_nat off)) (\<lambda>w.
             if w \<noteq> 16 then kpanic ''dirlink'' else kret 0))))"

section \<open>Paths\<close>

lemma skip_slashes_length: "skip_slashes p = Some r \<Longrightarrow> length r \<le> length p \<and> r \<noteq> [] \<and> hd r \<noteq> SLASH"
  by (induction p) (auto split: if_splits)

lemma split_elem_parts: "split_elem p = Some (e, r) \<Longrightarrow> length e + length r = length p"
  by (induction p arbitrary: e r) (auto split: if_splits)

lemma skipelem_shorter: "skipelem path name = Some (Some (r, nm)) \<Longrightarrow> length r < length path"
proof -
  assume "skipelem path name = Some (Some (r, nm))"
  then obtain p e q where *: "skip_slashes path = Some p" "hd p \<noteq> 0" "split_elem p = Some (e, q)" "skip_slashes q = Some r"
    by (auto simp: skipelem_def split: option.splits if_splits prod.splits)
  have "e \<noteq> []" using *(2,3) skip_slashes_length [OF *(1)] by (cases p) (auto split: if_splits)
  then have "0 < length e" by simp
  then show ?thesis
    using skip_slashes_length [OF *(1)] split_elem_parts [OF *(3)] skip_slashes_length [OF *(4)] by linarith
qed

text \<open>\<^verbatim>\<open>namex\<close> returns the inode and the contents of the buffer \<^verbatim>\<open>name\<close>.\<close>

function namex_loop :: "nat \<Rightarrow> u8 list \<Rightarrow> bool \<Rightarrow> u8 list \<Rightarrow> ('a cons_state_scheme, nat option \<times> u8 list) kop" where
  "namex_loop ip path np name =
     (case skipelem path name of
        None \<Rightarrow> kfault
      | Some None \<Rightarrow> if np then kseq (iput ip) (kret (None, name)) else kret (Some ip, name)
      | Some (Some (path', name')) \<Rightarrow>
          kseq (ilock (Some ip))
         (kbind (kget (\<lambda>s. i_type (the_inode ip s))) (\<lambda>type.
            if type \<noteq> T_DIR then kseq (iunlockput ip) (kret (None, name'))
            else if np \<and> hd path' = 0 then kseq (iunlock (Some ip)) (kret (Some ip, name'))
            else kbind (dirlookup ip name') (\<lambda>found.
              case found of
                None \<Rightarrow> kseq (iunlockput ip) (kret (None, name'))
              | Some (next, _) \<Rightarrow> kseq (iunlockput ip) (namex_loop next path' np name')))))"
  by auto
termination by (relation "measure (\<lambda>(ip, path, np, name). length path)") (auto dest: skipelem_shorter)

declare namex_loop.simps [simp del]

definition namex :: "u8 list \<Rightarrow> bool \<Rightarrow> u8 list \<Rightarrow> ('a cons_state_scheme, nat option \<times> u8 list) kop" where
  "namex path np name =
     (case path of [] \<Rightarrow> kfault | c # _ \<Rightarrow>
        kbind (if c = SLASH then iget ROOTDEV ROOTINO
               else (\<lambda>s. case cur s of None \<Rightarrow> Fault | Some p \<Rightarrow>
                 (case cwd (ptable s ! p) of None \<Rightarrow> Fault | Some ip \<Rightarrow> idup ip s)))
          (\<lambda>ip. namex_loop ip path np name))"

text \<open>The local buffer \<^verbatim>\<open>name\<close> of \<^verbatim>\<open>namei\<close> is written before it is read; its initial contents do not matter.\<close>

definition namei :: "u8 list \<Rightarrow> ('a cons_state_scheme, nat option) kop" where
  "namei path = kbind (namex path False (replicate DIRSIZ 0)) (\<lambda>(ip, _). kret ip)"

definition nameiparent :: "u8 list \<Rightarrow> u8 list \<Rightarrow> ('a cons_state_scheme, nat option \<times> u8 list) kop" where
  "nameiparent path name = namex path True name"

end
