(* ===== verification/File.thy ===== *)
theory File
  imports Fs
begin

text \<open>
  Open files (\<^verbatim>\<open>file.c\<close>) and pipes (\<^verbatim>\<open>pipe.c\<close>). A \<^verbatim>\<open>struct file*\<close> is an index into \<^verbatim>\<open>ftable\<close>; a pipe is named by the
  page it lives in, and its fields are kept apart from the bytes of that page.
\<close>

section \<open>State\<close>

abbreviation (input) PIPESIZE :: nat where "PIPESIZE \<equiv> 512"

datatype filetype = FD_NONE | FD_PIPE | FD_INODE

record file_struct =
  f_type :: filetype
  f_ref :: int
  f_readable :: bool
  f_writable :: bool
  f_pipe :: u32
  f_ip :: "nat option"
  f_off :: u32

record pipe =
  p_data :: "u8 list"
  nread :: u32
  nwrite :: u32
  readopen :: bool
  writeopen :: bool

record file_state = cons_state +
  ftable :: "file_struct list"
  pipes :: "u32 \<Rightarrow> pipe"

lemma hw_frame_file [simp]:
  "acq lk (s\<lparr>ftable := x\<rparr>) = (acq lk s)\<lparr>ftable := x\<rparr>" "ftable (acq lk s) = ftable s"
  "lockable lk (s\<lparr>ftable := x\<rparr>) = lockable lk s"
  "acq lk (s\<lparr>pipes := p\<rparr>) = (acq lk s)\<lparr>pipes := p\<rparr>" "pipes (acq lk s) = pipes s"
  "lockable lk (s\<lparr>pipes := p\<rparr>) = lockable lk s"
  by (simp_all add: acq_def lockable_def)

lemma release_frame_file [simp]:
  "lockable lk s \<Longrightarrow> release lk ((acq lk s)\<lparr>ftable := x\<rparr>) = Ret () (s\<lparr>ftable := x\<rparr>)"
  "lockable lk s \<Longrightarrow> release lk ((acq lk s)\<lparr>pipes := p\<rparr>) = Ret () (s\<lparr>pipes := p\<rparr>)"
  "lockable lk s \<Longrightarrow> release lk ((acq lk s)\<lparr>pipes := p, ptable := t\<rparr>) = Ret () (s\<lparr>pipes := p, ptable := t\<rparr>)"
  using release_acq [of lk "s\<lparr>ftable := x\<rparr>"] release_acq [of lk "s\<lparr>pipes := p\<rparr>"]
    release_acq [of lk "s\<lparr>pipes := p, ptable := t\<rparr>"] by simp_all

definition upd_file :: "nat \<Rightarrow> (file_struct \<Rightarrow> file_struct) \<Rightarrow> ('a file_state_scheme, unit) kop" where
  "upd_file i f s = (if i < length (ftable s) then Ret () (s\<lparr>ftable := (ftable s)[i := f (ftable s ! i)]\<rparr>) else Fault)"

definition upd_pipe :: "u32 \<Rightarrow> (pipe \<Rightarrow> pipe) \<Rightarrow> ('a file_state_scheme, unit) kop" where
  "upd_pipe p f = kmod (\<lambda>s. s\<lparr>pipes := (pipes s)(p := f (pipes s p))\<rparr>)"

section \<open>The table of open files\<close>

definition fileinit :: "('a file_state_scheme, unit) kop" where
  "fileinit = initlock L_ftable ''ftable''"

definition filealloc :: "('a file_state_scheme, nat option) kop" where
  "filealloc = kseq (acquire L_ftable) (\<lambda>s.
     case slot_alloc (\<lambda>f. f_ref f = 0) (\<lambda>f. f\<lparr>f_ref := 1\<rparr>) (ftable s) of
       Some (i, fs) \<Rightarrow> kseq (kmod (\<lambda>s. s\<lparr>ftable := fs\<rparr>)) (kseq (release L_ftable) (kret (Some i))) s
     | None \<Rightarrow> kseq (release L_ftable) (kret None) s)"

definition filedup :: "nat \<Rightarrow> ('a file_state_scheme, nat) kop" where
  "filedup f = kseq (acquire L_ftable)
     (kseq (kassert (\<lambda>s. f_ref (ftable s ! f) \<ge> 1) ''filedup'')
     (kseq (upd_file f (\<lambda>x. x\<lparr>f_ref := f_ref x + 1\<rparr>))
     (kseq (release L_ftable) (kret f))))"

definition pipeclose :: "u32 \<Rightarrow> bool \<Rightarrow> ('a file_state_scheme, unit) kop" where
  "pipeclose p writable = kseq (acquire (L_pipe p))
     (kseq (if writable then kseq (upd_pipe p (\<lambda>x. x\<lparr>writeopen := False\<rparr>)) (wakeup (Ch_nread p))
            else kseq (upd_pipe p (\<lambda>x. x\<lparr>readopen := False\<rparr>)) (wakeup (Ch_nwrite p)))
     (\<lambda>s. if \<not> readopen (pipes s p) \<and> \<not> writeopen (pipes s p)
          then kseq (release (L_pipe p)) (kfree p) s
          else release (L_pipe p) s))"

definition fileclose :: "nat \<Rightarrow> ('a file_state_scheme, unit) kop" where
  "fileclose f = kseq (acquire L_ftable)
     (kseq (kassert (\<lambda>s. f_ref (ftable s ! f) \<ge> 1) ''fileclose'')
     (kseq (upd_file f (\<lambda>x. x\<lparr>f_ref := f_ref x - 1\<rparr>))
     (kbind (kget (\<lambda>s. ftable s ! f)) (\<lambda>ff.
        if f_ref ff > 0 then release L_ftable
        else kseq (upd_file f (\<lambda>x. x\<lparr>f_ref := 0, f_type := FD_NONE\<rparr>))
          (kseq (release L_ftable)
          (case f_type ff of
             FD_PIPE \<Rightarrow> pipeclose (f_pipe ff) (f_writable ff)
           | FD_INODE \<Rightarrow> (case f_ip ff of None \<Rightarrow> kfault
               | Some ip \<Rightarrow> kseq begin_trans (kseq (iput ip) commit_trans))
           | FD_NONE \<Rightarrow> kret ()))))))"

section \<open>Pipes\<close>

text \<open>\<^verbatim>\<open>pipealloc\<close> returns 0 and the two files, or -1 (\<open>None\<close>) after undoing what it has done.\<close>

definition pipe_bad :: "nat option \<Rightarrow> nat option \<Rightarrow> ('a file_state_scheme, (nat \<times> nat) option) kop" where
  "pipe_bad f0 f1 = kseq (case f0 of Some f \<Rightarrow> fileclose f | None \<Rightarrow> kret ())
     (kseq (case f1 of Some f \<Rightarrow> fileclose f | None \<Rightarrow> kret ()) (kret None))"

definition pipealloc :: "('a file_state_scheme, (nat \<times> nat) option) kop" where
  "pipealloc = kbind filealloc (\<lambda>r0. case r0 of None \<Rightarrow> pipe_bad None None
     | Some f0 \<Rightarrow> kbind filealloc (\<lambda>r1. case r1 of None \<Rightarrow> pipe_bad (Some f0) None
       | Some f1 \<Rightarrow> kbind kalloc (\<lambda>p. if p = 0 then pipe_bad (Some f0) (Some f1)
         else kseq (upd_pipe p (\<lambda>x. x\<lparr>readopen := True, writeopen := True, nwrite := 0, nread := 0\<rparr>))
             (kseq (initlock (L_pipe p) ''pipe'')
             (kseq (upd_file f0 (\<lambda>x. x\<lparr>f_type := FD_PIPE, f_readable := True, f_writable := False, f_pipe := p\<rparr>))
             (kseq (upd_file f1 (\<lambda>x. x\<lparr>f_type := FD_PIPE, f_readable := False, f_writable := True, f_pipe := p\<rparr>))
             (kret (Some (f0, f1)))))))))"

definition cur_killed :: "('a proc_state_scheme, bool) kop" where
  "cur_killed s = (case cur s of None \<Rightarrow> Fault | Some p \<Rightarrow> Ret (killed (ptable s ! p)) s)"

text \<open>\<^verbatim>\<open>pipewrite\<close> from the head of its loop on, with the bytes still to be written and the value it will return.\<close>

definition pipe_put :: "u8 \<Rightarrow> pipe \<Rightarrow> pipe" where
  "pipe_put c x = x\<lparr>p_data := (p_data x)[unat (nwrite x) mod PIPESIZE := c], nwrite := nwrite x + 1\<rparr>"

fun pipewrite_loop :: "u32 \<Rightarrow> int \<Rightarrow> u8 list \<Rightarrow> ('a file_state_scheme, int) kop" where
  "pipewrite_loop p n [] = kseq (wakeup (Ch_nread p)) (kseq (release (L_pipe p)) (kret n))"
| "pipewrite_loop p n (c # cs) = (\<lambda>s.
     if nwrite (pipes s p) = nread (pipes s p) + of_nat PIPESIZE then
       (if \<not> readopen (pipes s p) then kseq (release (L_pipe p)) (kret (-1)) s
        else kbind cur_killed (\<lambda>k. if k then kseq (release (L_pipe p)) (kret (-1))
          else kseq (wakeup (Ch_nread p)) (sleep_retry (Ch_nwrite p) (L_pipe p))) s)
     else kseq (upd_pipe p (pipe_put c)) (pipewrite_loop p n cs) s)"

definition pipewrite :: "u32 \<Rightarrow> u8 list \<Rightarrow> int \<Rightarrow> ('a file_state_scheme, int) kop" where
  "pipewrite p cs n = kseq (acquire (L_pipe p)) (pipewrite_loop p n cs)"

definition pipewrite_resume :: "bool \<Rightarrow> u32 \<Rightarrow> int \<Rightarrow> u8 list \<Rightarrow> ('a file_state_scheme, int) kop" where
  "pipewrite_resume ie p n cs = kseq (sleep_resume ie (L_pipe p)) (pipewrite_loop p n cs)"

text \<open>The copying loop of \<^verbatim>\<open>piperead\<close>.\<close>

fun pipe_take :: "nat \<Rightarrow> pipe \<Rightarrow> u8 list \<times> pipe" where
  "pipe_take 0 x = ([], x)"
| "pipe_take (Suc n) x =
     (if nread x = nwrite x then ([], x)
      else let (cs, y) = pipe_take n (x\<lparr>nread := nread x + 1\<rparr>) in (p_data x ! (unat (nread x) mod PIPESIZE) # cs, y))"

definition piperead_copy :: "u32 \<Rightarrow> nat \<Rightarrow> ('a file_state_scheme, int \<times> u8 list) kop" where
  "piperead_copy p n = kbind (kget (\<lambda>s. pipe_take n (pipes s p))) (\<lambda>(cs, y).
     kseq (upd_pipe p (\<lambda>_. y))
    (kseq (wakeup (Ch_nwrite p))
    (kseq (release (L_pipe p)) (kret (int (length cs), cs)))))"

definition piperead_loop :: "u32 \<Rightarrow> nat \<Rightarrow> ('a file_state_scheme, int \<times> u8 list) kop" where
  "piperead_loop p n s =
     (if nread (pipes s p) = nwrite (pipes s p) \<and> writeopen (pipes s p)
      then kbind cur_killed (\<lambda>k. if k then kseq (release (L_pipe p)) (kret (-1, []))
        else sleep_retry (Ch_nread p) (L_pipe p)) s
      else piperead_copy p n s)"

definition piperead :: "u32 \<Rightarrow> nat \<Rightarrow> ('a file_state_scheme, int \<times> u8 list) kop" where
  "piperead p n = kseq (acquire (L_pipe p)) (piperead_loop p n)"

definition piperead_resume :: "bool \<Rightarrow> u32 \<Rightarrow> nat \<Rightarrow> ('a file_state_scheme, int \<times> u8 list) kop" where
  "piperead_resume ie p n = kseq (sleep_resume ie (L_pipe p)) (piperead_loop p n)"

section \<open>Reading and writing\<close>

definition filestat :: "nat \<Rightarrow> ('a file_state_scheme, stat option) kop" where
  "filestat f s = (let x = ftable s ! f in
     if f_type x = FD_INODE
     then kseq (ilock (f_ip x))
       (kbind (kget (\<lambda>s. stati (the_inode (the (f_ip x)) s))) (\<lambda>st.
        kseq (iunlock (f_ip x)) (kret (Some st)))) s
     else Ret None s)"

definition fileread :: "nat \<Rightarrow> int \<Rightarrow> ('a file_state_scheme, int \<times> u8 list) kop" where
  "fileread f n s = (let x = ftable s ! f in
     if \<not> f_readable x then Ret (-1, []) s
     else case f_type x of
       FD_PIPE \<Rightarrow> piperead (f_pipe x) (nat n) s
     | FD_INODE \<Rightarrow>
         kseq (ilock (f_ip x))
        (kbind (readi (the (f_ip x)) (f_off x) (of_int n)) (\<lambda>(r, ds).
         kseq (if r > 0 then upd_file f (\<lambda>x. x\<lparr>f_off := f_off x + of_int r\<rparr>) else kret ())
        (kseq (iunlock (f_ip x)) (kret (r, ds))))) s
     | FD_NONE \<Rightarrow> Panic ''fileread'')"

abbreviation (input) MAXCHUNK :: nat where "MAXCHUNK \<equiv> (LOGSIZE - 1 - 1 - 2) div 2 * 512"

text \<open>One transaction of \<^verbatim>\<open>filewrite\<close>.\<close>

definition filewrite_chunk :: "nat \<Rightarrow> nat option \<Rightarrow> u8 list \<Rightarrow> ('a file_state_scheme, int) kop" where
  "filewrite_chunk f ip cs = kseq begin_trans
     (kseq (ilock ip)
     (kbind (kget (\<lambda>s. f_off (ftable s ! f))) (\<lambda>off.
      kbind (writei (the ip) cs off) (\<lambda>r.
      kseq (if r > 0 then upd_file f (\<lambda>x. x\<lparr>f_off := f_off x + of_int r\<rparr>) else kret ())
     (kseq (iunlock ip)
     (kseq commit_trans (kret r)))))))"

function filewrite_loop :: "nat \<Rightarrow> nat option \<Rightarrow> u8 list \<Rightarrow> nat \<Rightarrow> ('a file_state_scheme, int) kop" where
  "filewrite_loop f ip cs i =
     (if i < length cs then
        let n1 = min (length cs - i) MAXCHUNK in
        kbind (filewrite_chunk f ip (take n1 (drop i cs))) (\<lambda>r.
          if r < 0 then kret (-1)
          else if r \<noteq> int n1 then kpanic ''short filewrite''
          else filewrite_loop f ip cs (i + n1))
      else kret (int (length cs)))"
  by auto
termination by (relation "measure (\<lambda>(f, ip, cs, i). length cs - i)") auto

declare filewrite_loop.simps [simp del]

text \<open>\<open>cs\<close> are the bytes at \<^verbatim>\<open>addr\<close>, none when \<^verbatim>\<open>n\<close> is negative.\<close>

definition filewrite :: "nat \<Rightarrow> u8 list \<Rightarrow> int \<Rightarrow> ('a file_state_scheme, int) kop" where
  "filewrite f cs n s = (let x = ftable s ! f in
     if \<not> f_writable x then Ret (-1) s
     else case f_type x of
       FD_PIPE \<Rightarrow> pipewrite (f_pipe x) cs n s
     | FD_INODE \<Rightarrow> if n < 0 then Ret (-1) s else filewrite_loop f (f_ip x) cs 0 s
     | FD_NONE \<Rightarrow> Panic ''filewrite'')"

end
