(* ===== verification/Vm.thy ===== *)
theory Vm
  imports File
begin

text \<open>
  Virtual memory (\<^verbatim>\<open>vm.c\<close>): page tables in physical memory, which the kernel sees from \<^verbatim>\<open>KERNBASE\<close> on
  (\<^verbatim>\<open>walkpgdir\<close>, \<^verbatim>\<open>mappages\<close>, \<^verbatim>\<open>setupkvm\<close>), address spaces of processes (\<^verbatim>\<open>inituvm\<close>, \<^verbatim>\<open>loaduvm\<close>, \<^verbatim>\<open>allocuvm\<close>,
  \<^verbatim>\<open>deallocuvm\<close>, \<^verbatim>\<open>freevm\<close>, \<^verbatim>\<open>clearpteu\<close>, \<^verbatim>\<open>copyuvm\<close>, \<^verbatim>\<open>uva2ka\<close>, \<^verbatim>\<open>copyout\<close>), and the segment and
  page-table registers (\<^verbatim>\<open>seginit\<close>, \<^verbatim>\<open>switchkvm\<close>, \<^verbatim>\<open>switchuvm\<close>). A pointer to a page-table entry is its address, 0 the
  null pointer.
\<close>

section \<open>Segment descriptors\<close>

record segdesc =
  lim_15_0 :: u32
  base_15_0 :: u32
  base_23_16 :: u32
  seg_type :: u32
  seg_s :: u32
  seg_dpl :: u32
  seg_p :: u32
  lim_19_16 :: u32
  seg_avl :: u32
  seg_rsv1 :: u32
  seg_db :: u32
  seg_g :: u32
  base_31_24 :: u32

definition SEG :: "u32 \<Rightarrow> u32 \<Rightarrow> u32 \<Rightarrow> u32 \<Rightarrow> segdesc" where
  "SEG type base lim dpl =
     \<lparr>lim_15_0 = drop_bit 12 lim AND 0xffff, base_15_0 = base AND 0xffff, base_23_16 = drop_bit 16 base AND 0xff,
      seg_type = type, seg_s = 1, seg_dpl = dpl, seg_p = 1, lim_19_16 = drop_bit 28 lim, seg_avl = 0, seg_rsv1 = 0,
      seg_db = 1, seg_g = 1, base_31_24 = drop_bit 24 base\<rparr>"

definition SEG16 :: "u32 \<Rightarrow> u32 \<Rightarrow> u32 \<Rightarrow> u32 \<Rightarrow> segdesc" where
  "SEG16 type base lim dpl =
     \<lparr>lim_15_0 = lim AND 0xffff, base_15_0 = base AND 0xffff, base_23_16 = drop_bit 16 base AND 0xff,
      seg_type = type, seg_s = 1, seg_dpl = dpl, seg_p = 1, lim_19_16 = drop_bit 16 lim, seg_avl = 0, seg_rsv1 = 0,
      seg_db = 1, seg_g = 0, base_31_24 = drop_bit 24 base\<rparr>"

section \<open>State\<close>

text \<open>
  \<open>kdata\<close> is the linker's symbol \<^verbatim>\<open>data\<close>. The rest is per CPU: the page-table register, the descriptor table, the
  two fields of the task state segment the kernel sets, the selectors loaded in \<^verbatim>\<open>gs\<close> and the task register, and
  the addresses of the \<^verbatim>\<open>struct cpu\<close>'s fields \<^verbatim>\<open>cpu\<close> and \<^verbatim>\<open>ts\<close>.
\<close>

record vm_state = file_state +
  kdata :: u32
  kpgdir :: u32
  cr3 :: "nat \<Rightarrow> u32"
  gdt :: "nat \<Rightarrow> nat \<Rightarrow> segdesc"
  ts_ss0 :: "nat \<Rightarrow> u16"
  ts_esp0 :: "nat \<Rightarrow> u32"
  reg_gs :: "nat \<Rightarrow> u16"
  reg_tr :: "nat \<Rightarrow> u16"
  cpu_self :: "nat \<Rightarrow> u32"
  cpu_ts :: "nat \<Rightarrow> u32"

lemma hw_frame_vm [simp]:
  "lockable lk (s\<lparr>cr3 := c\<rparr>) = lockable lk s" "lockable lk (s\<lparr>gdt := g\<rparr>) = lockable lk s"
  "lockable lk (s\<lparr>ts_ss0 := a\<rparr>) = lockable lk s" "lockable lk (s\<lparr>ts_esp0 := e\<rparr>) = lockable lk s"
  "lockable lk (s\<lparr>reg_tr := a\<rparr>) = lockable lk s" "lockable lk (s\<lparr>kpgdir := d\<rparr>) = lockable lk s"
  by (simp_all add: lockable_def)

abbreviation (input) SEG_KCODE :: nat where "SEG_KCODE \<equiv> 1"
abbreviation (input) SEG_KDATA :: nat where "SEG_KDATA \<equiv> 2"
abbreviation (input) SEG_KCPU :: nat where "SEG_KCPU \<equiv> 3"
abbreviation (input) SEG_UC :: nat where "SEG_UC \<equiv> 4"
abbreviation (input) SEG_UD :: nat where "SEG_UD \<equiv> 5"
abbreviation (input) SEG_TSS :: nat where "SEG_TSS \<equiv> 6"

text \<open>\<^verbatim>\<open>ra\<close> is the return address \<^verbatim>\<open>cpunum\<close> would print.\<close>

definition seginit :: "u32 \<Rightarrow> ('a vm_state_scheme, unit) kop" where
  "seginit ra = kbind (cpunum ra) (\<lambda>n s. let c = unat n in
     if c < NCPU then Ret () (set_cpu ((cpus s c)\<lparr>cproc := None\<rparr>)
       (s\<lparr>gdt := (gdt s)(c := (gdt s c)(SEG_KCODE := SEG (8 OR 2) 0 0xffffffff 0,
           SEG_KDATA := SEG 2 0 0xffffffff 0, SEG_UC := SEG (8 OR 2) 0 0xffffffff 3,
           SEG_UD := SEG 2 0 0xffffffff 3, SEG_KCPU := SEG 2 (cpu_self s c) 8 0)),
         reg_gs := (reg_gs s)(c := push_bit 3 (of_nat SEG_KCPU)), mycpu := c\<rparr>))
     else Fault)"

section \<open>Page tables\<close>

definition get32 :: "u32 \<Rightarrow> ('a kmem_state_scheme, u32) kop" where
  "get32 a = kget (\<lambda>s. load32 (mem s) a)"

definition put32 :: "u32 \<Rightarrow> u32 \<Rightarrow> ('a kmem_state_scheme, unit) kop" where
  "put32 a w = kmod (\<lambda>s. s\<lparr>mem := store32 a w (mem s)\<rparr>)"

definition clear_page :: "u32 \<Rightarrow> ('a kmem_state_scheme, unit) kop" where
  "clear_page a = kmod (\<lambda>s. s\<lparr>mem := memset a 0 PGSIZE (mem s)\<rparr>)"

definition walkpgdir :: "u32 \<Rightarrow> u32 \<Rightarrow> bool \<Rightarrow> ('a kmem_state_scheme, u32) kop" where
  "walkpgdir pgd va alloc = (let pde = pgd + 4 * PDX va in
     kbind (get32 pde) (\<lambda>e.
       if e AND PTE_P \<noteq> 0 then kret (p2v (PTE_ADDR e) + 4 * PTX va)
       else if \<not> alloc then kret 0
       else kbind kalloc (\<lambda>pgtab.
         if pgtab = 0 then kret 0
         else kseq (clear_page pgtab)
             (kseq (put32 pde (v2p pgtab OR PTE_P OR PTE_W OR PTE_U))
             (kret (pgtab + 4 * PTX va))))))"

text \<open>
  The loop of \<^verbatim>\<open>mappages\<close> stops when \<^verbatim>\<open>a\<close> reaches \<^verbatim>\<open>last\<close>; both are page aligned, so it runs once for every page
  from \<^verbatim>\<open>a\<close> to \<^verbatim>\<open>last\<close>, modulo the size of the address space.
\<close>

definition map_one :: "u32 \<Rightarrow> u32 \<Rightarrow> u32 \<Rightarrow> u32 \<Rightarrow> ('a kmem_state_scheme, int option) kop" where
  "map_one pgd a pa perm = kbind (walkpgdir pgd a True) (\<lambda>pte.
     if pte = 0 then kret (Some (-1))
     else kbind (get32 pte) (\<lambda>e.
       if e AND PTE_P \<noteq> 0 then kpanic ''remap''
       else kseq (put32 pte (pa OR perm OR PTE_P)) (kret None)))"

definition mappages :: "u32 \<Rightarrow> u32 \<Rightarrow> u32 \<Rightarrow> u32 \<Rightarrow> u32 \<Rightarrow> ('a kmem_state_scheme, int) kop" where
  "mappages pgd va n pa perm =
     (let a = PGROUNDDOWN va; last = PGROUNDDOWN (va + n - 1) in
      kbind (kfor [0..<unat (last - a) div 4096 + 1] (\<lambda>k.
          map_one pgd (a + of_nat k * PGSIZE) (pa + of_nat k * PGSIZE) perm))
        (\<lambda>r. kret (case r of Some x \<Rightarrow> x | None \<Rightarrow> 0)))"

record kmap_entry =
  km_virt :: u32
  phys_start :: u32
  phys_end :: u32
  km_perm :: u32

definition kmap :: "u32 \<Rightarrow> kmap_entry list" where
  "kmap d =
     [\<lparr>km_virt = KERNBASE, phys_start = 0, phys_end = EXTMEM, km_perm = PTE_W\<rparr>,
      \<lparr>km_virt = KERNLINK, phys_start = v2p KERNLINK, phys_end = v2p d, km_perm = 0\<rparr>,
      \<lparr>km_virt = d, phys_start = v2p d, phys_end = PHYSTOP, km_perm = PTE_W\<rparr>,
      \<lparr>km_virt = DEVSPACE, phys_start = DEVSPACE, phys_end = 0, km_perm = PTE_W\<rparr>]"

definition setupkvm :: "('a vm_state_scheme, u32) kop" where
  "setupkvm = kbind kalloc (\<lambda>pgd.
     if pgd = 0 then kret 0
     else kseq (clear_page pgd)
         (kseq (kassert (\<lambda>s. \<not> (p2v PHYSTOP > DEVSPACE)) ''PHYSTOP too high'')
         (kbind (kget (\<lambda>s. kmap (kdata s))) (\<lambda>ks.
          kbind (kfor ks (\<lambda>k. kbind (mappages pgd (km_virt k) (phys_end k - phys_start k) (phys_start k) (km_perm k))
              (\<lambda>r. kret (if r < 0 then Some 0 else None))))
            (\<lambda>r. kret (case r of Some x \<Rightarrow> x | None \<Rightarrow> pgd))))))"

definition lcr3 :: "u32 \<Rightarrow> ('a vm_state_scheme, unit) kop" where
  "lcr3 a = kmod (\<lambda>s. s\<lparr>cr3 := (cr3 s)(mycpu s := a)\<rparr>)"

definition switchkvm :: "('a vm_state_scheme, unit) kop" where
  "switchkvm = kbind (kget kpgdir) (\<lambda>d. lcr3 (v2p d))"

definition kvmalloc :: "('a vm_state_scheme, unit) kop" where
  "kvmalloc = kbind setupkvm (\<lambda>d. kseq (kmod (\<lambda>s. s\<lparr>kpgdir := d\<rparr>)) switchkvm)"

text \<open>\<^verbatim>\<open>switchuvm\<close> takes the kernel stack of the current process, not of its argument.\<close>

definition switchuvm :: "nat \<Rightarrow> ('a vm_state_scheme, unit) kop" where
  "switchuvm p = kseq pushcli
     (kseq (\<lambda>s. case cur s of None \<Rightarrow> Fault
        | Some q \<Rightarrow> let c = mycpu s in
            Ret () (s\<lparr>gdt := (gdt s)(c := (gdt s c)(SEG_TSS := (SEG16 9 (cpu_ts s c) 103 0)\<lparr>seg_s := 0\<rparr>)),
              ts_ss0 := (ts_ss0 s)(c := push_bit 3 (of_nat SEG_KDATA)),
              ts_esp0 := (ts_esp0 s)(c := kstack (ptable s ! q) + KSTACKSIZE),
              reg_tr := (reg_tr s)(c := push_bit 3 (of_nat SEG_TSS))\<rparr>))
     (kseq (kassert (\<lambda>s. pgdir (ptable s ! p) \<noteq> 0) ''switchuvm: no pgdir'')
     (kseq (kbind (kget (\<lambda>s. pgdir (ptable s ! p))) (\<lambda>d. lcr3 (v2p d)))
       popcli)))"

section \<open>Address spaces\<close>

fun store_bytes :: "u32 \<Rightarrow> u8 list \<Rightarrow> memory \<Rightarrow> memory" where
  "store_bytes a [] m = m"
| "store_bytes a (b # bs) m = store_bytes (a + 1) bs (m(a := b))"

definition put_bytes :: "u32 \<Rightarrow> u8 list \<Rightarrow> ('a kmem_state_scheme, unit) kop" where
  "put_bytes a bs = kmod (\<lambda>s. s\<lparr>mem := store_bytes a bs (mem s)\<rparr>)"

text \<open>The result of \<^verbatim>\<open>kalloc\<close> is used unchecked: clearing a null page is undefined.\<close>

definition inituvm :: "u32 \<Rightarrow> u8 list \<Rightarrow> ('a kmem_state_scheme, unit) kop" where
  "inituvm pgd init =
     (if length init \<ge> 4096 then kpanic ''inituvm: more than a page''
      else kbind kalloc (\<lambda>m. if m = 0 then kfault
        else kseq (clear_page m)
            (kbind (mappages pgd 0 PGSIZE (v2p m) (PTE_W OR PTE_U)) (\<lambda>_. put_bytes m init))))"

text \<open>The addresses \<^verbatim>\<open>a, a + PGSIZE, ...\<close> below \<^verbatim>\<open>hi\<close>.\<close>

definition pages_below :: "u32 \<Rightarrow> u32 \<Rightarrow> u32 list" where
  "pages_below a hi = map (\<lambda>k. a + of_nat k * PGSIZE) [0..<(unat hi - unat a + 4095) div 4096]"

definition loaduvm :: "u32 \<Rightarrow> u32 \<Rightarrow> nat \<Rightarrow> u32 \<Rightarrow> u32 \<Rightarrow> ('a vm_state_scheme, int) kop" where
  "loaduvm pgd addr ip offset n =
     (if addr mod PGSIZE \<noteq> 0 then kpanic ''loaduvm: addr must be page aligned''
      else kbind (kfor (pages_below 0 n) (\<lambda>i.
          kbind (walkpgdir pgd (addr + i) False) (\<lambda>pte.
            if pte = 0 then kpanic ''loaduvm: address should exist''
            else kbind (get32 pte) (\<lambda>e.
              let k = (if n - i < PGSIZE then n - i else PGSIZE) in
              kbind (readi ip (offset + i) k) (\<lambda>(r, ds).
              kseq (put_bytes (p2v (PTE_ADDR e)) ds)
                (kret (if of_int r \<noteq> k then Some (-1) else None)))))))
        (\<lambda>r. kret (case r of Some x \<Rightarrow> x | None \<Rightarrow> 0)))"

text \<open>
  The loop of \<^verbatim>\<open>deallocuvm\<close>. Sizes stay below \<^verbatim>\<open>KERNBASE\<close>, or equal it in \<^verbatim>\<open>freevm\<close>, so that \<^verbatim>\<open>a\<close> does not wrap
  around, not even when it skips a missing page table.
\<close>

definition dealloc_page :: "u32 \<Rightarrow> ('a kmem_state_scheme, unit) kop" where
  "dealloc_page pte = kbind (get32 pte) (\<lambda>e.
     if e AND PTE_P \<noteq> 0 then
       (if PTE_ADDR e = 0 then kpanic ''kfree''
        else kseq (kfree (p2v (PTE_ADDR e))) (put32 pte 0))
     else kret ())"

function dealloc_loop :: "u32 \<Rightarrow> nat \<Rightarrow> nat \<Rightarrow> ('a kmem_state_scheme, unit) kop" where
  "dealloc_loop pgd a hi =
     (if a < hi then
        kbind (walkpgdir pgd (of_nat a) False) (\<lambda>pte.
          if pte = 0 then dealloc_loop pgd (a + 1023 * 4096 + 4096) hi
          else kseq (dealloc_page pte) (dealloc_loop pgd (a + 4096) hi))
      else kret ())"
  by auto
termination by (relation "measure (\<lambda>(pgd, a, hi). hi - a)") auto

declare dealloc_loop.simps [simp del]

definition deallocuvm :: "u32 \<Rightarrow> u32 \<Rightarrow> u32 \<Rightarrow> ('a kmem_state_scheme, u32) kop" where
  "deallocuvm pgd oldsz newsz =
     (if newsz \<ge> oldsz then kret oldsz
      else kseq (dealloc_loop pgd (unat (PGROUNDUP newsz)) (unat oldsz)) (kret newsz))"

text \<open>The result of \<^verbatim>\<open>mappages\<close> is ignored, as in the source.\<close>

definition alloc_page :: "u32 \<Rightarrow> u32 \<Rightarrow> u32 \<Rightarrow> u32 \<Rightarrow> ('a vm_state_scheme, u32 option) kop" where
  "alloc_page pgd oldsz newsz a = kbind kalloc (\<lambda>m.
     if m = 0 then kseq (cprintf (Some (bytes ''allocuvm out of memory'' @ [NEWLINE, 0])) [])
       (kbind (deallocuvm pgd newsz oldsz) (\<lambda>_. kret (Some 0)))
     else kseq (clear_page m)
       (kbind (mappages pgd a PGSIZE (v2p m) (PTE_W OR PTE_U)) (\<lambda>_. kret None)))"

definition allocuvm :: "u32 \<Rightarrow> u32 \<Rightarrow> u32 \<Rightarrow> ('a vm_state_scheme, u32) kop" where
  "allocuvm pgd oldsz newsz =
     (if newsz \<ge> KERNBASE then kret 0
      else if newsz < oldsz then kret oldsz
      else kbind (kfor (pages_below (PGROUNDUP oldsz) newsz) (alloc_page pgd oldsz newsz))
        (\<lambda>r. kret (case r of Some x \<Rightarrow> x | None \<Rightarrow> newsz)))"

definition freevm_entry :: "u32 \<Rightarrow> nat \<Rightarrow> ('a kmem_state_scheme, unit) kop" where
  "freevm_entry pgd i = kbind (get32 (pgd + 4 * of_nat i)) (\<lambda>e.
     if e AND PTE_P \<noteq> 0 then kfree (p2v (PTE_ADDR e)) else kret ())"

definition freevm :: "u32 \<Rightarrow> ('a kmem_state_scheme, unit) kop" where
  "freevm pgd = (if pgd = 0 then kpanic ''freevm: no pgdir''
     else kbind (deallocuvm pgd KERNBASE 0) (\<lambda>_.
       kseq (kforeach [0..<NPDENTRIES] (freevm_entry pgd)) (kfree pgd)))"

definition clearpteu :: "u32 \<Rightarrow> u32 \<Rightarrow> ('a kmem_state_scheme, unit) kop" where
  "clearpteu pgd uva = kbind (walkpgdir pgd uva False) (\<lambda>pte.
     if pte = 0 then kpanic ''clearpteu''
     else kbind (get32 pte) (\<lambda>e. put32 pte (e AND NOT PTE_U)))"

definition copy_page :: "u32 \<Rightarrow> u32 \<Rightarrow> u32 \<Rightarrow> ('a kmem_state_scheme, unit option) kop" where
  "copy_page pgd d i = kbind (walkpgdir pgd i False) (\<lambda>pte.
     if pte = 0 then kpanic ''copyuvm: pte should exist''
     else kbind (get32 pte) (\<lambda>e.
       if e AND PTE_P = 0 then kpanic ''copyuvm: page not present''
       else kbind kalloc (\<lambda>m.
         if m = 0 then kret (Some ())
         else kseq (kmod (\<lambda>s. s\<lparr>mem := memmove m (p2v (PTE_ADDR e)) PGSIZE (mem s)\<rparr>))
           (kbind (mappages d i PGSIZE (v2p m) (PTE_FLAGS e)) (\<lambda>r. kret (if r < 0 then Some () else None))))))"

definition copyuvm :: "u32 \<Rightarrow> u32 \<Rightarrow> ('a vm_state_scheme, u32) kop" where
  "copyuvm pgd n = kbind setupkvm (\<lambda>d.
     if d = 0 then kret 0
     else kbind (kfor (pages_below 0 n) (copy_page pgd d)) (\<lambda>bad.
       case bad of Some _ \<Rightarrow> kseq (freevm d) (kret 0) | None \<Rightarrow> kret d))"

text \<open>\<^verbatim>\<open>uva2ka\<close> follows the pointer \<^verbatim>\<open>walkpgdir\<close> returns without a test: a null one is undefined.\<close>

definition uva2ka :: "u32 \<Rightarrow> u32 \<Rightarrow> ('a kmem_state_scheme, u32) kop" where
  "uva2ka pgd uva = kbind (walkpgdir pgd uva False) (\<lambda>pte.
     if pte = 0 then kfault
     else kbind (get32 pte) (\<lambda>e.
       kret (if e AND PTE_P = 0 then 0 else if e AND PTE_U = 0 then 0 else p2v (PTE_ADDR e))))"

function copyout :: "u32 \<Rightarrow> u32 \<Rightarrow> u8 list \<Rightarrow> ('a kmem_state_scheme, int) kop" where
  "copyout pgd va buf =
     (if buf = [] then kret 0
      else let va0 = PGROUNDDOWN va; n = min (4096 - unat (va - va0)) (length buf) in
        kbind (uva2ka pgd va0) (\<lambda>pa0.
          if pa0 = 0 then kret (-1)
          else if n = 0 then kfault
          else kseq (put_bytes (pa0 + (va - va0)) (take n buf)) (copyout pgd (va0 + PGSIZE) (drop n buf))))"
  by auto
termination by (relation "measure (\<lambda>(pgd, va, buf). length buf)") auto

declare copyout.simps [simp del]

end
