(* ===== verification/Process.thy ===== *)
theory Process
  imports Vm
begin

text \<open>
  The life of a process (\<^verbatim>\<open>proc.c\<close>): \<^verbatim>\<open>allocproc\<close>, \<^verbatim>\<open>userinit\<close>, \<^verbatim>\<open>growproc\<close>, \<^verbatim>\<open>fork\<close>, \<^verbatim>\<open>exit\<close>, \<^verbatim>\<open>wait\<close>, \<^verbatim>\<open>scheduler\<close>, \<^verbatim>\<open>forkret\<close>.
\<close>

section \<open>State\<close>

record gatedesc =
  off_15_0 :: u32
  gate_cs :: u32
  gate_args :: u32
  gate_rsv1 :: u32
  gate_type :: u32
  gate_s :: u32
  gate_dpl :: u32
  gate_p :: u32
  off_31_16 :: u32

text \<open>
  \<open>trapret_addr\<close> and \<open>forkret_addr\<close> are the addresses of the two routines, \<open>forkret_first\<close> is the static variable of
  \<^verbatim>\<open>forkret\<close>; \<open>ticks\<close>, \<open>idt\<close>, the loaded \<open>idtr\<close> (per CPU) and the addresses \<open>vectors\<close> belong to \<^verbatim>\<open>trap.c\<close>.
\<close>

record sys_state = vm_state +
  trapret_addr :: u32
  forkret_addr :: u32
  forkret_first :: bool
  ticks :: u32
  idt :: "nat \<Rightarrow> gatedesc"
  idtr :: "nat \<Rightarrow> bool"
  vectors :: "nat \<Rightarrow> u32"

lemma hw_frame_sys [simp]:
  "acq lk (s\<lparr>ticks := x\<rparr>) = (acq lk s)\<lparr>ticks := x\<rparr>" "ticks (acq lk s) = ticks s"
  "lockable lk (s\<lparr>ticks := x\<rparr>) = lockable lk s"
  by (simp_all add: acq_def lockable_def)

text \<open>A routine of the current process: \<^verbatim>\<open>proc\<close> null is undefined.\<close>

definition with_cur :: "(nat \<Rightarrow> ('a proc_state_scheme, 'b) kop) \<Rightarrow> ('a proc_state_scheme, 'b) kop" where
  "with_cur f s = (case cur s of None \<Rightarrow> Fault | Some p \<Rightarrow> f p s)"

abbreviation the_proc :: "nat \<Rightarrow> 'a proc_state_scheme \<Rightarrow> proc" where
  "the_proc p s \<equiv> ptable s ! p"

abbreviation (input) set_proc :: "nat \<Rightarrow> (proc \<Rightarrow> proc) \<Rightarrow> ('a proc_state_scheme, unit) kop" where
  "set_proc p f \<equiv> kmod (upd_proc p f)"

section \<open>Creation\<close>

definition zero_ctx :: kcontext where
  "zero_ctx = \<lparr>ctx_edi = 0, ctx_esi = 0, ctx_ebx = 0, ctx_ebp = 0, ctx_eip = 0\<rparr>"

text \<open>
  The stack page holds, from the top: the trap frame (76 bytes), the word \<^verbatim>\<open>trapret\<close>, the context (20 bytes).
\<close>

definition allocproc :: "('a sys_state_scheme, nat option) kop" where
  "allocproc = kseq (acquire L_ptable) (\<lambda>s.
     case slot_alloc (\<lambda>p. pstate p = UNUSED) (\<lambda>p. p\<lparr>pstate := EMBRYO, pid := nextpid s\<rparr>) (ptable s) of
       None \<Rightarrow> kseq (release L_ptable) (kret None) s
     | Some (i, ps) \<Rightarrow>
         kseq (kmod (\<lambda>s. s\<lparr>ptable := ps, nextpid := nextpid s + 1\<rparr>))
        (kseq (release L_ptable)
        (kbind kalloc (\<lambda>k.
         kseq (set_proc i (\<lambda>p. p\<lparr>kstack := k\<rparr>))
         (if k = 0 then kseq (set_proc i (\<lambda>p. p\<lparr>pstate := UNUSED\<rparr>)) (kret None)
          else kbind (kget trapret_addr) (\<lambda>tr. kbind (kget forkret_addr) (\<lambda>fr.
            kseq (put32 (k + KSTACKSIZE - 76 - 4) tr)
           (kseq (set_proc i (\<lambda>p. p\<lparr>ctx := zero_ctx\<lparr>ctx_eip := fr\<rparr>\<rparr>))
           (kret (Some i))))))))) s)"

definition zero_tf :: trapframe where
  "zero_tf = \<lparr>tf_edi = 0, tf_esi = 0, tf_ebp = 0, tf_oesp = 0, tf_ebx = 0, tf_edx = 0, tf_ecx = 0, tf_eax = 0,
     tf_gs = 0, tf_fs = 0, tf_es = 0, tf_ds = 0, tf_trapno = 0, tf_err = 0, tf_eip = 0, tf_cs = 0, tf_eflags = 0,
     tf_esp = 0, tf_ss = 0\<rparr>"

definition user_tf :: trapframe where
  "user_tf = (let ds = push_bit 3 SEG_UDATA OR DPL_USER in
     zero_tf\<lparr>tf_cs := push_bit 3 SEG_UCODE OR DPL_USER, tf_ds := ds, tf_es := ds, tf_ss := ds,
       tf_eflags := FL_IF, tf_esp := PGSIZE, tf_eip := 0\<rparr>)"

text \<open>The result of copying a string into the 16 bytes \<^verbatim>\<open>p->name\<close>.\<close>

definition set_pname :: "nat \<Rightarrow> u8 list \<Rightarrow> ('a proc_state_scheme, unit) kop" where
  "set_pname p str s = (case safestrcpy (pname (the_proc p s)) str 16 of None \<Rightarrow> Fault
     | Some nm \<Rightarrow> Ret () (upd_proc p (\<lambda>q. q\<lparr>pname := nm\<rparr>) s))"

text \<open>\<open>initcode\<close> are the bytes between the linker's symbols.\<close>

definition userinit :: "u8 list \<Rightarrow> ('a sys_state_scheme, unit) kop" where
  "userinit initcode = kbind allocproc (\<lambda>r.
     kseq (kmod (\<lambda>s. s\<lparr>initproc := r\<rparr>))
    (case r of None \<Rightarrow> kfault | Some p \<Rightarrow>
      kbind setupkvm (\<lambda>d.
      kseq (set_proc p (\<lambda>q. q\<lparr>pgdir := d\<rparr>))
     (kseq (kassert (\<lambda>s. d \<noteq> 0) ''userinit: out of memory?'')
     (kseq (inituvm d initcode)
     (kseq (set_proc p (\<lambda>q. q\<lparr>sz := PGSIZE, tf := user_tf\<rparr>))
     (kseq (set_pname p (bytes ''initcode'' @ [0]))
     (kbind (namei [SLASH, 0]) (\<lambda>ip.
      kseq (set_proc p (\<lambda>q. q\<lparr>cwd := ip\<rparr>))
           (set_proc p (\<lambda>q. q\<lparr>pstate := RUNNABLE\<rparr>)))))))))))"

definition growproc :: "int \<Rightarrow> ('a sys_state_scheme, int) kop" where
  "growproc n = with_cur (\<lambda>p. kbind (kget (the_proc p)) (\<lambda>q.
     kbind (if n > 0 then allocuvm (pgdir q) (sz q) (sz q + of_int n)
            else if n < 0 then deallocuvm (pgdir q) (sz q) (sz q + of_int n)
            else kret (sz q)) (\<lambda>z.
       if n \<noteq> 0 \<and> z = 0 then kret (-1)
       else kseq (set_proc p (\<lambda>q. q\<lparr>sz := z\<rparr>)) (kseq (switchuvm p) (kret 0)))))"

definition fork_fd :: "nat \<Rightarrow> nat \<Rightarrow> nat \<Rightarrow> ('a sys_state_scheme, unit) kop" where
  "fork_fd p np i = kbind (kget (\<lambda>s. ofile (the_proc p s) ! i)) (\<lambda>o'.
     case o' of None \<Rightarrow> kret ()
     | Some f \<Rightarrow> kbind (filedup f) (\<lambda>f. set_proc np (\<lambda>q. q\<lparr>ofile := (ofile q)[i := Some f]\<rparr>)))"

definition fork :: "('a sys_state_scheme, int) kop" where
  "fork = kbind allocproc (\<lambda>r. case r of None \<Rightarrow> kret (-1)
     | Some np \<Rightarrow> with_cur (\<lambda>p. kbind (kget (the_proc p)) (\<lambda>q.
         kbind (copyuvm (pgdir q) (sz q)) (\<lambda>d.
         kseq (set_proc np (\<lambda>x. x\<lparr>pgdir := d\<rparr>))
        (if d = 0 then
           kbind (kget (\<lambda>s. kstack (the_proc np s))) (\<lambda>k.
           kseq (kfree k)
          (kseq (set_proc np (\<lambda>x. x\<lparr>kstack := 0, pstate := UNUSED\<rparr>)) (kret (-1))))
         else
           kseq (set_proc np (\<lambda>x. x\<lparr>sz := sz q, parent := Some p, tf := (tf q)\<lparr>tf_eax := 0\<rparr>\<rparr>))
          (kseq (kforeach [0..<NOFILE] (fork_fd p np))
          (case cwd q of None \<Rightarrow> kfault
           | Some c \<Rightarrow> kbind (idup c) (\<lambda>c.
               kseq (set_proc np (\<lambda>x. x\<lparr>cwd := Some c\<rparr>))
              (kbind (kget (\<lambda>s. pid (the_proc np s))) (\<lambda>n.
               kseq (set_proc np (\<lambda>x. x\<lparr>pstate := RUNNABLE\<rparr>))
              (kseq (set_pname np (pname q)) (kret n))))))))))))"

section \<open>Exit and wait\<close>

definition close_fd :: "nat \<Rightarrow> nat \<Rightarrow> ('a sys_state_scheme, unit) kop" where
  "close_fd p fd = kbind (kget (\<lambda>s. ofile (the_proc p s) ! fd)) (\<lambda>o'.
     case o' of None \<Rightarrow> kret ()
     | Some f \<Rightarrow> kseq (fileclose f) (set_proc p (\<lambda>q. q\<lparr>ofile := (ofile q)[fd := None]\<rparr>)))"

definition wake_opt :: "nat option \<Rightarrow> ('a proc_state_scheme, unit) kop" where
  "wake_opt c = (case c of None \<Rightarrow> kret () | Some p \<Rightarrow> wakeup1 (Ch_proc p))"

text \<open>Passing one abandoned child to \<^verbatim>\<open>init\<close>. No process sleeps on a null channel.\<close>

definition reparent :: "nat \<Rightarrow> nat \<Rightarrow> ('a proc_state_scheme, unit) kop" where
  "reparent me i = kbind (kget (the_proc i)) (\<lambda>q.
     if parent q = Some me then
       kbind (kget initproc) (\<lambda>ini.
       kseq (set_proc i (\<lambda>q. q\<lparr>parent := ini\<rparr>))
      (if pstate q = ZOMBIE then wake_opt ini else kret ()))
     else kret ())"

definition exit :: "('a sys_state_scheme, 'b) kop" where
  "exit = with_cur (\<lambda>p.
     kseq (kassert (\<lambda>s. initproc s \<noteq> Some p) ''init exiting'')
    (kseq (kforeach [0..<NOFILE] (close_fd p))
    (kbind (kget (\<lambda>s. cwd (the_proc p s))) (\<lambda>c. case c of None \<Rightarrow> kfault
     | Some ip \<Rightarrow>
       kseq (iput ip)
      (kseq (set_proc p (\<lambda>q. q\<lparr>cwd := None\<rparr>))
      (kseq (acquire L_ptable)
      (kseq (kbind (kget (\<lambda>s. parent (the_proc p s))) wake_opt)
      (kseq (kforeach [0..<NPROC] (reparent p))
      (kseq (set_proc p (\<lambda>q. q\<lparr>pstate := ZOMBIE\<rparr>))
      (kseq sched (kpanic ''zombie exit'')))))))))))"

definition reap :: "nat \<Rightarrow> ('a sys_state_scheme, int) kop" where
  "reap i = kbind (kget (the_proc i)) (\<lambda>q.
     kseq (kfree (kstack q))
    (kseq (set_proc i (\<lambda>q. q\<lparr>kstack := 0\<rparr>))
    (kseq (freevm (pgdir q))
    (kseq (set_proc i (\<lambda>q. q\<lparr>pstate := UNUSED, pid := 0, parent := None, pname := (pname q)[0 := 0], killed := False\<rparr>))
    (kseq (release L_ptable) (kret (pid q)))))))"

text \<open>\<^verbatim>\<open>wait\<close> from the head of its loop on, with \<^verbatim>\<open>ptable.lock\<close> held.\<close>

definition wait_loop :: "('a sys_state_scheme, int) kop" where
  "wait_loop = with_cur (\<lambda>me s.
     case first_slot (\<lambda>q. parent q = Some me \<and> pstate q = ZOMBIE) (ptable s) of
       Some i \<Rightarrow> reap i s
     | None \<Rightarrow>
         if (\<forall>q \<in> set (ptable s). parent q \<noteq> Some me) \<or> killed (the_proc me s)
         then kseq (release L_ptable) (kret (-1)) s
         else sleep_retry (Ch_proc me) L_ptable s)"

definition wait :: "('a sys_state_scheme, int) kop" where
  "wait = kseq (acquire L_ptable) wait_loop"

definition wait_resume :: "bool \<Rightarrow> ('a sys_state_scheme, int) kop" where
  "wait_resume ie = kseq (sleep_resume ie L_ptable) wait_loop"

section \<open>Scheduling\<close>

text \<open>
  One pass of \<^verbatim>\<open>scheduler\<close> over the table, from entry \<open>i\<close> on. \<open>Some p\<close>: the CPU now runs \<open>p\<close>, and control comes
  back in \<open>scheduler_back\<close> when \<open>p\<close> calls \<^verbatim>\<open>sched\<close>. \<open>None\<close>: the pass is over and the loop starts again with
  \<open>scheduler_start\<close>.
\<close>

definition set_cur :: "nat option \<Rightarrow> ('a proc_state_scheme, unit) kop" where
  "set_cur p = kmod (\<lambda>s. set_cpu ((this_cpu s)\<lparr>cproc := p\<rparr>) s)"

definition scheduler_scan :: "nat \<Rightarrow> ('a sys_state_scheme, nat option) kop" where
  "scheduler_scan i s =
     (case find (\<lambda>j. pstate (the_proc j s) = RUNNABLE) [i..<NPROC] of
        None \<Rightarrow> kseq (release L_ptable) (kret None) s
      | Some p \<Rightarrow>
          kseq (set_cur (Some p))
         (kseq (switchuvm p)
         (kseq (set_proc p (\<lambda>q. q\<lparr>pstate := RUNNING\<rparr>)) (kret (Some p)))) s)"

definition scheduler_start :: "('a sys_state_scheme, nat option) kop" where
  "scheduler_start = kseq (kmod (\<lambda>s. set_cpu ((this_cpu s)\<lparr>fl_if := True\<rparr>) s))
     (kseq (acquire L_ptable) (scheduler_scan 0))"

definition scheduler_back :: "nat \<Rightarrow> ('a sys_state_scheme, nat option) kop" where
  "scheduler_back p = kseq switchkvm (kseq (set_cur None) (scheduler_scan (p + 1)))"

definition forkret :: "('a sys_state_scheme, unit) kop" where
  "forkret = kseq (release L_ptable) (\<lambda>s.
     if forkret_first s then kseq (kmod (\<lambda>s. s\<lparr>forkret_first := False\<rparr>)) initlog s else Ret () s)"

end
