(* ===== verification/Syscall.thy ===== *)
theory Syscall
  imports Process
begin

text \<open>
  The kernel's access to user memory, with the demand allocation of \<^verbatim>\<open>trap.c\<close>'s page-fault case; the fetching of
  system call arguments (\<^verbatim>\<open>syscall.c\<close>); and the system calls of \<^verbatim>\<open>sysproc.c\<close>.
\<close>

section \<open>User memory\<close>

text \<open>
  The page the hardware finds for a user address in the page table of \<^verbatim>\<open>cr3\<close>, seen from the kernel; 0 when the
  entry is not present.
\<close>

definition hw_page :: "u32 \<Rightarrow> ('a vm_state_scheme, u32) kop" where
  "hw_page va = kbind (kget (\<lambda>s. p2v (cr3 s (mycpu s)))) (\<lambda>pgd.
     kbind (walkpgdir pgd va False) (\<lambda>pte.
       if pte = 0 then kret 0
       else kbind (get32 pte) (\<lambda>e. kret (if e AND PTE_P = 0 then 0 else p2v (PTE_ADDR e)))))"

text \<open>
  The case \<^verbatim>\<open>T_PGFLT\<close> of \<^verbatim>\<open>trap\<close> for an access at \<^verbatim>\<open>va\<close>. The result of \<^verbatim>\<open>kalloc\<close> is not checked: without a free page
  it clears the page at address 0, which is not modelled.
\<close>

definition page_fault :: "u32 \<Rightarrow> ('a vm_state_scheme, unit) kop" where
  "page_fault va = kseq (cprintf (Some (bytes ''page fault,lazy allocation'' @ [NEWLINE, 0])) [])
     (kbind kalloc (\<lambda>m. if m = 0 then kfault
      else kseq (clear_page m)
        (with_cur (\<lambda>p. kbind (kget (\<lambda>s. pgdir (the_proc p s))) (\<lambda>pgd.
           kbind (mappages pgd (PGROUNDDOWN va) PGSIZE (v2p m) (PTE_W OR PTE_U)) (\<lambda>_. kret ()))))))"

definition user_addr :: "u32 \<Rightarrow> ('a vm_state_scheme, u32) kop" where
  "user_addr va = kbind (hw_page va) (\<lambda>a.
     if a \<noteq> 0 then kret (a + va mod PGSIZE)
     else kseq (page_fault va) (kbind (hw_page va) (\<lambda>a. if a \<noteq> 0 then kret (a + va mod PGSIZE) else kfault)))"

definition uload8 :: "u32 \<Rightarrow> ('a vm_state_scheme, u8) kop" where
  "uload8 va = kbind (user_addr va) (\<lambda>a. kget (\<lambda>s. mem s a))"

definition ustore8 :: "u32 \<Rightarrow> u8 \<Rightarrow> ('a vm_state_scheme, unit) kop" where
  "ustore8 va c = kbind (user_addr va) (\<lambda>a. kmod (\<lambda>s. s\<lparr>mem := (mem s)(a := c)\<rparr>))"

fun uload :: "nat \<Rightarrow> u32 \<Rightarrow> ('a vm_state_scheme, u8 list) kop" where
  "uload 0 va = kret []"
| "uload (Suc n) va = kbind (uload8 va) (\<lambda>c. kbind (uload n (va + 1)) (\<lambda>cs. kret (c # cs)))"

fun ustore :: "u32 \<Rightarrow> u8 list \<Rightarrow> ('a vm_state_scheme, unit) kop" where
  "ustore va [] = kret ()"
| "ustore va (c # cs) = kseq (ustore8 va c) (ustore (va + 1) cs)"

section \<open>Arguments\<close>

text \<open>\<open>None\<close> is the result -1; the value stored through the pointer argument comes with 0.\<close>

definition fetchint :: "u32 \<Rightarrow> ('a vm_state_scheme, u32 option) kop" where
  "fetchint addr = with_cur (\<lambda>p s. let z = sz (the_proc p s) in
     if addr \<ge> z \<or> addr + 4 > z then Ret None s
     else kbind (uload 4 addr) (\<lambda>bs. kret (Some (un_le32 bs))) s)"

text \<open>The string at \<^verbatim>\<open>addr\<close> up to its NUL; \<open>n\<close> bytes of the address space are left.\<close>

fun fetch_loop :: "nat \<Rightarrow> u32 \<Rightarrow> ('a vm_state_scheme, u8 list option) kop" where
  "fetch_loop 0 a = kret None"
| "fetch_loop (Suc n) a = kbind (uload8 a) (\<lambda>c.
     if c = 0 then kret (Some [0]) else kbind (fetch_loop n (a + 1)) (\<lambda>r. kret (map_option (Cons c) r)))"

definition fetchstr :: "u32 \<Rightarrow> ('a vm_state_scheme, u8 list option) kop" where
  "fetchstr addr = with_cur (\<lambda>p s. let z = sz (the_proc p s) in
     if addr \<ge> z then Ret None s else fetch_loop (unat z - unat addr) addr s)"

definition argint :: "nat \<Rightarrow> ('a vm_state_scheme, u32 option) kop" where
  "argint n = with_cur (\<lambda>p s. fetchint (tf_esp (tf (the_proc p s)) + 4 + 4 * of_nat n) s)"

definition argptr :: "nat \<Rightarrow> int \<Rightarrow> ('a vm_state_scheme, u32 option) kop" where
  "argptr n k = kbind (argint n) (\<lambda>r. case r of None \<Rightarrow> kret None
     | Some i \<Rightarrow> with_cur (\<lambda>p s. let z = sz (the_proc p s) in
         Ret (if i \<ge> z \<or> i + of_int k > z then None else Some i) s))"

definition argstr :: "nat \<Rightarrow> ('a vm_state_scheme, u8 list option) kop" where
  "argstr n = kbind (argint n) (\<lambda>r. case r of None \<Rightarrow> kret None | Some addr \<Rightarrow> fetchstr addr)"

text \<open>Continue with an argument, or return -1.\<close>

definition need :: "('s, 'a option) kop \<Rightarrow> ('a \<Rightarrow> ('s, int) kop) \<Rightarrow> ('s, int) kop" where
  "need m f = kbind m (\<lambda>r. case r of None \<Rightarrow> kret (-1) | Some x \<Rightarrow> f x)"

section \<open>sysproc.c\<close>

definition sys_fork :: "('a sys_state_scheme, int) kop" where
  "sys_fork = fork"

definition sys_exit :: "('a sys_state_scheme, int) kop" where
  "sys_exit = kseq exit (kret 0)"

definition sys_wait :: "('a sys_state_scheme, int) kop" where
  "sys_wait = wait"

definition sys_kill :: "('a sys_state_scheme, int) kop" where
  "sys_kill = need (argint 0) (\<lambda>n. kill (sint n))"

definition sys_getpid :: "('a sys_state_scheme, int) kop" where
  "sys_getpid = with_cur (\<lambda>p. kget (\<lambda>s. pid (the_proc p s)))"

definition sys_sbrk :: "('a sys_state_scheme, int) kop" where
  "sys_sbrk = need (argint 0) (\<lambda>n. with_cur (\<lambda>p.
     kbind (kget (\<lambda>s. sz (the_proc p s))) (\<lambda>addr.
     kbind (growproc (sint n)) (\<lambda>r.
       if r < 0 then kret (-1)
       else kseq (set_proc p (\<lambda>q. q\<lparr>sz := sz q + n\<rparr>)) (kret (sint addr))))))"

text \<open>\<^verbatim>\<open>sys_sleep\<close> from the head of its loop on; the comparison is unsigned.\<close>

definition sys_sleep_loop :: "u32 \<Rightarrow> u32 \<Rightarrow> ('a sys_state_scheme, int) kop" where
  "sys_sleep_loop ticks0 n s =
     (if ticks s - ticks0 < n then
        kbind cur_killed (\<lambda>k. if k then kseq (release L_ticks) (kret (-1)) else sleep_retry Ch_ticks L_ticks) s
      else kseq (release L_ticks) (kret 0) s)"

definition sys_sleep :: "('a sys_state_scheme, int) kop" where
  "sys_sleep = need (argint 0) (\<lambda>n. kseq (acquire L_ticks) (kbind (kget ticks) (\<lambda>t. sys_sleep_loop t n)))"

definition sys_sleep_resume :: "bool \<Rightarrow> u32 \<Rightarrow> u32 \<Rightarrow> ('a sys_state_scheme, int) kop" where
  "sys_sleep_resume ie ticks0 n = kseq (sleep_resume ie L_ticks) (sys_sleep_loop ticks0 n)"

definition sys_uptime :: "('a sys_state_scheme, int) kop" where
  "sys_uptime = kseq (acquire L_ticks) (kbind (kget ticks) (\<lambda>x. kseq (release L_ticks) (kret (sint x))))"

definition sys_halt :: "('a sys_state_scheme, int) kop" where
  "sys_halt = kseq (kforeach (bytes ''Shutdown'') (outb 0x8900)) (kret 0)"

definition sys_alarm :: "('a sys_state_scheme, int) kop" where
  "sys_alarm = need (argint 0) (\<lambda>n. need (argptr 1 1) (\<lambda>h. with_cur (\<lambda>p.
     kseq (set_proc p (\<lambda>q. q\<lparr>alarmticks := n, alarmticked := 0, alarmhandler := h\<rparr>)) (kret 0))))"

end
