(* ===== verification/Exec.thy ===== *)
theory Exec
  imports Syscall
begin

text \<open>
  \<^verbatim>\<open>exec.c\<close>: replacing the image of the current process by an ELF program (\<^verbatim>\<open>elf.h\<close>).
\<close>

section \<open>ELF headers\<close>

text \<open>The fields of \<^verbatim>\<open>struct elfhdr\<close> (52 bytes) and \<^verbatim>\<open>struct proghdr\<close> (32 bytes) that \<^verbatim>\<open>exec\<close> uses.\<close>

record elfhdr =
  elf_magic :: u32
  elf_entry :: u32
  elf_phoff :: u32
  elf_phnum :: u16

record proghdr =
  ph_type :: u32
  ph_off :: u32
  ph_vaddr :: u32
  ph_filesz :: u32
  ph_memsz :: u32

abbreviation (input) ELF_MAGIC :: u32 where "ELF_MAGIC \<equiv> 0x464C457F"
abbreviation (input) ELF_PROG_LOAD :: u32 where "ELF_PROG_LOAD \<equiv> 1"

definition dec_elfhdr :: "u8 list \<Rightarrow> elfhdr" where
  "dec_elfhdr bs = \<lparr>elf_magic = un_le32 (slice 0 4 bs), elf_entry = un_le32 (slice 24 4 bs),
     elf_phoff = un_le32 (slice 28 4 bs), elf_phnum = un_le16 (slice 44 2 bs)\<rparr>"

definition dec_proghdr :: "u8 list \<Rightarrow> proghdr" where
  "dec_proghdr bs = \<lparr>ph_type = un_le32 (slice 0 4 bs), ph_off = un_le32 (slice 4 4 bs), ph_vaddr = un_le32 (slice 8 4 bs),
     ph_filesz = un_le32 (slice 16 4 bs), ph_memsz = un_le32 (slice 20 4 bs)\<rparr>"

section \<open>exec\<close>

text \<open>The label \<^verbatim>\<open>bad\<close>.\<close>

definition exec_bad :: "u32 \<Rightarrow> nat option \<Rightarrow> ('a sys_state_scheme, int) kop" where
  "exec_bad pgd ip = kseq (if pgd \<noteq> 0 then freevm pgd else kret ())
     (kseq (case ip of Some i \<Rightarrow> iunlockput i | None \<Rightarrow> kret ()) (kret (-1)))"

text \<open>
  One program header: the new size of the image, or \<open>None\<close> to go to \<^verbatim>\<open>bad\<close>.
\<close>

definition load_segment :: "u32 \<Rightarrow> nat \<Rightarrow> u32 \<Rightarrow> u32 \<Rightarrow> ('a sys_state_scheme, u32 option) kop" where
  "load_segment pgd ip off n = kbind (readi ip off 32) (\<lambda>(r, bs).
     if r \<noteq> 32 then kret None
     else let ph = dec_proghdr bs in
       if ph_type ph \<noteq> ELF_PROG_LOAD then kret (Some n)
       else if ph_memsz ph < ph_filesz ph then kret None
       else kbind (allocuvm pgd n (ph_vaddr ph + ph_memsz ph)) (\<lambda>n'.
         if n' = 0 then kret None
         else kbind (loaduvm pgd (ph_vaddr ph) ip (ph_off ph) (ph_filesz ph)) (\<lambda>l.
           kret (if l < 0 then None else Some n'))))"

fun load_segments :: "nat \<Rightarrow> u32 \<Rightarrow> nat \<Rightarrow> u32 \<Rightarrow> u32 \<Rightarrow> ('a sys_state_scheme, u32 option) kop" where
  "load_segments 0 pgd ip off n = kret (Some n)"
| "load_segments (Suc k) pgd ip off n = kbind (load_segment pgd ip off n) (\<lambda>r.
     case r of None \<Rightarrow> kret None | Some n' \<Rightarrow> load_segments k pgd ip (off + 32) n')"

text \<open>
  The argument strings are pushed in order; the result is the stack pointer and their addresses.
\<close>

fun push_args :: "u32 \<Rightarrow> nat \<Rightarrow> u8 list list \<Rightarrow> u32 \<Rightarrow> ('a sys_state_scheme, (u32 \<times> u32 list) option) kop" where
  "push_args pgd argc [] sp = kret (Some (sp, []))"
| "push_args pgd argc (a # as) sp =
     (if argc \<ge> MAXARG then kret None
      else case strlen a of None \<Rightarrow> kfault
      | Some l \<Rightarrow> let sp' = (sp - (of_nat l + 1)) AND NOT 3 in
          kbind (copyout pgd sp' (take (l + 1) a)) (\<lambda>r.
            if r < 0 then kret None
            else kbind (push_args pgd (argc + 1) as sp') (\<lambda>q.
              kret (map_option (\<lambda>(spe, us). (spe, sp' # us)) q))))"

definition base_name :: "u8 list \<Rightarrow> u8 list" where
  "base_name path = fold (\<lambda>i last. if path ! i = SLASH then drop (i + 1) path else last) [0..<length (cstr path)] path"

text \<open>Everything after the program is loaded and the inode is released.\<close>

definition exec_commit :: "u32 \<Rightarrow> elfhdr \<Rightarrow> u8 list \<Rightarrow> u32 \<Rightarrow> u32 \<Rightarrow> ('a sys_state_scheme, int) kop" where
  "exec_commit pgd elf path n sp = with_cur (\<lambda>p.
     kseq (set_pname p (base_name path))
    (kbind (kget (\<lambda>s. pgdir (the_proc p s))) (\<lambda>oldpgdir.
     kseq (set_proc p (\<lambda>q. q\<lparr>pgdir := pgd, sz := n, tf := (tf q)\<lparr>tf_eip := elf_entry elf, tf_esp := sp\<rparr>\<rparr>))
    (kseq (switchuvm p)
    (kseq (freevm oldpgdir) (kret 0))))))"

definition exec_stack :: "u32 \<Rightarrow> elfhdr \<Rightarrow> u8 list \<Rightarrow> u8 list list \<Rightarrow> u32 \<Rightarrow> ('a sys_state_scheme, int) kop" where
  "exec_stack pgd elf path argv n =
     kbind (allocuvm pgd (PGROUNDUP n) (PGROUNDUP n + 2 * PGSIZE)) (\<lambda>n'.
       if n' = 0 then exec_bad pgd None
       else kseq (clearpteu pgd (n' - 2 * PGSIZE))
        (kbind (push_args pgd 0 argv n') (\<lambda>r.
         case r of None \<Rightarrow> exec_bad pgd None
         | Some (sp, us) \<Rightarrow>
           let argc = of_nat (length us) :: u32;
               ustack = [0xffffffff, argc, sp - (argc + 1) * 4] @ us @ [0];
               sp' = sp - (3 + argc + 1) * 4 in
           kbind (copyout pgd sp' (le32s ustack)) (\<lambda>r.
             if r < 0 then exec_bad pgd None else exec_commit pgd elf path n' sp'))))"

text \<open>
  The check of the header compares \<^verbatim>\<open>readi\<close>'s result as an unsigned number: -1 passes it, and \<^verbatim>\<open>exec\<close> goes on to read
  the uninitialised header.
\<close>

definition exec :: "u8 list \<Rightarrow> u8 list list \<Rightarrow> ('a sys_state_scheme, int) kop" where
  "exec path argv = kbind (namei path) (\<lambda>r. case r of None \<Rightarrow> kret (-1)
     | Some ip \<Rightarrow>
       kseq (ilock (Some ip))
      (kbind (readi ip 0 52) (\<lambda>(r, bs).
        if r < 0 then kfault
        else if r < 52 then exec_bad 0 (Some ip)
        else let elf = dec_elfhdr bs in
          if elf_magic elf \<noteq> ELF_MAGIC then exec_bad 0 (Some ip)
          else kbind setupkvm (\<lambda>pgd.
            if pgd = 0 then exec_bad 0 (Some ip)
            else kbind (load_segments (unat (elf_phnum elf)) pgd ip (elf_phoff elf) 0) (\<lambda>r.
              case r of None \<Rightarrow> exec_bad pgd (Some ip)
              | Some n \<Rightarrow> kseq (iunlockput ip) (exec_stack pgd elf path argv n))))))"

end
