(* ===== verification/Sysfile.thy ===== *)
theory Sysfile
  imports Exec
begin

text \<open>
  The system calls on files (\<^verbatim>\<open>sysfile.c\<close>).
\<close>

section \<open>Descriptors\<close>

definition argfd :: "nat \<Rightarrow> ('a sys_state_scheme, (nat \<times> nat) option) kop" where
  "argfd n = kbind (argint n) (\<lambda>r. case r of None \<Rightarrow> kret None
     | Some w \<Rightarrow> let fd = sint w in
         if fd < 0 \<or> fd \<ge> int NOFILE then kret None
         else with_cur (\<lambda>p. kget (\<lambda>s. map_option (Pair (nat fd)) (ofile (the_proc p s) ! nat fd))))"

definition fdalloc :: "nat \<Rightarrow> ('a proc_state_scheme, int) kop" where
  "fdalloc f = with_cur (\<lambda>p s.
     case slot_alloc (\<lambda>x. x = None) (\<lambda>_. Some f) (ofile (the_proc p s)) of
       None \<Rightarrow> Ret (-1) s
     | Some (fd, fs) \<Rightarrow> Ret (int fd) (upd_proc p (\<lambda>q. q\<lparr>ofile := fs\<rparr>) s))"

definition sys_dup :: "('a sys_state_scheme, int) kop" where
  "sys_dup = need (argfd 0) (\<lambda>(_, f). kbind (fdalloc f) (\<lambda>fd.
     if fd < 0 then kret (-1) else kbind (filedup f) (\<lambda>_. kret fd)))"

text \<open>The bytes read are stored in user memory once \<^verbatim>\<open>fileread\<close> has returned them.\<close>

definition sys_read :: "('a sys_state_scheme, int) kop" where
  "sys_read = need (argfd 0) (\<lambda>(_, f). need (argint 2) (\<lambda>n. need (argptr 1 (sint n)) (\<lambda>p.
     kbind (fileread f (sint n)) (\<lambda>(r, bs). kseq (ustore p bs) (kret r)))))"

definition sys_write :: "('a sys_state_scheme, int) kop" where
  "sys_write = need (argfd 0) (\<lambda>(_, f). need (argint 2) (\<lambda>n. need (argptr 1 (sint n)) (\<lambda>p.
     kbind (uload (nat (sint n)) p) (\<lambda>bs. filewrite f bs (sint n)))))"

definition sys_close :: "('a sys_state_scheme, int) kop" where
  "sys_close = need (argfd 0) (\<lambda>(fd, f). with_cur (\<lambda>p.
     kseq (set_proc p (\<lambda>q. q\<lparr>ofile := (ofile q)[fd := None]\<rparr>)) (kseq (fileclose f) (kret 0))))"

text \<open>\<^verbatim>\<open>struct stat\<close> as it lies in memory: two bytes of padding after each \<^verbatim>\<open>short\<close>, 20 bytes in all.\<close>

definition store_stat :: "u32 \<Rightarrow> stat \<Rightarrow> ('a sys_state_scheme, unit) kop" where
  "store_stat a st = kseq (ustore a (le16 (st_type st))) (kseq (ustore (a + 4) (le32 (st_dev st)))
     (kseq (ustore (a + 8) (le32 (st_ino st))) (kseq (ustore (a + 12) (le16 (st_nlink st))) (ustore (a + 16) (le32 (st_size st))))))"

definition sys_fstat :: "('a sys_state_scheme, int) kop" where
  "sys_fstat = need (argfd 0) (\<lambda>(_, f). need (argptr 1 20) (\<lambda>a.
     need (filestat f) (\<lambda>st. kseq (store_stat a st) (kret 0))))"

section \<open>Links\<close>

text \<open>The label \<^verbatim>\<open>bad\<close> of \<^verbatim>\<open>sys_link\<close>.\<close>

definition link_bad :: "nat \<Rightarrow> ('a sys_state_scheme, int) kop" where
  "link_bad ip = kseq (ilock (Some ip)) (kseq (upd_inode ip (\<lambda>x. x\<lparr>i_nlink := i_nlink x - 1\<rparr>))
     (kseq (iupdate ip) (kseq (iunlockput ip) (kseq commit_trans (kret (-1))))))"

definition sys_link :: "('a sys_state_scheme, int) kop" where
  "sys_link = need (argstr 0) (\<lambda>old. need (argstr 1) (\<lambda>new. need (namei old) (\<lambda>ip.
     kseq begin_trans
    (kseq (ilock (Some ip))
    (kbind (kget (\<lambda>s. i_type (the_inode ip s))) (\<lambda>ty.
      if ty = T_DIR then kseq (iunlockput ip) (kseq commit_trans (kret (-1)))
      else kseq (upd_inode ip (\<lambda>x. x\<lparr>i_nlink := i_nlink x + 1\<rparr>))
          (kseq (iupdate ip)
          (kseq (iunlock (Some ip))
          (kbind (nameiparent new (replicate DIRSIZ 0)) (\<lambda>(r, name).
            case r of None \<Rightarrow> link_bad ip
            | Some dp \<Rightarrow> kseq (ilock (Some dp))
                (kbind (kget (\<lambda>s. (i_dev (the_inode dp s) \<noteq> i_dev (the_inode ip s), i_inum (the_inode ip s)))) (\<lambda>(ne, inum).
                 kbind (if ne then kret (-1) else dirlink dp name inum) (\<lambda>l.
                   if l < 0 then kseq (iunlockput dp) (link_bad ip)
                   else kseq (iunlockput dp) (kseq (iput ip) (kseq commit_trans (kret 0))))))))))))))))"

definition isdirempty_entry :: "nat \<Rightarrow> nat \<Rightarrow> ('a sys_state_scheme, bool option) kop" where
  "isdirempty_entry dp off = kbind (readi dp (of_nat off) 16) (\<lambda>(r, bs).
     if r \<noteq> 16 then kpanic ''isdirempty: readi''
     else kret (if de_inum (dec_dirent bs) \<noteq> 0 then Some False else None))"

definition isdirempty :: "nat \<Rightarrow> ('a sys_state_scheme, bool) kop" where
  "isdirempty dp = kbind (kget (\<lambda>s. drop 2 (dir_offs (i_size (the_inode dp s))))) (\<lambda>offs.
     kbind (kfor offs (isdirempty_entry dp)) (\<lambda>r. kret (case r of Some b \<Rightarrow> b | None \<Rightarrow> True)))"

definition unlink_bad :: "nat \<Rightarrow> ('a sys_state_scheme, int) kop" where
  "unlink_bad dp = kseq (iunlockput dp) (kseq commit_trans (kret (-1)))"

text \<open>The part of \<^verbatim>\<open>sys_unlink\<close> after the entry is found, with both inodes locked.\<close>

definition unlink_entry :: "nat \<Rightarrow> nat \<Rightarrow> u32 \<Rightarrow> ('a sys_state_scheme, int) kop" where
  "unlink_entry dp ip off =
     kbind (writei dp (replicate 16 0) off) (\<lambda>w.
       if w \<noteq> 16 then kpanic ''unlink: writei''
       else kbind (kget (\<lambda>s. i_type (the_inode ip s))) (\<lambda>ty.
         kseq (if ty = T_DIR then kseq (upd_inode dp (\<lambda>x. x\<lparr>i_nlink := i_nlink x - 1\<rparr>)) (iupdate dp) else kret ())
        (kseq (iunlockput dp)
        (kseq (upd_inode ip (\<lambda>x. x\<lparr>i_nlink := i_nlink x - 1\<rparr>))
        (kseq (iupdate ip)
        (kseq (iunlockput ip)
        (kseq commit_trans (kret 0))))))))"

definition sys_unlink :: "('a sys_state_scheme, int) kop" where
  "sys_unlink = need (argstr 0) (\<lambda>path. kbind (nameiparent path (replicate DIRSIZ 0)) (\<lambda>(r, name).
     case r of None \<Rightarrow> kret (-1)
     | Some dp \<Rightarrow>
       kseq begin_trans
      (kseq (ilock (Some dp))
      (case (namecmp name [46, 0], namecmp name [46, 46, 0]) of
         (Some d1, Some d2) \<Rightarrow>
           if d1 = 0 \<or> d2 = 0 then unlink_bad dp
           else kbind (dirlookup dp name) (\<lambda>found. case found of None \<Rightarrow> unlink_bad dp
             | Some (ip, off) \<Rightarrow>
                 kseq (ilock (Some ip))
                (kseq (kassert (\<lambda>s. sint (i_nlink (the_inode ip s)) \<ge> 1) ''unlink: nlink < 1'')
                (kbind (kget (\<lambda>s. i_type (the_inode ip s))) (\<lambda>ty.
                 kbind (if ty = T_DIR then isdirempty ip else kret True) (\<lambda>ok.
                   if \<not> ok then kseq (iunlockput ip) (unlink_bad dp)
                   else unlink_entry dp ip off)))))
       | _ \<Rightarrow> kfault))))"

section \<open>Creation\<close>

text \<open>\<^verbatim>\<open>create\<close> once the name is known to be new: \<^verbatim>\<open>dp\<close> is locked.\<close>

definition create_new :: "nat \<Rightarrow> u8 list \<Rightarrow> u16 \<Rightarrow> u16 \<Rightarrow> u16 \<Rightarrow> ('a sys_state_scheme, nat option) kop" where
  "create_new dp name type major minor =
     kbind (kget (\<lambda>s. i_dev (the_inode dp s))) (\<lambda>dev.
     kbind (ialloc dev type) (\<lambda>ip.
     kseq (ilock (Some ip))
    (kseq (upd_inode ip (\<lambda>x. x\<lparr>i_major := major, i_minor := minor, i_nlink := 1\<rparr>))
    (kseq (iupdate ip)
    (kbind (kget (\<lambda>s. (i_inum (the_inode ip s), i_inum (the_inode dp s)))) (\<lambda>(inum, dnum).
     kseq (if type = T_DIR then
             kseq (upd_inode dp (\<lambda>x. x\<lparr>i_nlink := i_nlink x + 1\<rparr>))
            (kseq (iupdate dp)
            (kbind (dirlink ip [46, 0] inum) (\<lambda>r1.
               if r1 < 0 then kpanic ''create dots''
               else kbind (dirlink ip [46, 46, 0] dnum) (\<lambda>r2.
                 if r2 < 0 then kpanic ''create dots'' else kret ()))))
           else kret ())
    (kbind (dirlink dp name inum) (\<lambda>r.
       if r < 0 then kpanic ''create: dirlink''
       else kseq (iunlockput dp) (kret (Some ip))))))))))"

definition create :: "u8 list \<Rightarrow> u16 \<Rightarrow> u16 \<Rightarrow> u16 \<Rightarrow> ('a sys_state_scheme, nat option) kop" where
  "create path type major minor = kbind (nameiparent path (replicate DIRSIZ 0)) (\<lambda>(r, name).
     case r of None \<Rightarrow> kret None
     | Some dp \<Rightarrow>
       kseq (ilock (Some dp))
      (kbind (dirlookup dp name) (\<lambda>found. case found of
         Some (ip, _) \<Rightarrow>
           kseq (iunlockput dp)
          (kseq (ilock (Some ip))
          (kbind (kget (\<lambda>s. i_type (the_inode ip s))) (\<lambda>ty.
             if type = T_FILE \<and> ty = T_FILE then kret (Some ip)
             else kseq (iunlockput ip) (kret None))))
       | None \<Rightarrow> create_new dp name type major minor)))"

text \<open>The part of \<^verbatim>\<open>sys_open\<close> after the inode is found and locked.\<close>

definition open_file :: "nat \<Rightarrow> u32 \<Rightarrow> ('a sys_state_scheme, int) kop" where
  "open_file ip omode = kbind filealloc (\<lambda>r. case r of
       None \<Rightarrow> kseq (iunlockput ip) (kret (-1))
     | Some f \<Rightarrow> kbind (fdalloc f) (\<lambda>fd.
         if fd < 0 then kseq (fileclose f) (kseq (iunlockput ip) (kret (-1)))
         else kseq (iunlock (Some ip))
             (kseq (upd_file f (\<lambda>x. x\<lparr>f_type := FD_INODE, f_ip := Some ip, f_off := 0,
                 f_readable := (omode AND O_WRONLY = 0),
                 f_writable := (omode AND O_WRONLY \<noteq> 0 \<or> omode AND O_RDWR \<noteq> 0)\<rparr>))
             (kret fd))))"

definition sys_open :: "('a sys_state_scheme, int) kop" where
  "sys_open = need (argstr 0) (\<lambda>path. need (argint 1) (\<lambda>omode.
     if omode AND O_CREATE \<noteq> 0 then
       kseq begin_trans (kbind (create path T_FILE 0 0) (\<lambda>r.
       kseq commit_trans (case r of None \<Rightarrow> kret (-1) | Some ip \<Rightarrow> open_file ip omode)))
     else need (namei path) (\<lambda>ip.
       kseq (ilock (Some ip))
      (kbind (kget (\<lambda>s. i_type (the_inode ip s))) (\<lambda>ty.
        if ty = T_DIR \<and> omode \<noteq> O_RDONLY then kseq (iunlockput ip) (kret (-1))
        else open_file ip omode)))))"

definition make_node :: "nat option \<Rightarrow> ('a sys_state_scheme, int) kop" where
  "make_node r = (case r of None \<Rightarrow> kseq commit_trans (kret (-1))
     | Some ip \<Rightarrow> kseq (iunlockput ip) (kseq commit_trans (kret 0)))"

definition sys_mkdir :: "('a sys_state_scheme, int) kop" where
  "sys_mkdir = kseq begin_trans (kbind (argstr 0) (\<lambda>r. case r of
       None \<Rightarrow> kseq commit_trans (kret (-1))
     | Some path \<Rightarrow> kbind (create path T_DIR 0 0) make_node))"

definition sys_mknod :: "('a sys_state_scheme, int) kop" where
  "sys_mknod = kseq begin_trans (kbind (argstr 0) (\<lambda>r. case r of
       None \<Rightarrow> kseq commit_trans (kret (-1))
     | Some path \<Rightarrow> kbind (argint 1) (\<lambda>r. case r of
         None \<Rightarrow> kseq commit_trans (kret (-1))
       | Some major \<Rightarrow> kbind (argint 2) (\<lambda>r. case r of
           None \<Rightarrow> kseq commit_trans (kret (-1))
         | Some minor \<Rightarrow> kbind (create path T_DEV (ucast major) (ucast minor)) make_node))))"

definition sys_chdir :: "('a sys_state_scheme, int) kop" where
  "sys_chdir = need (argstr 0) (\<lambda>path. need (namei path) (\<lambda>ip.
     kseq (ilock (Some ip))
    (kbind (kget (\<lambda>s. i_type (the_inode ip s))) (\<lambda>ty.
      if ty \<noteq> T_DIR then kseq (iunlockput ip) (kret (-1))
      else kseq (iunlock (Some ip)) (with_cur (\<lambda>p.
        kbind (kget (\<lambda>s. cwd (the_proc p s))) (\<lambda>c. case c of None \<Rightarrow> kfault
          | Some c \<Rightarrow> kseq (iput c) (kseq (set_proc p (\<lambda>q. q\<lparr>cwd := Some ip\<rparr>)) (kret 0)))))))))"

section \<open>exec and pipe\<close>

text \<open>The loop of \<^verbatim>\<open>sys_exec\<close>: \<open>n\<close> entries of \<^verbatim>\<open>argv\<close> are left.\<close>

fun fetch_argv :: "nat \<Rightarrow> u32 \<Rightarrow> ('a sys_state_scheme, u8 list list option) kop" where
  "fetch_argv 0 uargv = kret None"
| "fetch_argv (Suc n) uargv = kbind (fetchint uargv) (\<lambda>r. case r of None \<Rightarrow> kret None
     | Some uarg \<Rightarrow> if uarg = 0 then kret (Some [])
         else kbind (fetchstr uarg) (\<lambda>r. case r of None \<Rightarrow> kret None
           | Some str \<Rightarrow> kbind (fetch_argv n (uargv + 4)) (\<lambda>q. kret (map_option (Cons str) q))))"

definition sys_exec :: "('a sys_state_scheme, int) kop" where
  "sys_exec = need (argstr 0) (\<lambda>path. need (argint 1) (\<lambda>uargv. need (fetch_argv MAXARG uargv) (\<lambda>argv. exec path argv)))"

definition sys_pipe :: "('a sys_state_scheme, int) kop" where
  "sys_pipe = need (argptr 0 8) (\<lambda>a. need pipealloc (\<lambda>(rf, wf).
     kbind (fdalloc rf) (\<lambda>fd0.
       if fd0 < 0 then kseq (fileclose rf) (kseq (fileclose wf) (kret (-1)))
       else kbind (fdalloc wf) (\<lambda>fd1.
         if fd1 < 0 then with_cur (\<lambda>p.
           kseq (set_proc p (\<lambda>q. q\<lparr>ofile := (ofile q)[nat fd0 := None]\<rparr>))
          (kseq (fileclose rf) (kseq (fileclose wf) (kret (-1)))))
         else kseq (ustore a (le32 (of_int fd0))) (kseq (ustore (a + 4) (le32 (of_int fd1))) (kret 0))))))"

end
