(* ===== verification/Trap.thy ===== *)
theory Trap
  imports Sysfile
begin

text \<open>
  Dispatch of system calls (\<^verbatim>\<open>syscall\<close> of \<^verbatim>\<open>syscall.c\<close>) and of traps and interrupts (\<^verbatim>\<open>trap.c\<close>).
\<close>

section \<open>System calls\<close>

text \<open>The table \<^verbatim>\<open>syscalls\<close> under the numbers of \<^verbatim>\<open>syscall.h\<close>.\<close>

definition syscalls :: "(nat \<times> ('a sys_state_scheme, int) kop) list" where
  "syscalls = [(1, sys_fork), (2, sys_exit), (3, sys_wait), (4, sys_pipe), (5, sys_read), (6, sys_kill), (7, sys_exec),
     (8, sys_fstat), (9, sys_chdir), (10, sys_dup), (11, sys_getpid), (12, sys_sbrk), (13, sys_sleep), (14, sys_uptime),
     (15, sys_open), (16, sys_write), (17, sys_mknod), (18, sys_unlink), (19, sys_link), (20, sys_mkdir), (21, sys_close),
     (22, sys_halt), (23, sys_alarm)]"

definition set_eax :: "nat \<Rightarrow> int \<Rightarrow> ('a sys_state_scheme, unit) kop" where
  "set_eax p r = set_proc p (\<lambda>q. q\<lparr>tf := (tf q)\<lparr>tf_eax := of_int r\<rparr>\<rparr>)"

definition syscall :: "('a sys_state_scheme, unit) kop" where
  "syscall = with_cur (\<lambda>p. kbind (kget (\<lambda>s. sint (tf_eax (tf (the_proc p s))))) (\<lambda>num.
     case (if num > 0 then map_of syscalls (nat num) else None) of
       Some f \<Rightarrow> kbind f (set_eax p)
     | None \<Rightarrow>
         kseq (kbind (kget (the_proc p)) (\<lambda>q.
           cprintf (Some (bytes ''%d %s: unknown sys call %d'' @ [NEWLINE, 0]))
             [A_int (of_int (pid q)), A_str (Some (pname q)), A_int (of_int num)]))
          (set_eax p (-1))))"

section \<open>Traps\<close>

definition SETGATE :: "bool \<Rightarrow> u32 \<Rightarrow> u32 \<Rightarrow> u32 \<Rightarrow> gatedesc" where
  "SETGATE istrap sel off d = \<lparr>off_15_0 = off AND 0xffff, gate_cs = sel, gate_args = 0, gate_rsv1 = 0,
     gate_type = (if istrap then 0xF else 0xE), gate_s = 0, gate_dpl = d, gate_p = 1, off_31_16 = drop_bit 16 off\<rparr>"

definition tvinit :: "('a sys_state_scheme, unit) kop" where
  "tvinit = kseq (kforeach [0..<256] (\<lambda>i. kmod (\<lambda>s. s\<lparr>idt := (idt s)(i := SETGATE False (push_bit 3 1) (vectors s i) 0)\<rparr>)))
     (kseq (kmod (\<lambda>s. s\<lparr>idt := (idt s)(64 := SETGATE True (push_bit 3 1) (vectors s 64) 3)\<rparr>))
       (initlock L_ticks ''time''))"

definition idtinit :: "('a sys_state_scheme, unit) kop" where
  "idtinit = kmod (\<lambda>s. s\<lparr>idtr := (idtr s)(mycpu s := True)\<rparr>)"

abbreviation (input) user_mode :: "trapframe \<Rightarrow> bool" where
  "user_mode t \<equiv> tf_cs t AND 3 = 3"

text \<open>
  The alarm of the timer case: it pushes the interrupted address on the user's stack and resumes at the handler.
\<close>

definition alarm_tick :: "nat \<Rightarrow> trapframe \<Rightarrow> ('a sys_state_scheme, trapframe) kop" where
  "alarm_tick p t = kbind (kget (the_proc p)) (\<lambda>q.
     if user_mode t \<and> alarmhandler q \<noteq> 0 then
       let n = alarmticked q + 1 in
       if n \<ge> alarmticks q then
         kseq (set_proc p (\<lambda>q. q\<lparr>alarmticked := 0\<rparr>))
        (kseq (ustore (tf_esp t - 4) (le32 (tf_eip t)))
        (kret (t\<lparr>tf_esp := tf_esp t - 4, tf_eip := alarmhandler q\<rparr>)))
       else kseq (set_proc p (\<lambda>q. q\<lparr>alarmticked := n\<rparr>)) (kret t)
     else kret t)"

definition timer_tick :: "('a sys_state_scheme, unit) kop" where
  "timer_tick s = (if mycpu s = 0 then
     kseq (acquire L_ticks)
    (kseq (kmod (\<lambda>s. s\<lparr>ticks := ticks s + 1\<rparr>)) (kseq (wakeup Ch_ticks) (release L_ticks))) s
   else Ret () s)"

definition trap_panic :: "trapframe \<Rightarrow> u32 \<Rightarrow> ('a sys_state_scheme, 'b) kop" where
  "trap_panic t cr2 s = kseq (cprintf (Some (bytes ''unexpected trap %d from cpu %d eip %x (cr2=0x%x)'' @ [NEWLINE, 0]))
     [A_int (tf_trapno t), A_int (of_nat (mycpu s)), A_int (tf_eip t), A_int cr2]) (kpanic ''trap'') s"

text \<open>The \<^verbatim>\<open>switch\<close> of \<^verbatim>\<open>trap\<close>; \<open>cr2\<close> is the faulting address. The result is the trap frame, which the alarm may change.\<close>

definition trap_dispatch :: "u32 \<Rightarrow> trapframe \<Rightarrow> ('a sys_state_scheme, trapframe) kop" where
  "trap_dispatch cr2 t =
     (let n = tf_trapno t in
      if n = T_IRQ0 + IRQ_TIMER then
        kseq timer_tick
       (kbind (\<lambda>s. case cur s of None \<Rightarrow> Ret t s | Some p \<Rightarrow> alarm_tick p t s) (\<lambda>t.
        kseq lapiceoi (kret t)))
      else if n = T_IRQ0 + IRQ_IDE then kseq ideintr (kseq lapiceoi (kret t))
      else if n = T_IRQ0 + IRQ_IDE + 1 then kret t
      else if n = T_IRQ0 + IRQ_KBD then kseq kbdintr (kseq lapiceoi (kret t))
      else if n = T_IRQ0 + IRQ_COM1 then kseq uartintr (kseq lapiceoi (kret t))
      else if n = T_IRQ0 + 7 \<or> n = T_IRQ0 + IRQ_SPURIOUS then
        kseq (\<lambda>s. cprintf (Some (bytes ''cpu%d: spurious interrupt at %x:%x'' @ [NEWLINE, 0]))
            [A_int (of_nat (mycpu s)), A_int (ucast (tf_cs t)), A_int (tf_eip t)] s)
       (kseq lapiceoi (kret t))
      else if n = T_PGFLT then kseq (page_fault cr2) (kret t)
      else (\<lambda>s. case cur s of
          None \<Rightarrow> trap_panic t cr2 s
        | Some p \<Rightarrow>
            if tf_cs t AND 3 = 0 then trap_panic t cr2 s
            else kseq (cprintf (Some (bytes ''pid %d %s: trap %d err %d on cpu %d eip 0x%x addr 0x%x--kill proc'' @ [NEWLINE, 0]))
                [A_int (of_int (pid (the_proc p s))), A_str (Some (pname (the_proc p s))), A_int n, A_int (tf_err t),
                 A_int (of_nat (mycpu s)), A_int (tf_eip t), A_int cr2])
               (kseq (set_proc p (\<lambda>q. q\<lparr>killed := True\<rparr>)) (kret t)) s))"

definition exit_if_killed :: "trapframe \<Rightarrow> ('a sys_state_scheme, unit) kop" where
  "exit_if_killed t s = (case cur s of None \<Rightarrow> Ret () s
     | Some p \<Rightarrow> if killed (the_proc p s) \<and> user_mode t then exit s else Ret () s)"

definition trap :: "u32 \<Rightarrow> trapframe \<Rightarrow> ('a sys_state_scheme, trapframe) kop" where
  "trap cr2 t =
     (if tf_trapno t = T_SYSCALL then with_cur (\<lambda>p.
        kbind (kget (\<lambda>s. killed (the_proc p s))) (\<lambda>k.
        kseq (if k then exit else kret ())
       (kseq (set_proc p (\<lambda>q. q\<lparr>tf := t\<rparr>))
       (kseq syscall
       (kbind (kget (\<lambda>s. killed (the_proc p s))) (\<lambda>k.
        kseq (if k then exit else kret ())
       (kget (\<lambda>s. tf (the_proc p s)))))))))
      else kbind (trap_dispatch cr2 t) (\<lambda>t.
        kseq (exit_if_killed t)
       (kseq (\<lambda>s. case cur s of None \<Rightarrow> Ret () s
          | Some p \<Rightarrow> if pstate (the_proc p s) = RUNNING \<and> tf_trapno t = T_IRQ0 + IRQ_TIMER then yield s else Ret () s)
       (kseq (exit_if_killed t) (kret t)))))"

text \<open>After \<^verbatim>\<open>yield\<close>, control comes back here.\<close>

definition trap_resume :: "bool \<Rightarrow> trapframe \<Rightarrow> ('a sys_state_scheme, trapframe) kop" where
  "trap_resume ie t = kseq (yield_resume ie) (kseq (exit_if_killed t) (kret t))"

end
