(* ===== verification/Trans.thy ===== *)
theory Trans
  imports Log
begin

text \<open>
  Reasoning inside a transaction. \<open>tx s0 V C H M s\<close> hides which blocks are dirty and what the log header holds: it
  says that \<open>s\<close> is \<open>s0\<close> up to the cache, the header and woken processes, shows the blocks \<open>V\<close>, writes at most the
  blocks \<open>C\<close>, for which log and cache have room, holds the buffers \<open>H\<close>, and has changed the blocks \<open>M\<close>, all of them
  held, since they were last logged. Each routine of \<^verbatim>\<open>bio.c\<close> and \<^verbatim>\<open>log.c\<close> that the file system calls gets one total
  rule for it.
\<close>

section \<open>The abstraction\<close>

lemma bc_clean_held:
  assumes bc: "bc s0 V D H s" and n: "n < disksize s0" "n \<notin> D" "n \<notin> ran H"
  shows "V n = disk_block (memdisk s0) n"
proof -
  note ok = bcD(5) [OF bc]
  have "bview (memdisk s0) (bcache s) n = disk_block (memdisk s0) n"
  proof (cases "\<exists>i < NBUF. b_valid (bcache s i) \<and> b_sector (bcache s i) = n")
    case True
    then obtain i where i: "i < NBUF" "b_valid (bcache s i)" "b_sector (bcache s i) = n" by blast
    have "\<not> b_dirty (bcache s i)"
      using n(2) i unfolding bcD(7) [OF bc, symmetric] dirty_blocks_def by blast
    moreover have "\<not> b_busy (bcache s i)"
    proof
      assume "b_busy (bcache s i)"
      then have "H i = Some n" using i unfolding bcD(8) [OF bc, symmetric] held_def by simp
      with n(3) show False by (auto simp: ran_def)
    qed
    ultimately show ?thesis using bview_cached [OF ok i] cache_okD(4) [OF ok i(1,2)] i by simp
  qed (intro bview_uncached, blast)
  then show ?thesis using bcD(6) [OF bc n(1)] by simp
qed

definition tx_base :: "'a log_state_scheme \<Rightarrow> u32 list \<Rightarrow> int \<Rightarrow> 'a log_state_scheme" where
  "tx_base s0 l n = s0\<lparr>lh_sector := l, lh_n := n\<rparr>"

definition tx_room :: "'a log_state_scheme \<Rightarrow> u32 set \<Rightarrow> bool" where
  "tx_room s0 C \<longleftrightarrow> finite C \<and> card C < LOGSIZE \<and> int (card C) < log_size s0 - 1 \<and> log_busy s0"

definition tx :: "'a log_state_scheme \<Rightarrow> (u32 \<Rightarrow> u8 list) \<Rightarrow> u32 set \<Rightarrow> (nat \<Rightarrow> u32 option) \<Rightarrow> u32 set \<Rightarrow> 'a log_state_scheme \<Rightarrow> bool" where
  "tx s0 V C H M s \<longleftrightarrow> tx_room s0 C \<and> ran H \<subseteq> C \<and> M \<subseteq> ran H \<and>
     (\<exists>l n. let s1 = tx_base s0 l n in log_wf s1 \<and> set (logged s1) \<subseteq> C \<and> bc s1 V (set (logged s1)) H s \<and>
        (\<forall>k \<in> ran H. k \<notin> M \<longrightarrow> k \<in> set (logged s1) \<or> V k = disk_block (memdisk s0) k))"

lemma tx_base_fields [simp]:
  "memdisk (tx_base s0 l n) = memdisk s0" "disksize (tx_base s0 l n) = disksize s0" "log_busy (tx_base s0 l n) = log_busy s0"
  "log_size (tx_base s0 l n) = log_size s0" "log_start (tx_base s0 l n) = log_start s0" "lh_n (tx_base s0 l n) = n"
  "lh_sector (tx_base s0 l n) = l" "log_dev (tx_base s0 l n) = log_dev s0"
  by (simp_all add: tx_base_def)

text \<open>Introduction and elimination, with the header's contents named.\<close>

lemma txE:
  assumes "tx s0 V C H M s"
  obtains l n where "tx_room s0 C" "ran H \<subseteq> C" "M \<subseteq> ran H" "log_wf (tx_base s0 l n)"
    "set (logged (tx_base s0 l n)) \<subseteq> C" "bc (tx_base s0 l n) V (set (logged (tx_base s0 l n))) H s"
    "\<And>k. k \<in> ran H \<Longrightarrow> k \<notin> M \<Longrightarrow> k \<in> set (logged (tx_base s0 l n)) \<or> V k = disk_block (memdisk s0) k"
  using assms unfolding tx_def Let_def by blast

lemma txI:
  assumes "tx_room s0 C" "ran H \<subseteq> C" "M \<subseteq> ran H" "log_wf (tx_base s0 l n)"
    "set (logged (tx_base s0 l n)) \<subseteq> C" "bc (tx_base s0 l n) V (set (logged (tx_base s0 l n))) H s"
    "\<And>k. k \<in> ran H \<Longrightarrow> k \<notin> M \<Longrightarrow> k \<in> set (logged (tx_base s0 l n)) \<or> V k = disk_block (memdisk s0) k"
  shows "tx s0 V C H M s"
  using assms unfolding tx_def Let_def by blast

lemma tx_card:
  assumes "tx_room s0 C" "set (logged (tx_base s0 l n)) \<subseteq> C" "ran H \<subseteq> C" "log_wf (tx_base s0 l n)"
  shows "card (set (logged (tx_base s0 l n)) \<union> ran H) < NBUF" "n < int LOGSIZE" "n < log_size s0 - 1"
proof -
  have fin: "finite C" "card C < LOGSIZE" "int (card C) < log_size s0 - 1" using assms(1) by (simp_all add: tx_room_def)
  show "card (set (logged (tx_base s0 l n)) \<union> ran H) < NBUF"
    using card_mono [OF fin(1), of "set (logged (tx_base s0 l n)) \<union> ran H"] assms(2,3) fin(2) by simp
  have "card (set (logged (tx_base s0 l n))) = length (logged (tx_base s0 l n))"
    using assms(4) by (intro distinct_card) (simp add: log_wf_def)
  moreover have "int (length (logged (tx_base s0 l n))) = n" using assms(4) by (auto simp: logged_def log_wf_def min_def)
  ultimately have "n \<le> int (card C)" using card_mono [OF fin(1) assms(2)] by simp
  then show "n < int LOGSIZE" "n < log_size s0 - 1" using fin by simp_all
qed

lemma tx_length: "tx s0 V C H M s \<Longrightarrow> n < disksize s0 \<Longrightarrow> length (V n) = 512"
  by (erule txE, drule bc_V_length [where n = n]) simp_all

lemma tx_held:
  assumes "tx s0 V C H M s" "H b = Some n"
  shows "n < disksize s0" "buf_data b s = V n"
proof -
  from assms(1) obtain l k where "bc (tx_base s0 l k) V (set (logged (tx_base s0 l k))) H s" by (rule txE)
  then show "n < disksize s0" "buf_data b s = V n"
    using bc_held [of "tx_base s0 l k" V _ H s b n] bc_data [of "tx_base s0 l k" V _ H s b n] assms(2) by simp_all
qed

section \<open>Rules\<close>

lemma tx_bread:
  assumes "n < disksize s0" "n \<notin> ran H" "n \<in> C"
  shows "kspec E (tx s0 V C H M) (bread 1 n) (\<lambda>b s. H b = None \<and> tx s0 V C (H(b \<mapsto> n)) M s)"
proof (rule kspecI_eq)
  fix s assume "tx s0 V C H M s"
  then obtain l k where t: "tx_room s0 C" "ran H \<subseteq> C" "M \<subseteq> ran H" "log_wf (tx_base s0 l k)"
    "set (logged (tx_base s0 l k)) \<subseteq> C" "bc (tx_base s0 l k) V (set (logged (tx_base s0 l k))) H s"
    "\<And>i. i \<in> ran H \<Longrightarrow> i \<notin> M \<Longrightarrow> i \<in> set (logged (tx_base s0 l k)) \<or> V i = disk_block (memdisk s0) i" by (rule txE) blast
  have "kspec {} (bc (tx_base s0 l k) V (set (logged (tx_base s0 l k))) H) (bread 1 n)
      (\<lambda>b s. b < NBUF \<and> H b = None \<and> bc (tx_base s0 l k) V (set (logged (tx_base s0 l k))) (H(b \<mapsto> n)) s)"
    using bread_spec [of n "tx_base s0 l k" H "set (logged (tx_base s0 l k))" V] assms tx_card(1) [OF t(1,5,2,4)] by simp
  from kspecD_total [OF this t(6)] obtain b u where u: "bread 1 n s = Ret b u" "H b = None"
      "bc (tx_base s0 l k) V (set (logged (tx_base s0 l k))) (H(b \<mapsto> n)) u" by blast
  have r: "ran (H(b \<mapsto> n)) = insert n (ran H)" using u(2) by simp
  have "n \<in> set (logged (tx_base s0 l k)) \<or> V n = disk_block (memdisk s0) n"
    using bc_clean_held [OF t(6), of n] assms by auto
  then have "tx s0 V C (H(b \<mapsto> n)) M u"
    using t assms(3) u(3) by (intro txI [of s0 C _ _ l k]) (auto simp: r)
  with u show "\<exists>a t. bread 1 n s = Ret a t \<and> H a = None \<and> tx s0 V C (H(a \<mapsto> n)) M t" by blast
qed

lemma tx_set_data:
  assumes "H b = Some n" "length (f (V n)) = 512"
  shows "kspec E (tx s0 V C H M) (set_data b f) (\<lambda>_. tx s0 (V(n := f (V n))) C H (insert n M))"
proof (rule kspecI_eq)
  fix s assume "tx s0 V C H M s"
  then obtain l k where t: "tx_room s0 C" "ran H \<subseteq> C" "M \<subseteq> ran H" "log_wf (tx_base s0 l k)"
    "set (logged (tx_base s0 l k)) \<subseteq> C" "bc (tx_base s0 l k) V (set (logged (tx_base s0 l k))) H s"
    "\<And>i. i \<in> ran H \<Longrightarrow> i \<notin> M \<Longrightarrow> i \<in> set (logged (tx_base s0 l k)) \<or> V i = disk_block (memdisk s0) i" by (rule txE) blast
  from kspecD_total [OF set_data_spec [of H b n f V "tx_base s0 l k", OF assms] t(6)]
  obtain u where u: "set_data b f s = Ret () u"
      "bc (tx_base s0 l k) (V(n := f (V n))) (set (logged (tx_base s0 l k))) H u" by auto
  have "n \<in> ran H" using assms(1) by (auto simp: ran_def)
  then have "tx s0 (V(n := f (V n))) C H (insert n M) u"
    using t u(2) by (intro txI [of s0 C _ _ l k]) auto
  with u show "\<exists>a t. set_data b f s = Ret a t \<and> tx s0 (V(n := f (V n))) C H (insert n M) t" by blast
qed

lemma log_add_base: "log_add x (tx_base s0 l k) = tx_base s0 (l[log_slot k l x := x]) (if int (log_slot k l x) = k then k + 1 else k)"
  by (simp add: log_add_def tx_base_def Let_def)

lemma tx_log_write:
  assumes "H b = Some n"
  shows "kspec E (tx s0 V C H M) (log_write b) (\<lambda>_. tx s0 V C H (M - {n}))"
proof (rule kspecI_eq)
  fix s assume "tx s0 V C H M s"
  then obtain l k where t: "tx_room s0 C" "ran H \<subseteq> C" "M \<subseteq> ran H" "log_wf (tx_base s0 l k)"
    "set (logged (tx_base s0 l k)) \<subseteq> C" "bc (tx_base s0 l k) V (set (logged (tx_base s0 l k))) H s"
    "\<And>i. i \<in> ran H \<Longrightarrow> i \<notin> M \<Longrightarrow> i \<in> set (logged (tx_base s0 l k)) \<or> V i = disk_block (memdisk s0) i" by (rule txE) blast
  note c = tx_card [OF t(1,5,2,4)]
  have busy: "log_busy s0" using t(1) by (simp add: tx_room_def)
  have nH: "n \<in> ran H" using assms by (auto simp: ran_def)
  let ?s = "tx_base s0 l k" and ?l = "l[log_slot k l n := n]" and ?k = "if int (log_slot k l n) = k then k + 1 else k"
  have "kspec {} (bc ?s V (set (logged ?s)) H) (log_write b) (\<lambda>_. bc (log_add n ?s) V (insert n (set (logged ?s))) H)"
    using log_write_spec [of H b n ?s V "set (logged ?s)", OF assms] busy c by simp
  from kspecD_unit [OF this t(6)] obtain u where u: "log_write b s = Ret () u" "bc (log_add n ?s) V (insert n (set (logged ?s))) H u"
    by blast
  have lg: "log_wf (log_add n ?s)" "set (logged (log_add n ?s)) = insert n (set (logged ?s))"
    using log_add_spec [OF t(4), of n] c by auto
  have "tx s0 V C H (M - {n}) u"
    using t u(2) lg nH unfolding log_add_base by (intro txI [of s0 C _ _ ?l ?k]) auto
  with u show "\<exists>a t. log_write b s = Ret a t \<and> tx s0 V C H (M - {n}) t" by blast
qed

lemma ran_drop:
  assumes "H b = Some n" "\<And>i. H i = Some n \<Longrightarrow> i = b"
  shows "ran (H(b := None)) = ran H - {n}"
proof -
  have "x \<in> ran (H(b := None)) \<longleftrightarrow> (\<exists>i. i \<noteq> b \<and> H i = Some x)" for x by (auto simp: ran_def)
  moreover have "(\<exists>i. i \<noteq> b \<and> H i = Some x) \<longleftrightarrow> x \<in> ran H \<and> x \<noteq> n" for x
  proof
    assume "x \<in> ran H \<and> x \<noteq> n"
    then obtain i where "H i = Some x" "x \<noteq> n" by (auto simp: ran_def)
    with assms(1) show "\<exists>i. i \<noteq> b \<and> H i = Some x" by (intro exI [of _ i]) auto
  next
    assume "\<exists>i. i \<noteq> b \<and> H i = Some x"
    then obtain i where i: "i \<noteq> b" "H i = Some x" by blast
    then have "x \<noteq> n" using assms(2) [of i] by blast
    with i(2) show "x \<in> ran H \<and> x \<noteq> n" by (auto simp: ran_def)
  qed
  ultimately show ?thesis by blast
qed

lemma tx_brelse:
  assumes "H b = Some n" "n \<notin> M"
  shows "kspec E (tx s0 V C H M) (brelse b) (\<lambda>_. tx s0 V C (H(b := None)) M)"
proof (rule kspecI_eq)
  fix s assume "tx s0 V C H M s"
  then obtain l k where t: "tx_room s0 C" "ran H \<subseteq> C" "M \<subseteq> ran H" "log_wf (tx_base s0 l k)"
    "set (logged (tx_base s0 l k)) \<subseteq> C" "bc (tx_base s0 l k) V (set (logged (tx_base s0 l k))) H s"
    "\<And>i. i \<in> ran H \<Longrightarrow> i \<notin> M \<Longrightarrow> i \<in> set (logged (tx_base s0 l k)) \<or> V i = disk_block (memdisk s0) i" by (rule txE) blast
  have nH: "n \<in> ran H" using assms by (auto simp: ran_def)
  have "n \<in> set (logged (tx_base s0 l k)) \<or> V n = disk_block (memdisk (tx_base s0 l k)) n" using t(7) [OF nH assms(2)] by simp
  from kspecD_unit [OF brelse_spec [of H b n _ V "tx_base s0 l k", OF assms(1) this] t(6)]
  obtain u where u: "brelse b s = Ret () u" "bc (tx_base s0 l k) V (set (logged (tx_base s0 l k))) (H(b := None)) u" by blast
  have r: "ran (H(b := None)) = ran H - {n}"
    by (rule ran_drop [of H b n, OF assms(1)]) (rule bc_held_inj [OF t(6) _ assms(1)])
  have "tx s0 V C (H(b := None)) M u"
    using t u(2) assms(2) by (intro txI [of s0 C _ _ l k]) (auto simp: r)
  with u show "\<exists>a t. brelse b s = Ret a t \<and> tx s0 V C (H(b := None)) M t" by blast
qed

text \<open>A block read and given back.\<close>

lemma tx_read:
  assumes "n < disksize s0" "n \<notin> ran H"
  shows "kspec E (tx s0 V C H M) (kbind (bread 1 n) (\<lambda>b. kbind (kget (buf_data b)) (\<lambda>d. kseq (brelse b) (kret (g d)))))
    (\<lambda>r s. r = g (V n) \<and> tx s0 V C H M s)"
proof (rule kspecI_eq)
  fix s assume "tx s0 V C H M s"
  then obtain l k where t: "tx_room s0 C" "ran H \<subseteq> C" "M \<subseteq> ran H" "log_wf (tx_base s0 l k)"
    "set (logged (tx_base s0 l k)) \<subseteq> C" "bc (tx_base s0 l k) V (set (logged (tx_base s0 l k))) H s"
    "\<And>i. i \<in> ran H \<Longrightarrow> i \<notin> M \<Longrightarrow> i \<in> set (logged (tx_base s0 l k)) \<or> V i = disk_block (memdisk s0) i" by (rule txE) blast
  let ?s = "tx_base s0 l k"
  have "n \<in> set (logged ?s) \<or> disk_block (memdisk ?s) n = V n"
    using bc_clean_held [OF t(6) _ _ assms(2)] assms(1) by fastforce
  then have "kspec {} (bc ?s V (set (logged ?s)) H) (kbind (bread 1 n) (\<lambda>b. kbind (kget (buf_data b)) (\<lambda>d. kseq (brelse b) (kret (g d)))))
      (\<lambda>r s. r = g (V n) \<and> bc ?s V (set (logged ?s)) H s)"
    using read_block_spec [of n ?s H "set (logged ?s)" V g] assms tx_card(1) [OF t(1,5,2,4)] by simp
  from kspecD_total [OF this t(6)] show "\<exists>a t. kbind (bread 1 n) (\<lambda>b. kbind (kget (buf_data b)) (\<lambda>d. kseq (brelse b) (kret (g d)))) s = Ret a t \<and>
      a = g (V n) \<and> tx s0 V C H M t"
    using txI [OF t(1-5) _ t(7)] by blast
qed

text \<open>A block looked at and given back: the rest of the routine is the release once the contents are known.\<close>

lemma tx_bread_data:
  assumes "tx s0 V C H M s" "n < disksize s0" "n \<notin> ran H"
  shows "\<exists>b u. bread 1 n s = Ret b u \<and> buf_data b u = V n"
proof -
  from assms(1) obtain l k where t: "tx_room s0 C" "ran H \<subseteq> C" "log_wf (tx_base s0 l k)"
    "set (logged (tx_base s0 l k)) \<subseteq> C" "bc (tx_base s0 l k) V (set (logged (tx_base s0 l k))) H s" by (rule txE) blast
  have "kspec {} (bc (tx_base s0 l k) V (set (logged (tx_base s0 l k))) H) (bread 1 n)
      (\<lambda>b s. b < NBUF \<and> H b = None \<and> bc (tx_base s0 l k) V (set (logged (tx_base s0 l k))) (H(b \<mapsto> n)) s)"
    using bread_spec [of n "tx_base s0 l k" H "set (logged (tx_base s0 l k))" V] assms tx_card(1) [OF t(1,4,2,3)] by simp
  from kspecD_total [OF this t(5)] obtain b u where u: "bread 1 n s = Ret b u"
      "bc (tx_base s0 l k) V (set (logged (tx_base s0 l k))) (H(b \<mapsto> n)) u" by blast
  with bc_data [OF u(2), of b n] show ?thesis by auto
qed

lemma tx_peek:
  assumes "n < disksize s0" "n \<notin> ran H" "\<And>b. F b (V n) = kseq (brelse b) (kret r)"
  shows "kspec E (tx s0 V C H M) (kbind (bread 1 n) (\<lambda>b. kbind (kget (buf_data b)) (F b))) (\<lambda>a s. a = r \<and> tx s0 V C H M s)"
proof (rule kspec_cong)
  show "kbind (bread 1 n) (\<lambda>b. kbind (kget (buf_data b)) (F b)) s =
      kbind (bread 1 n) (\<lambda>b. kbind (kget (buf_data b)) (\<lambda>d. kseq (brelse b) (kret r))) s" if "tx s0 V C H M s" for s
    using tx_bread_data [OF that assms(1,2)] assms(3) by (auto simp: kbind_eq kget_def)
  show "kspec E (tx s0 V C H M) (kbind (bread 1 n) (\<lambda>b. kbind (kget (buf_data b)) (\<lambda>d. kseq (brelse b) (kret r))))
      (\<lambda>a s. a = r \<and> tx s0 V C H M s)"
    by (rule tx_read [OF assms(1,2)])
qed

text \<open>A logged update, the buffer still held or already read.\<close>

lemma tx_log_done:
  assumes "H b = Some n" "length (f (V n)) = 512" "n \<notin> M"
  shows "kspec E (tx s0 V C H M) (kseq (set_data b f) (kseq (log_write b) (brelse b)))
    (\<lambda>_. tx s0 (V(n := f (V n))) C (H(b := None)) M)"
proof -
  have "insert n M - {n} = M" using assms(3) by auto
  then have 2: "kspec E (tx s0 (V(n := f (V n))) C H (insert n M)) (log_write b) (\<lambda>_. tx s0 (V(n := f (V n))) C H M)"
    using tx_log_write [of H b n E s0 "V(n := f (V n))" C "insert n M", OF assms(1)] by simp
  show ?thesis
    by (rule kspec_seq [OF tx_set_data [of H b n f V, OF assms(1,2)]], rule kspec_seq [OF 2], rule tx_brelse [of H b n M, OF assms(1,3)])
qed

lemma tx_update:
  assumes "n < disksize s0" "n \<notin> ran H" "n \<in> C" "n \<notin> M" "length (f (V n)) = 512"
  shows "kspec E (tx s0 V C H M) (kbind (bread 1 n) (\<lambda>b. kseq (set_data b f) (kseq (log_write b) (brelse b))))
    (\<lambda>_. tx s0 (V(n := f (V n))) C H M)"
proof (rule kspec_bind [OF tx_bread [OF assms(1-3)]], rule kspec_pure)
  fix b assume b: "H b = None"
  have "(H(b \<mapsto> n))(b := None) = H" using b by auto
  then show "kspec E (tx s0 V C (H(b \<mapsto> n)) M) (kseq (set_data b f) (kseq (log_write b) (brelse b)))
      (\<lambda>_. tx s0 (V(n := f (V n))) C H M)"
    using tx_log_done [of "H(b \<mapsto> n)" b n f V M E s0 C] assms(4,5) by simp
qed

text \<open>State that neither the cache nor the log knows of may change under a transaction.\<close>

lemma tx_frame:
  assumes t: "tx s0 V C H M s"
    and c: "\<And>s l n. g (s\<lparr>lh_sector := l, lh_n := n\<rparr>) = (g s)\<lparr>lh_sector := l, lh_n := n\<rparr>"
      "\<And>s x p. g (s\<lparr>bcache := x, ptable := p\<rparr>) = (g s)\<lparr>bcache := x, ptable := p\<rparr>"
      "\<And>s. ptable (g s) = ptable s" "\<And>s. memdisk (g s) = memdisk s" "\<And>s. disksize (g s) = disksize s"
      "\<And>s lk. lockable lk (g s) = lockable lk s" "\<And>s. log_size (g s) = log_size s" "\<And>s. log_busy (g s) = log_busy s"
      "\<And>s. log_dev (g s) = log_dev s"
  shows "tx (g s0) V C H M (g s)"
proof -
  obtain l k where t: "tx_room s0 C" "ran H \<subseteq> C" "M \<subseteq> ran H" "log_wf (tx_base s0 l k)"
    "set (logged (tx_base s0 l k)) \<subseteq> C" "bc (tx_base s0 l k) V (set (logged (tx_base s0 l k))) H s"
    "\<And>i. i \<in> ran H \<Longrightarrow> i \<notin> M \<Longrightarrow> i \<in> set (logged (tx_base s0 l k)) \<or> V i = disk_block (memdisk s0) i" using t by (rule txE) blast
  have b: "g (tx_base s0 l k) = tx_base (g s0) l k" by (simp add: tx_base_def c)
  have lg: "logged (tx_base (g s0) l k) = logged (tx_base s0 l k)" "log_wf (tx_base (g s0) l k) = log_wf (tx_base s0 l k)"
    by (simp_all add: logged_def log_wf_def c)
  have "bc (g (tx_base s0 l k)) V (set (logged (tx_base s0 l k))) H (g s)"
    by (rule bc_frame_upd [OF t(6)]) (simp_all add: c)
  then show ?thesis
    using t by (intro txI [of "g s0" C H M l k]) (simp_all add: lg b tx_room_def c)
qed

end
