(* ===== verification/Balloc.thy ===== *)
theory Balloc
  imports Inode Trans
begin

text \<open>
  The block allocator of \<^verbatim>\<open>fs.c\<close> at work: \<^verbatim>\<open>balloc\<close> finds the first free block, marks and clears it; \<^verbatim>\<open>bfree\<close> undoes the
  mark. Both touch one bit of the bitmap and, in \<^verbatim>\<open>balloc\<close>, the new block.
\<close>

section \<open>Loops\<close>

lemma kspec_kfor_none:
  assumes "\<And>i. i \<in> set is \<Longrightarrow> kspec E P (body i) (\<lambda>r s. r = None \<and> P s)"
  shows "kspec E P (kfor is body) (\<lambda>r s. r = None \<and> P s)"
  using assms
proof (induction "is")
  case (Cons i "is")
  show ?case unfolding kfor.simps
  proof (rule kspec_bind)
    show "kspec E P (body i) (\<lambda>r s. r = None \<and> P s)" using Cons.prems by simp
    fix r
    show "kspec E (\<lambda>s. r = None \<and> P s) (case r of None \<Rightarrow> kfor is body | Some x \<Rightarrow> kret (Some x)) (\<lambda>r s. r = None \<and> P s)"
      by (rule kspec_pure) (use Cons in simp)
  qed
qed (simp add: kspec_ret)

lemma kspec_kfor_found:
  assumes "xs = ys @ i # zs" "\<And>j. j \<in> set ys \<Longrightarrow> kspec E P (body j) (\<lambda>r s. r = None \<and> P s)"
    "kspec E P (body i) (\<lambda>r s. r = Some x \<and> Q s)"
  shows "kspec E P (kfor xs body) (\<lambda>r s. r = Some x \<and> Q s)"
  using assms(2) unfolding assms(1)
proof (induction ys)
  case Nil
  show ?case unfolding kfor.simps append_Nil
  proof (rule kspec_bind [OF assms(3)])
    show "kspec E (\<lambda>s. r = Some x \<and> Q s) (case r of None \<Rightarrow> kfor zs body | Some x \<Rightarrow> kret (Some x)) (\<lambda>r s. r = Some x \<and> Q s)"
      for r by (rule kspec_pure) (simp add: kspec_ret)
  qed
next
  case (Cons j ys)
  show ?case unfolding kfor.simps append_Cons
  proof (rule kspec_bind)
    show "kspec E P (body j) (\<lambda>r s. r = None \<and> P s)" using Cons.prems by simp
    show "kspec E (\<lambda>s. r = None \<and> P s) (case r of None \<Rightarrow> kfor (ys @ i # zs) body | Some x \<Rightarrow> kret (Some x))
        (\<lambda>r s. r = Some x \<and> Q s)" for r
      by (rule kspec_pure) (use Cons in simp)
  qed
qed

section \<open>Bits\<close>

lemma bit_free_iff: "bit_free d i \<longleftrightarrow> \<not> bit (d ! (i div 8)) (i mod 8)"
proof -
  have "d ! (i div 8) AND push_bit (i mod 8) 1 = (if bit (d ! (i div 8)) (i mod 8) then push_bit (i mod 8) 1 else 0)"
    by (rule bit_word_eqI) (auto simp: bit_and_iff bit_exp_iff)
  moreover have "push_bit (i mod 8) 1 \<noteq> (0 :: u8)"
  proof
    assume "push_bit (i mod 8) 1 = (0 :: u8)"
    then have "bit (push_bit (i mod 8) 1 :: u8) (i mod 8) = bit (0 :: u8) (i mod 8)" by simp
    then show False by (simp add: bit_exp_iff)
  qed
  ultimately show ?thesis by (simp add: bit_free_def bit_mask_def)
qed

lemma same_bit: "i div 8 = j div 8 \<Longrightarrow> i mod 8 = j mod 8 \<Longrightarrow> i = (j :: nat)"
  by (metis div_mult_mod_eq)

lemma bit_mask_iff:
  fixes w :: u8
  shows "bit (w OR bit_mask i) n \<longleftrightarrow> bit w n \<or> n = i mod 8" "bit (w AND NOT (bit_mask i)) n \<longleftrightarrow> bit w n \<and> n \<noteq> i mod 8"
proof -
  have m: "bit (bit_mask i) n \<longleftrightarrow> n = i mod 8" by (auto simp: bit_mask_def bit_exp_iff)
  show "bit (w OR bit_mask i) n \<longleftrightarrow> bit w n \<or> n = i mod 8" unfolding bit_or_iff m ..
  show "bit (w AND NOT (bit_mask i)) n \<longleftrightarrow> bit w n \<and> n \<noteq> i mod 8"
    unfolding bit_and_iff bit_not_iff m using bit_imp_le_length [of w n] by auto
qed

lemma bit_free_upd:
  assumes "i < 8 * length d"
  shows "bit_free (set_bit_at i d) j \<longleftrightarrow> bit_free d j \<and> j \<noteq> i" (is ?set)
    "bit_free (clear_bit_at i d) j \<longleftrightarrow> bit_free d j \<or> j = i" (is ?clear)
proof -
  have len: "i div 8 < length d" using assms by simp
  have "?set \<and> ?clear"
  proof (cases "j div 8 = i div 8")
    case True
    then have "j mod 8 = i mod 8 \<longleftrightarrow> j = i" using same_bit [OF True] by blast
    then show ?thesis using len by (simp add: bit_free_iff set_bit_at_def clear_bit_at_def True bit_mask_iff)
  next
    case False
    then have "j \<noteq> i" by blast
    then show ?thesis using len False by (simp add: bit_free_iff set_bit_at_def clear_bit_at_def)
  qed
  then show ?set ?clear by simp_all
qed

lemma length_bit_at [simp]: "length (set_bit_at i d) = length d" "length (clear_bit_at i d) = length d"
  by (simp_all add: set_bit_at_def clear_bit_at_def)

section \<open>The bitmap\<close>

text \<open>
  The last block of the bitmap as \<^verbatim>\<open>mkfs\<close> lays it out; blocks up to it hold the file system's own data. The geometry
  keeps the bitmap inside the file system and the file system on the disk.
\<close>

definition meta :: "superblock \<Rightarrow> u32 \<Rightarrow> bool" where
  "meta sb n \<longleftrightarrow> unat n \<le> unat (sb_size sb) div 4096 + unat (sb_ninodes sb) div 8 + 3"

definition fs_geom :: "superblock \<Rightarrow> 'a bio_state_scheme \<Rightarrow> bool" where
  "fs_geom sb s \<longleftrightarrow> sb_size sb \<le> disksize s \<and>
     unat (sb_size sb) div 4096 + unat (sb_ninodes sb) div 8 + 3 < unat (sb_size sb)"

definition used :: "superblock \<Rightarrow> (u32 \<Rightarrow> u8 list) \<Rightarrow> u32 \<Rightarrow> bool" where
  "used sb V b \<longleftrightarrow> \<not> bit_free (V (BBLOCK b (sb_ninodes sb))) (unat b mod BPB)"

definition fs_inv :: "superblock \<Rightarrow> (u32 \<Rightarrow> u8 list) \<Rightarrow> 'a bio_state_scheme \<Rightarrow> bool" where
  "fs_inv sb V s \<longleftrightarrow> fs_geom sb s \<and> dec_sb (V 1) = sb \<and> (\<forall>n. meta sb n \<longrightarrow> used sb V n)"

lemma BBLOCK_meta:
  assumes "fs_geom sb s" "b < sb_size sb"
  shows "unat (BBLOCK b (sb_ninodes sb)) = unat b div 4096 + unat (sb_ninodes sb) div 8 + 3"
    "meta sb (BBLOCK b (sb_ninodes sb))" "BBLOCK b (sb_ninodes sb) < sb_size sb" "BBLOCK b (sb_ninodes sb) < disksize s"
    "BBLOCK b (sb_ninodes sb) \<noteq> 1"
proof -
  let ?k = "unat b div 4096 + unat (sb_ninodes sb) div 8 + 3"
  have "unat b < unat (sb_size sb)" using assms(2) by (simp add: word_less_nat_alt)
  then have le: "unat b div 4096 \<le> unat (sb_size sb) div 4096" by (simp add: div_le_mono)
  then have lt: "?k < unat (sb_size sb)" using assms(1) by (simp add: fs_geom_def)
  then have lt32: "?k < 2 ^ 32" using u32_bound [of "sb_size sb"] by simp
  show u: "unat (BBLOCK b (sb_ninodes sb)) = ?k"
    using lt32 by (simp add: BBLOCK_def unat_word_ariths unat_div)
  show "meta sb (BBLOCK b (sb_ninodes sb))" using le by (simp add: meta_def u)
  show s: "BBLOCK b (sb_ninodes sb) < sb_size sb" using lt by (simp add: word_less_nat_alt u)
  show "BBLOCK b (sb_ninodes sb) < disksize s" using s assms(1) by (auto simp: fs_geom_def)
  show "BBLOCK b (sb_ninodes sb) \<noteq> 1"
  proof
    assume "BBLOCK b (sb_ninodes sb) = 1"
    then have "unat (BBLOCK b (sb_ninodes sb)) = 1" by simp
    then show False unfolding u by simp
  qed
qed

lemma fs_geom_sizes:
  assumes "fs_geom sb s"
  shows "1 < disksize s" "meta sb 1" "meta sb n \<Longrightarrow> n < sb_size sb" "n < sb_size sb \<Longrightarrow> n < disksize s"
  using assms by (auto simp: fs_geom_def meta_def word_less_nat_alt word_le_nat_alt)

lemma same_bitmap_bit:
  assumes "fs_geom sb s" "a < sb_size sb" "b < sb_size sb"
    "BBLOCK a (sb_ninodes sb) = BBLOCK b (sb_ninodes sb)" "unat a mod BPB = unat b mod BPB"
  shows "a = b"
proof -
  have d: "unat a div 4096 = unat b div 4096"
    using BBLOCK_meta(1) [OF assms(1,2)] BBLOCK_meta(1) [OF assms(1,3)] unfolding assms(4) by linarith
  have "unat a = unat a div 4096 * 4096 + unat a mod 4096" by simp
  also have "unat a mod 4096 = unat b mod 4096" using assms(5) by simp
  also have "unat a div 4096 * 4096 + unat b mod 4096 = unat b" unfolding d by simp
  finally show ?thesis unfolding word_unat_eq_iff .
qed

text \<open>The view after a block is marked, and after its mark is cleared.\<close>

definition mark :: "superblock \<Rightarrow> u32 \<Rightarrow> (u32 \<Rightarrow> u8 list) \<Rightarrow> u32 \<Rightarrow> u8 list" where
  "mark sb b V = (let k = BBLOCK b (sb_ninodes sb) in V(k := set_bit_at (unat b mod BPB) (V k)))"

definition unmark :: "superblock \<Rightarrow> u32 \<Rightarrow> (u32 \<Rightarrow> u8 list) \<Rightarrow> u32 \<Rightarrow> u8 list" where
  "unmark sb b V = (let k = BBLOCK b (sb_ninodes sb) in V(k := clear_bit_at (unat b mod BPB) (V k)))"

lemma used_mark:
  assumes "fs_geom sb s" "b < sb_size sb" "length (V (BBLOCK b (sb_ninodes sb))) = 512" "c < sb_size sb"
  shows "used sb (mark sb b V) c \<longleftrightarrow> used sb V c \<or> c = b"
proof (cases "c = b")
  case False
  then have "unat c mod BPB \<noteq> unat b mod BPB" if "BBLOCK c (sb_ninodes sb) = BBLOCK b (sb_ninodes sb)"
    using same_bitmap_bit [OF assms(1,4,2) that] by blast
  then show ?thesis
    by (cases "BBLOCK c (sb_ninodes sb) = BBLOCK b (sb_ninodes sb)") (use False assms(3) in \<open>simp_all add: used_def mark_def Let_def bit_free_upd\<close>)
next
  case True
  show ?thesis unfolding True using assms(3) by (simp add: used_def mark_def Let_def bit_free_upd)
qed

lemma used_unmark:
  assumes "fs_geom sb s" "b < sb_size sb" "length (V (BBLOCK b (sb_ninodes sb))) = 512" "c < sb_size sb"
  shows "used sb (unmark sb b V) c \<longleftrightarrow> used sb V c \<and> c \<noteq> b"
proof (cases "c = b")
  case False
  then have "unat c mod BPB \<noteq> unat b mod BPB" if "BBLOCK c (sb_ninodes sb) = BBLOCK b (sb_ninodes sb)"
    using same_bitmap_bit [OF assms(1,4,2) that] by blast
  then show ?thesis
    by (cases "BBLOCK c (sb_ninodes sb) = BBLOCK b (sb_ninodes sb)") (use False assms(3) in \<open>simp_all add: used_def unmark_def Let_def bit_free_upd\<close>)
next
  case True
  show ?thesis unfolding True using assms(3) by (simp add: used_def unmark_def Let_def bit_free_upd)
qed

section \<open>The search\<close>

lemma unat_u32: "n < 4294967296 \<Longrightarrow> unat (of_nat n :: u32) = n"
  by (simp add: unat_of_nat)

lemma BBLOCK_base:
  assumes "fs_geom sb s" "k * 4096 + i < unat (sb_size sb)" "i < 4096"
  shows "used sb V (of_nat (k * 4096 + i)) \<longleftrightarrow> \<not> bit_free (V (BBLOCK (of_nat (k * 4096)) (sb_ninodes sb))) i"
    "BBLOCK (of_nat (k * 4096 + i)) (sb_ninodes sb) = BBLOCK (of_nat (k * 4096)) (sb_ninodes sb)"
proof -
  have lt: "k * 4096 + i < 4294967296" "k * 4096 < 4294967296" using assms(2) u32_bound [of "sb_size sb"] by simp_all
  have u: "unat (of_nat (k * 4096 + i) :: u32) = k * 4096 + i" "unat (of_nat (k * 4096) :: u32) = k * 4096"
    by (rule unat_u32 [OF lt(1)], rule unat_u32 [OF lt(2)])
  have lt': "of_nat (k * 4096 + i) < sb_size sb" "of_nat (k * 4096) < sb_size sb"
    unfolding word_less_nat_alt u using assms(2) by simp_all
  have "(k * 4096 + i) div 4096 = k * 4096 div 4096" using assms(3) by simp
  then have "unat (BBLOCK (of_nat (k * 4096 + i)) (sb_ninodes sb)) = unat (BBLOCK (of_nat (k * 4096)) (sb_ninodes sb))"
    unfolding BBLOCK_meta(1) [OF assms(1) lt'(1)] BBLOCK_meta(1) [OF assms(1) lt'(2)] u by (rule arg_cong)
  then show b: "BBLOCK (of_nat (k * 4096 + i)) (sb_ninodes sb) = BBLOCK (of_nat (k * 4096)) (sb_ninodes sb)"
    unfolding word_unat_eq_iff .
  show "used sb V (of_nat (k * 4096 + i)) \<longleftrightarrow> \<not> bit_free (V (BBLOCK (of_nat (k * 4096)) (sb_ninodes sb))) i"
    unfolding used_def b u using assms(3) by simp
qed

lemma free_bit_None:
  assumes "fs_geom sb s" "\<And>i. i < 4096 \<Longrightarrow> k * 4096 + i < unat (sb_size sb) \<Longrightarrow> used sb V (of_nat (k * 4096 + i))"
  shows "free_bit (sb_size sb) (k * 4096) (V (BBLOCK (of_nat (k * 4096)) (sb_ninodes sb))) = None"
proof -
  have "\<not> bit_free (V (BBLOCK (of_nat (k * 4096)) (sb_ninodes sb))) i" if "i < min 4096 (unat (sb_size sb) - k * 4096)" for i
  proof -
    have "k * 4096 + i < unat (sb_size sb)" "i < 4096" using that by linarith+
    then show ?thesis using assms(2) [of i] BBLOCK_base(1) [OF assms(1), of k i V] by blast
  qed
  then show ?thesis by (auto simp: free_bit_def find_None_iff)
qed

lemma free_bit_Some:
  assumes "fs_geom sb s" "i < 4096" "k * 4096 + i < unat (sb_size sb)" "\<not> used sb V (of_nat (k * 4096 + i))"
    "\<And>j. j < i \<Longrightarrow> used sb V (of_nat (k * 4096 + j))"
  shows "free_bit (sb_size sb) (k * 4096) (V (BBLOCK (of_nat (k * 4096)) (sb_ninodes sb))) = Some i"
proof -
  have "bit_free (V (BBLOCK (of_nat (k * 4096)) (sb_ninodes sb))) i" using BBLOCK_base(1) [OF assms(1,3,2)] assms(4) by blast
  moreover have "\<not> bit_free (V (BBLOCK (of_nat (k * 4096)) (sb_ninodes sb))) j" if "j < i" for j
  proof -
    have "k * 4096 + j < unat (sb_size sb)" "j < 4096" using that assms(2,3) by linarith+
    then show ?thesis using BBLOCK_base(1) [OF assms(1), of k j V] assms(5) [OF that] by blast
  qed
  moreover have "i < min BPB (unat (sb_size sb) - k * 4096)" using assms(2,3) by simp
  ultimately show ?thesis by (auto simp: free_bit_def find_Some_iff)
qed

lemma bitmap_bases_split:
  assumes "b < unat n"
  shows "\<exists>ys zs. bitmap_bases n = ys @ (b div 4096 * 4096) # zs \<and> (\<forall>j \<in> set ys. \<exists>k < b div 4096. j = k * 4096)"
proof -
  let ?q = "b div 4096" and ?K = "unat n div 4096"
  have q: "?q \<le> ?K" using assms by (simp add: div_le_mono)
  then have sp: "[0..<?K + 1] = [0..<?q] @ ?q # [?q + 1..<?K + 1]"
    using upt_add_eq_append [of 0 ?q "?K + 1 - ?q"] upt_conv_Cons [of ?q "?K + 1"] by simp
  have lt: "?q * 4096 < unat n" using assms by (meson le_less_trans div_times_less_eq_dividend)
  have "bitmap_bases n = filter (\<lambda>b. b < unat n) (map (\<lambda>k. k * 4096) [0..<?q]) @ (?q * 4096) #
      filter (\<lambda>b. b < unat n) (map (\<lambda>k. k * 4096) [?q + 1..<?K + 1])"
  proof -
    have "bitmap_bases n = filter (\<lambda>b. b < unat n) (map (\<lambda>k. k * 4096) [0..<?K + 1])"
      by (simp add: bitmap_bases_def del: upt_Suc)
    then show ?thesis using lt by (simp only: sp map_append filter_append list.map filter.simps if_True)
  qed
  moreover have "\<exists>k < ?q. j = k * 4096" if "j \<in> set (filter (\<lambda>b. b < unat n) (map (\<lambda>k. k * 4096) [0..<?q]))" for j
    using that by auto
  ultimately show ?thesis by blast
qed

text \<open>The first free block.\<close>

definition first_free :: "superblock \<Rightarrow> (u32 \<Rightarrow> u8 list) \<Rightarrow> u32 \<Rightarrow> bool" where
  "first_free sb V b \<longleftrightarrow> b < sb_size sb \<and> \<not> used sb V b \<and> (\<forall>a < b. used sb V a)"

definition alloc_view :: "superblock \<Rightarrow> u32 \<Rightarrow> (u32 \<Rightarrow> u8 list) \<Rightarrow> u32 \<Rightarrow> u8 list" where
  "alloc_view sb b V = (mark sb b V)(b := replicate BSIZE 0)"

lemma readsb_tx:
  assumes "fs_inv sb V s0" "1 \<notin> ran H"
  shows "kspec E (tx s0 V C H M) (readsb 1) (\<lambda>r s. r = sb \<and> tx s0 V C H M s)"
proof -
  have "dec_sb (V 1) = sb" "1 < disksize s0" using assms(1) fs_geom_sizes(1) by (auto simp: fs_inv_def)
  then show ?thesis using tx_read [of 1 s0 H E V C M dec_sb] assms(2) unfolding readsb_def by simp
qed

lemma bzero_tx:
  assumes "n < disksize s0" "n \<notin> ran H" "n \<in> C" "n \<notin> M"
  shows "kspec E (tx s0 V C H M) (bzero 1 n) (\<lambda>_. tx s0 (V(n := replicate BSIZE 0)) C H M)"
  using tx_update [OF assms, of "\<lambda>_. replicate BSIZE 0" V E] unfolding bzero_def by simp

lemma tx_M: "tx s0 V C H M s \<Longrightarrow> M \<subseteq> ran H"
  by (erule txE)

text \<open>One round of the search: a bitmap block without a free block is released again; in the one that has the first
  free block its bit is set, the block is written to the log and the new block is cleared.\<close>

abbreviation (input) balloc_round :: "superblock \<Rightarrow> nat \<Rightarrow> ('a log_state_scheme, u32 option) kop" where
  "balloc_round sb j \<equiv> kbind (bread 1 (BBLOCK (of_nat j) (sb_ninodes sb))) (\<lambda>bp. kbind (kget (buf_data bp)) (\<lambda>d.
     case free_bit (sb_size sb) j d of
       Some bi \<Rightarrow> kseq (set_data bp (set_bit_at bi)) (kseq (log_write bp) (kseq (brelse bp)
         (kseq (bzero 1 (of_nat (j + bi))) (kret (Some (of_nat (j + bi)))))))
     | None \<Rightarrow> kseq (brelse bp) (kret None)))"

lemma balloc_miss:
  assumes "free_bit (sb_size sb) j (V (BBLOCK (of_nat j) (sb_ninodes sb))) = None"
    "BBLOCK (of_nat j) (sb_ninodes sb) < disksize s0" "BBLOCK (of_nat j) (sb_ninodes sb) \<notin> ran H"
  shows "kspec E (tx s0 V C H M) (balloc_round sb j) (\<lambda>r s. r = None \<and> tx s0 V C H M s)"
  by (rule tx_peek [OF assms(2,3)]) (simp add: assms(1))

lemma balloc_hit:
  assumes fb: "free_bit (sb_size sb) j (V k) = Some i" and k: "BBLOCK (of_nat j) (sb_ninodes sb) = k" "k < disksize s0" "k \<notin> ran H" "k \<in> C"
    and b: "of_nat (j + i) = b" "b < disksize s0" "b \<notin> ran H" "b \<in> C" and M: "k \<notin> M" "b \<notin> M"
  shows "kspec E (tx s0 V C H M) (balloc_round sb j)
    (\<lambda>r s. r = Some b \<and> tx s0 ((V(k := set_bit_at i (V k)))(b := replicate BSIZE 0)) C H M s)"
proof (rule kspec_bind)
  let ?V1 = "V(k := set_bit_at i (V k))"
  show "kspec E (tx s0 V C H M) (bread 1 (BBLOCK (of_nat j) (sb_ninodes sb))) (\<lambda>bp s. H bp = None \<and> tx s0 V C (H(bp \<mapsto> k)) M s)"
    unfolding k(1) by (rule tx_bread [OF k(2,3,4)])
  fix bp
  show "kspec E (\<lambda>s. H bp = None \<and> tx s0 V C (H(bp \<mapsto> k)) M s) (kbind (kget (buf_data bp)) (\<lambda>d.
     case free_bit (sb_size sb) j d of
       Some bi \<Rightarrow> kseq (set_data bp (set_bit_at bi)) (kseq (log_write bp) (kseq (brelse bp)
         (kseq (bzero 1 (of_nat (j + bi))) (kret (Some (of_nat (j + bi)))))))
     | None \<Rightarrow> kseq (brelse bp) (kret None))) (\<lambda>r s. r = Some b \<and> tx s0 (?V1(b := replicate BSIZE 0)) C H M s)"
  proof (rule kspec_pure, rule kspec_get_bind [where v = "V k"])
    assume bp: "H bp = None"
    show "buf_data bp s = V k" if "tx s0 V C (H(bp \<mapsto> k)) M s" for s using tx_held(2) [OF that, of bp k] by simp
    have HH: "(H(bp \<mapsto> k))(bp := None) = H" using bp by auto
    show "kspec E (tx s0 V C (H(bp \<mapsto> k)) M) (case free_bit (sb_size sb) j (V k) of
       Some bi \<Rightarrow> kseq (set_data bp (set_bit_at bi)) (kseq (log_write bp) (kseq (brelse bp)
         (kseq (bzero 1 (of_nat (j + bi))) (kret (Some (of_nat (j + bi)))))))
     | None \<Rightarrow> kseq (brelse bp) (kret None)) (\<lambda>r s. r = Some b \<and> tx s0 (?V1(b := replicate BSIZE 0)) C H M s)"
      unfolding fb option.case b(1)
    proof (rule kspec_facts [where A = "length (V k) = 512"])
      show "length (V k) = 512" if "tx s0 V C (H(bp \<mapsto> k)) M s" for s by (rule tx_length [OF that k(2)])
      assume l: "length (V k) = 512"
      have 1: "kspec E (tx s0 V C (H(bp \<mapsto> k)) M) (set_data bp (set_bit_at i)) (\<lambda>_. tx s0 ?V1 C (H(bp \<mapsto> k)) (insert k M))"
        using tx_set_data [of "H(bp \<mapsto> k)" bp k "set_bit_at i" V E s0 C M] l by simp
      have "insert k M - {k} = M" using M(1) by auto
      then have 2: "kspec E (tx s0 ?V1 C (H(bp \<mapsto> k)) (insert k M)) (log_write bp) (\<lambda>_. tx s0 ?V1 C (H(bp \<mapsto> k)) M)"
        using tx_log_write [of "H(bp \<mapsto> k)" bp k E s0 ?V1 C "insert k M"] by simp
      have 3: "kspec E (tx s0 ?V1 C (H(bp \<mapsto> k)) M) (brelse bp) (\<lambda>_. tx s0 ?V1 C H M)"
        using tx_brelse [of "H(bp \<mapsto> k)" bp k M E s0 ?V1 C] M(1) unfolding HH by simp
      have 4: "kspec E (tx s0 ?V1 C H M) (bzero 1 b) (\<lambda>_. tx s0 (?V1(b := replicate BSIZE 0)) C H M)"
        by (rule bzero_tx [OF b(2,3,4) M(2)])
      show "kspec E (tx s0 V C (H(bp \<mapsto> k)) M) (kseq (set_data bp (set_bit_at i)) (kseq (log_write bp) (kseq (brelse bp)
         (kseq (bzero 1 b) (kret (Some b)))))) (\<lambda>r s. r = Some b \<and> tx s0 (?V1(b := replicate BSIZE 0)) C H M s)"
        by (intro kspec_seq [OF 1] kspec_seq [OF 2] kspec_seq [OF 3] kspec_seq [OF 4] kspec_ret) simp
    qed
  qed
qed

lemma balloc_tx:
  assumes inv: "fs_inv sb V s0" and b: "first_free sb V b" and C: "b \<in> C" "BBLOCK b (sb_ninodes sb) \<in> C"
    and H: "\<And>n. n \<in> ran H \<Longrightarrow> \<not> meta sb n \<and> n \<noteq> b" and M: "M \<subseteq> ran H"
  shows "kspec E (tx s0 V C H M) (balloc 1) (\<lambda>r s. r = b \<and> tx s0 (alloc_view sb b V) C H M s)"
proof -
  define q i k where "q = unat b div 4096" "i = unat b mod 4096" "k = BBLOCK b (sb_ninodes sb)"
  note qik = this
  have g: "fs_geom sb s0" using inv by (simp add: fs_inv_def)
  have bs: "b < sb_size sb" "\<not> used sb V b" "\<And>a. a < b \<Longrightarrow> used sb V a" using b by (auto simp: first_free_def)
  note kk = BBLOCK_meta [OF g bs(1), folded qik]
  have H1: "1 \<notin> ran H" "k \<notin> ran H" "b \<notin> ran H" using H fs_geom_sizes(2) [OF g] kk(2) by blast+
  have bq: "q * 4096 + i = unat b" "i < 4096" by (simp_all add: qik)
  have ub: "unat b < unat (sb_size sb)" using bs(1) by (simp add: word_less_nat_alt)
  have ob: "of_nat (q * 4096 + i) = b" unfolding bq by simp
  have kq: "BBLOCK (of_nat (q * 4096)) (sb_ninodes sb) = k"
    using BBLOCK_base(2) [OF g _ bq(2), of q] ub unfolding ob bq(1) by (simp add: qik)
  have le_used: "used sb V (of_nat j)" if "j < unat b" for j
  proof (rule bs(3))
    have "j < 4294967296" using that u32_bound [of b] by linarith
    then show "of_nat j < b" unfolding word_less_nat_alt using that by (simp only: unat_u32)
  qed
  obtain ys zs where split: "bitmap_bases (sb_size sb) = ys @ (q * 4096) # zs" "\<forall>j \<in> set ys. \<exists>k < q. j = k * 4096"
    using bitmap_bases_split [OF ub] unfolding qik by blast
  have early: "kspec E (tx s0 V C H M) (balloc_round sb j) (\<lambda>r s. r = None \<and> tx s0 V C H M s)" if j: "j \<in> set ys" for j
  proof -
    obtain m where m: "m < q" "j = m * 4096" using bspec [OF split(2) j] by (elim exE conjE)
    have lt: "m * 4096 + x < unat b" if "x < 4096" for x using m(1) that bq by linarith
    have ls: "of_nat (m * 4096) < sb_size sb"
      unfolding word_less_nat_alt using unat_u32 [of "m * 4096"] lt [of 0] ub u32_bound [of b] by simp
    note km = BBLOCK_meta [OF g ls]
    show ?thesis unfolding m(2)
    proof (rule balloc_miss)
      show "free_bit (sb_size sb) (m * 4096) (V (BBLOCK (of_nat (m * 4096)) (sb_ninodes sb))) = None"
        by (rule free_bit_None [OF g]) (rule le_used [OF lt])
      show "BBLOCK (of_nat (m * 4096)) (sb_ninodes sb) < disksize s0" by (rule km(4))
      show "BBLOCK (of_nat (m * 4096)) (sb_ninodes sb) \<notin> ran H" using H km(2) by blast
    qed
  qed
  have fb: "free_bit (sb_size sb) (q * 4096) (V k) = Some i"
  proof -
    have "\<not> used sb V (of_nat (q * 4096 + i))" unfolding ob by (rule bs(2))
    moreover have "used sb V (of_nat (q * 4096 + j))" if "j < i" for j by (rule le_used) (use that bq in linarith)
    ultimately show ?thesis using free_bit_Some [OF g bq(2), of q V] ub unfolding kq bq(1) by blast
  qed
  have bM: "k \<notin> M" "b \<notin> M" using M H1 by blast+
  have "alloc_view sb b V = (V(k := set_bit_at i (V k)))(b := replicate BSIZE 0)"
    by (simp add: alloc_view_def mark_def Let_def qik)
  then have hit: "kspec E (tx s0 V C H M) (balloc_round sb (q * 4096)) (\<lambda>r s. r = Some b \<and> tx s0 (alloc_view sb b V) C H M s)"
    using balloc_hit [of sb "q * 4096" V k i, OF fb kq kk(4) H1(2) _ ob fs_geom_sizes(4) [OF g bs(1)] H1(3) C(1) bM] C(2)
    by (simp add: qik)
  note loop = kspec_kfor_found [where body = "\<lambda>j. balloc_round sb j", OF split(1) early hit]
  show ?thesis unfolding balloc_def
  proof (rule kspec_bind [OF readsb_tx [OF inv H1(1)]], rule kspec_pure)
    fix sb' assume e: "sb' = sb"
    show "kspec E (tx s0 V C H M) (kbind (kfor (bitmap_bases (sb_size sb')) (\<lambda>j. balloc_round sb' j))
      (\<lambda>r. case r of Some x \<Rightarrow> kret x | None \<Rightarrow> kpanic ''balloc: out of blocks'')) (\<lambda>r s. r = b \<and> tx s0 (alloc_view sb b V) C H M s)"
      unfolding e
    proof (rule kspec_bind [OF loop])
      show "kspec E (\<lambda>s. r = Some b \<and> tx s0 (alloc_view sb b V) C H M s)
        (case r of Some x \<Rightarrow> kret x | None \<Rightarrow> kpanic ''balloc: out of blocks'') (\<lambda>r s. r = b \<and> tx s0 (alloc_view sb b V) C H M s)" for r
        by (rule kspec_pure) (simp add: kspec_ret)
    qed
  qed
qed

end
