(* ===== verification/Freemap.thy ===== *)
theory Freemap
  imports Balloc
begin

text \<open>
  The free blocks as a list. \<^verbatim>\<open>balloc\<close> takes its head and \<^verbatim>\<open>bfree\<close> puts a block back where the order of block numbers
  has it; both keep the invariant of the file system's own blocks, and every block but the one allocated and its bitmap
  block keeps its contents.
\<close>

definition frees :: "superblock \<Rightarrow> (u32 \<Rightarrow> u8 list) \<Rightarrow> u32 list" where
  "frees sb V = filter (\<lambda>b. \<not> used sb V b) (map of_nat [0..<unat (sb_size sb)])"

abbreviation (input) sized :: "'a bio_state_scheme \<Rightarrow> (u32 \<Rightarrow> u8 list) \<Rightarrow> bool" where
  "sized s V \<equiv> (\<forall>n < disksize s. length (V n) = 512)"

lemma blocks_below [simp]: "set (map of_nat [0..<unat n]) = {b :: u32. b < n}"
proof -
  have "b \<in> of_nat ` {0..<unat n}" if "b < n" for b :: u32
    using that by (intro image_eqI [of _ _ "unat b"]) (simp_all add: word_less_nat_alt)
  moreover have "of_nat k < n" if "k < unat n" for k
    using that unat_u32 [of k] u32_bound [of n] by (simp add: word_less_nat_alt)
  ultimately show ?thesis by (auto simp del: upt_Suc)
qed

lemma blocks_sorted: "sorted (map of_nat [0..<unat (n :: u32)] :: u32 list)" "distinct (map of_nat [0..<unat (n :: u32)] :: u32 list)"
proof -
  have u: "unat (of_nat k :: u32) = k" if "k < unat n" for k
    using that unat_u32 [of k] u32_bound [of n] by simp
  have *: "(of_nat i :: u32) \<le> of_nat j \<longleftrightarrow> i \<le> j" if "i < unat n" "j < unat n" for i j
    unfolding word_le_nat_alt using u that by simp
  show "sorted (map of_nat [0..<unat n] :: u32 list)"
    by (simp add: sorted_iff_nth_mono * del: upt_Suc)
  have "inj_on (of_nat :: nat \<Rightarrow> u32) {0..<unat n}" by (rule inj_on_inverseI [of _ unat]) (simp add: u)
  then show "distinct (map of_nat [0..<unat n] :: u32 list)" by (simp add: distinct_map)
qed

lemma frees_props: "sorted (frees sb V)" "distinct (frees sb V)" "set (frees sb V) = {b. b < sb_size sb \<and> \<not> used sb V b}"
  using blocks_sorted [of "sb_size sb"] blocks_below [of "sb_size sb"]
  by (auto simp: frees_def simp del: set_map intro: sorted_filter [where f = id, simplified])

lemma frees_Cons_first: "frees sb V = b # bs \<Longrightarrow> first_free sb V b"
proof -
  assume f: "frees sb V = b # bs"
  have s: "set (b # bs) = {b. b < sb_size sb \<and> \<not> used sb V b}" using frees_props(3) [of sb V] by (simp only: f)
  have "\<forall>c \<in> set bs. b \<le> c" using frees_props(1) [of sb V] by (simp add: f)
  moreover have "b < sb_size sb \<and> \<not> used sb V b" using s by auto
  moreover have "a \<in> set (b # bs)" if "a < b" "\<not> used sb V a" for a
    unfolding s using that \<open>b < sb_size sb \<and> \<not> used sb V b\<close> by (auto intro: less_trans)
  ultimately show ?thesis unfolding first_free_def by (metis leD set_ConsD order_less_irrefl)
qed

lemma filter_tl: "filter P xs = b # bs \<Longrightarrow> distinct xs \<Longrightarrow> filter (\<lambda>x. P x \<and> x \<noteq> b) xs = bs"
proof (induction xs)
  case (Cons x xs)
  show ?case
  proof (cases "P x")
    case True
    with Cons.prems have "x = b" "filter P xs = bs" "b \<notin> set xs" by auto
    then have "filter (\<lambda>x. P x \<and> x \<noteq> b) xs = filter P xs" by (intro filter_cong) auto
    then show ?thesis using \<open>x = b\<close> \<open>filter P xs = bs\<close> by simp
  next
    case False
    with Cons show ?thesis by simp
  qed
qed simp

section \<open>Allocation on the view\<close>

lemma free_not_meta:
  assumes "fs_inv sb V s" "b < sb_size sb" "\<not> used sb V b"
  shows "\<not> meta sb b" "b \<noteq> BBLOCK c (sb_ninodes sb) \<or> \<not> c < sb_size sb" "b \<noteq> 1" "b < disksize s" "b \<noteq> 0"
proof -
  have g: "fs_geom sb s" using assms(1) by (simp add: fs_inv_def)
  show m: "\<not> meta sb b" using assms by (auto simp: fs_inv_def)
  then show "b \<noteq> BBLOCK c (sb_ninodes sb) \<or> \<not> c < sb_size sb" "b \<noteq> 1"
    using BBLOCK_meta(2) [OF g] fs_geom_sizes(2) [OF g] by auto
  show "b < disksize s" by (rule fs_geom_sizes(4) [OF g assms(2)])
  show "b \<noteq> 0" using m by (auto simp: meta_def)
qed

lemma alloc_view_other: "n \<noteq> b \<Longrightarrow> n \<noteq> BBLOCK b (sb_ninodes sb) \<Longrightarrow> alloc_view sb b V n = V n"
  by (simp add: alloc_view_def mark_def Let_def)

lemma alloc_view_new [simp]: "alloc_view sb b V b = replicate 512 0"
  by (simp add: alloc_view_def)

lemma alloc_view_sized: "sized s V \<Longrightarrow> sized s (alloc_view sb b V)"
  by (simp add: alloc_view_def mark_def Let_def)

lemma used_alloc_view:
  assumes inv: "fs_inv sb V s" "sized s V" and b: "b < sb_size sb" "\<not> used sb V b" and c: "c < sb_size sb"
  shows "used sb (alloc_view sb b V) c \<longleftrightarrow> used sb V c \<or> c = b"
proof -
  have g: "fs_geom sb s" using inv(1) by (simp add: fs_inv_def)
  have "used sb (alloc_view sb b V) c = used sb (mark sb b V) c"
    using free_not_meta(2) [OF inv(1) b, of c] c by (simp add: used_def alloc_view_def)
  then show ?thesis using used_mark [OF g b(1) _ c, of V] BBLOCK_meta(4) [OF g b(1)] inv(2) by simp
qed

lemma fs_inv_alloc:
  assumes inv: "fs_inv sb V s" "sized s V" and b: "b < sb_size sb" "\<not> used sb V b"
  shows "fs_inv sb (alloc_view sb b V) s"
proof -
  have g: "fs_geom sb s" using inv(1) by (simp add: fs_inv_def)
  have "alloc_view sb b V 1 = V 1"
    using free_not_meta(3) [OF inv(1) b] BBLOCK_meta(5) [OF g b(1)] by (intro alloc_view_other) auto
  then show ?thesis using inv(1) used_alloc_view [OF inv b] fs_geom_sizes(3) [OF g] by (auto simp: fs_inv_def)
qed

lemma frees_alloc:
  assumes "fs_inv sb V s" "sized s V" "frees sb V = b # bs"
  shows "frees sb (alloc_view sb b V) = bs"
proof -
  have b: "b < sb_size sb" "\<not> used sb V b" using frees_props(3) [of sb V] assms(3) by auto
  have "frees sb (alloc_view sb b V) = filter (\<lambda>x. \<not> used sb V x \<and> x \<noteq> b) (map of_nat [0..<unat (sb_size sb)])"
    unfolding frees_def
  proof (rule filter_cong [OF refl])
    fix c assume "c \<in> set (map of_nat [0..<unat (sb_size sb)] :: u32 list)"
    then have "c < sb_size sb" unfolding blocks_below by simp
    then show "(\<not> used sb (alloc_view sb b V) c) = (\<not> used sb V c \<and> c \<noteq> b)"
      using used_alloc_view [OF assms(1,2) b] by blast
  qed
  also have "\<dots> = bs" by (rule filter_tl [OF _ blocks_sorted(2)]) (rule assms(3) [unfolded frees_def])
  finally show ?thesis .
qed

section \<open>The routines\<close>

lemma bitmap_base:
  assumes "fs_geom sb s" "j \<in> set (bitmap_bases (sb_size sb))"
  shows "\<exists>m. j = m * 4096 \<and> of_nat j < sb_size sb"
proof -
  from assms(2) obtain m where m: "j = m * 4096" "j < unat (sb_size sb)"
    by (auto simp: bitmap_bases_def simp del: upt_Suc)
  then have "of_nat j < sb_size sb" using unat_u32 [of j] u32_bound [of "sb_size sb"] by (simp add: word_less_nat_alt)
  with m(1) show ?thesis by blast
qed

lemma balloc_full_tx:
  assumes inv: "fs_inv sb V s0" and full: "frees sb V = []" and H: "\<And>n. n \<in> ran H \<Longrightarrow> \<not> meta sb n"
  shows "kspec {''balloc: out of blocks''} (tx s0 V C H M) (balloc 1) (\<lambda>_ _. False)"
proof -
  have g: "fs_geom sb s0" using inv by (simp add: fs_inv_def)
  have all: "used sb V b" if "b < sb_size sb" for b using frees_props(3) [of sb V] full that by auto
  have H1: "1 \<notin> ran H" using H fs_geom_sizes(2) [OF g] by blast
  have miss: "kspec {''balloc: out of blocks''} (tx s0 V C H M) (balloc_round sb j) (\<lambda>r s. r = None \<and> tx s0 V C H M s)"
    if j: "j \<in> set (bitmap_bases (sb_size sb))" for j
  proof -
    obtain m where m: "j = m * 4096" "of_nat j < sb_size sb" using bitmap_base [OF g j] by blast
    note km = BBLOCK_meta [OF g m(2)]
    show ?thesis
    proof (rule balloc_miss)
      show "free_bit (sb_size sb) j (V (BBLOCK (of_nat j) (sb_ninodes sb))) = None" unfolding m(1)
      proof (rule free_bit_None [OF g])
        show "used sb V (of_nat (m * 4096 + i))" if "m * 4096 + i < unat (sb_size sb)" for i
        proof (rule all)
          have "m * 4096 + i < 4294967296" using that u32_bound [of "sb_size sb"] by linarith
          then show "of_nat (m * 4096 + i) < sb_size sb" unfolding word_less_nat_alt using that by (simp only: unat_u32)
        qed
      qed
      show "BBLOCK (of_nat j) (sb_ninodes sb) < disksize s0" by (rule km(4))
      show "BBLOCK (of_nat j) (sb_ninodes sb) \<notin> ran H" using H km(2) by blast
    qed
  qed
  note loop = kspec_kfor_none [where body = "\<lambda>j. balloc_round sb j", OF miss]
  show ?thesis unfolding balloc_def
  proof (rule kspec_bind [OF readsb_tx [OF inv H1]], rule kspec_pure)
    fix sb' assume e: "sb' = sb"
    show "kspec {''balloc: out of blocks''} (tx s0 V C H M) (kbind (kfor (bitmap_bases (sb_size sb')) (\<lambda>j. balloc_round sb' j))
      (\<lambda>r. case r of Some x \<Rightarrow> kret x | None \<Rightarrow> kpanic ''balloc: out of blocks'')) (\<lambda>_ _. False)"
      unfolding e
    proof (rule kspec_bind [OF loop])
      show "kspec {''balloc: out of blocks''} (\<lambda>s. r = None \<and> tx s0 V C H M s)
        (case r of Some x \<Rightarrow> kret x | None \<Rightarrow> kpanic ''balloc: out of blocks'') (\<lambda>_ _. False)" for r
        by (rule kspec_pure) (simp add: kspec_panic)
    qed
  qed
qed

lemma bfree_tx:
  assumes inv: "fs_inv sb V s0" and b: "b < sb_size sb" and C: "BBLOCK b (sb_ninodes sb) \<in> C"
    and H: "\<And>n. n \<in> ran H \<Longrightarrow> \<not> meta sb n" and M: "M \<subseteq> ran H"
  shows "used sb V b \<Longrightarrow> kspec E (tx s0 V C H M) (bfree 1 b) (\<lambda>_. tx s0 (unmark sb b V) C H M)"
    and "\<not> used sb V b \<Longrightarrow> kspec {''freeing free block''} (tx s0 V C H M) (bfree 1 b) (\<lambda>_ _. False)"
proof -
  define k where "k = BBLOCK b (sb_ninodes sb)"
  have g: "fs_geom sb s0" using inv by (simp add: fs_inv_def)
  note kk = BBLOCK_meta [OF g b, folded k_def]
  have H1: "1 \<notin> ran H" "k \<notin> ran H" "k \<notin> M" using H M fs_geom_sizes(2) [OF g] kk(2) by blast+
  have free: "bit_free (V k) (unat b mod BPB) \<longleftrightarrow> \<not> used sb V b" by (simp add: used_def k_def)
  let ?rest = "\<lambda>bp. kbind (kget (buf_data bp)) (\<lambda>d. let bi = unat b mod BPB in
       if bit_free d bi then kpanic ''freeing free block''
       else kseq (set_data bp (clear_bit_at bi)) (kseq (log_write bp) (brelse bp)))"
  have body: "kspec E (\<lambda>s. H bp = None \<and> tx s0 V C (H(bp \<mapsto> k)) M s) (?rest bp) Q"
    if "used sb V b \<Longrightarrow> Q = (\<lambda>_. tx s0 (unmark sb b V) C H M)" "\<not> used sb V b \<Longrightarrow> ''freeing free block'' \<in> E" for bp E Q
  proof (rule kspec_pure, rule kspec_get_bind [where v = "V k"])
    assume bp: "H bp = None"
    show "buf_data bp s = V k" if "tx s0 V C (H(bp \<mapsto> k)) M s" for s using tx_held(2) [OF that, of bp k] by simp
    have HH: "(H(bp \<mapsto> k))(bp := None) = H" using bp by auto
    show "kspec E (tx s0 V C (H(bp \<mapsto> k)) M) (let bi = unat b mod BPB in
       if bit_free (V k) bi then kpanic ''freeing free block''
       else kseq (set_data bp (clear_bit_at bi)) (kseq (log_write bp) (brelse bp))) Q"
    proof (cases "used sb V b")
      case True
      have "kspec E (tx s0 V C (H(bp \<mapsto> k)) M) (kseq (set_data bp (clear_bit_at (unat b mod BPB))) (kseq (log_write bp) (brelse bp)))
          (\<lambda>_. tx s0 (unmark sb b V) C H M)"
      proof (rule kspec_facts [where A = "length (V k) = 512"])
        show "length (V k) = 512" if "tx s0 V C (H(bp \<mapsto> k)) M s" for s by (rule tx_length [OF that kk(4)])
        assume "length (V k) = 512"
        then show "kspec E (tx s0 V C (H(bp \<mapsto> k)) M) (kseq (set_data bp (clear_bit_at (unat b mod BPB))) (kseq (log_write bp) (brelse bp)))
          (\<lambda>_. tx s0 (unmark sb b V) C H M)"
          using tx_log_done [of "H(bp \<mapsto> k)" bp k "clear_bit_at (unat b mod BPB)" V M E s0 C] H1(3)
          unfolding HH by (simp add: unmark_def Let_def k_def)
      qed
      then show ?thesis using that(1) [OF True] True free by (simp add: Let_def)
    next
      case False
      then show ?thesis using that(2) [OF False] free by (simp add: Let_def kspec_panic)
    qed
  qed
  have "kspec E (tx s0 V C H M) (bfree 1 b) Q"
    if "used sb V b \<Longrightarrow> Q = (\<lambda>_. tx s0 (unmark sb b V) C H M)" "\<not> used sb V b \<Longrightarrow> ''freeing free block'' \<in> E" for E Q
    unfolding bfree_def
  proof (rule kspec_bind [OF readsb_tx [OF inv H1(1)]], rule kspec_pure)
    fix sb' assume e: "sb' = sb"
    show "kspec E (tx s0 V C H M) (kbind (bread 1 (BBLOCK b (sb_ninodes sb'))) ?rest) Q"
      unfolding e k_def [symmetric]
      by (rule kspec_bind [OF tx_bread [OF kk(4) H1(2) C [folded k_def]] body]) (use that in simp_all)
  qed
  then show "used sb V b \<Longrightarrow> kspec E (tx s0 V C H M) (bfree 1 b) (\<lambda>_. tx s0 (unmark sb b V) C H M)"
    "\<not> used sb V b \<Longrightarrow> kspec {''freeing free block''} (tx s0 V C H M) (bfree 1 b) (\<lambda>_ _. False)" by simp_all
qed

lemma unmark_other: "n \<noteq> BBLOCK b (sb_ninodes sb) \<Longrightarrow> unmark sb b V n = V n"
  by (simp add: unmark_def Let_def)

lemma bit_at_roundtrip:
  assumes "i < 8 * length d" "bit_free d i"
  shows "clear_bit_at i (set_bit_at i d) = d"
proof (rule nth_equalityI)
  fix j assume "j < length (clear_bit_at i (set_bit_at i d))"
  then have j: "j < length d" by simp
  show "clear_bit_at i (set_bit_at i d) ! j = d ! j"
  proof (cases "j = i div 8")
    case True
    have "(d ! j OR bit_mask i) AND NOT (bit_mask i) = d ! j"
    proof (rule bit_word_eqI)
      fix n
      show "bit ((d ! j OR bit_mask i) AND NOT (bit_mask i)) n = bit (d ! j) n"
        unfolding bit_mask_iff using assms(2) True by (auto simp: bit_free_iff)
    qed
    then show ?thesis using True j by (simp add: set_bit_at_def clear_bit_at_def)
  qed (simp add: set_bit_at_def clear_bit_at_def)
qed simp

lemma unmark_alloc:
  assumes inv: "fs_inv sb V s" "sized s V" and b: "b < sb_size sb" "\<not> used sb V b"
  shows "unmark sb b (alloc_view sb b V) = V(b := replicate 512 0)"
proof -
  have g: "fs_geom sb s" using inv(1) by (simp add: fs_inv_def)
  have k: "BBLOCK b (sb_ninodes sb) \<noteq> b" "length (V (BBLOCK b (sb_ninodes sb))) = 512"
    using free_not_meta(2) [OF inv(1) b, of b] b(1) BBLOCK_meta(4) [OF g b(1)] inv(2) by auto
  then have "clear_bit_at (unat b mod BPB) (set_bit_at (unat b mod BPB) (V (BBLOCK b (sb_ninodes sb)))) = V (BBLOCK b (sb_ninodes sb))"
    using b(2) by (intro bit_at_roundtrip) (simp_all add: used_def)
  then show ?thesis using k(1) by (auto simp: unmark_def alloc_view_def mark_def Let_def)
qed

lemma tx_sized: "tx s0 V C H M s \<Longrightarrow> sized s0 V"
  using tx_length by blast

section \<open>Properties\<close>

text \<open>
  C8: Allocation. In a transaction that may write the block and its bitmap block, \<^verbatim>\<open>balloc\<close> returns the free block with
  the smallest number, removes it, and only it, from the free blocks, and hands it out zeroed; no block but the two changes.
  With every block in use it panics.
\<close>

theorem balloc_correct:
  assumes "tx s0 V C Map.empty {} s" "fs_inv sb V s0"
  shows "case frees sb V of
      [] \<Rightarrow> balloc 1 s = Panic ''balloc: out of blocks''
    | b # bs \<Rightarrow> b \<in> C \<and> BBLOCK b (sb_ninodes sb) \<in> C \<longrightarrow>
        (\<exists>t V'. balloc 1 s = Ret b t \<and> tx s0 V' C Map.empty {} t \<and> fs_inv sb V' s0 \<and> frees sb V' = bs \<and>
          V' b = replicate BSIZE 0 \<and> (\<forall>n. n \<noteq> b \<and> n \<noteq> BBLOCK b (sb_ninodes sb) \<longrightarrow> V' n = V n))"
proof (cases "frees sb V")
  case Nil
  then show ?thesis
    using kspecD [OF balloc_full_tx [OF assms(2) Nil, of Map.empty C "{}"] assms(1)] by (auto split: outcome.splits)
next
  case (Cons b bs)
  have b: "b < sb_size sb" "\<not> used sb V b" using frees_props(3) [of sb V] Cons by auto
  note sized = tx_sized [OF assms(1)]
  let ?V = "alloc_view sb b V"
  have "\<exists>t. balloc 1 s = Ret b t \<and> tx s0 ?V C Map.empty {} t" if C: "b \<in> C" "BBLOCK b (sb_ninodes sb) \<in> C"
  proof -
    have "kspec {} (tx s0 V C Map.empty {}) (balloc 1) (\<lambda>r s. r = b \<and> tx s0 ?V C Map.empty {} s)"
      by (rule balloc_tx [OF assms(2) frees_Cons_first [OF Cons] C]) simp_all
    from kspecD_total [OF this assms(1)] show ?thesis by blast
  qed
  moreover have "fs_inv sb ?V s0" "frees sb ?V = bs" "?V b = replicate BSIZE 0"
    "\<forall>n. n \<noteq> b \<and> n \<noteq> BBLOCK b (sb_ninodes sb) \<longrightarrow> ?V n = V n"
    using fs_inv_alloc [OF assms(2) sized b] frees_alloc [OF assms(2) sized Cons] alloc_view_other [of _ b sb V] by auto
  ultimately show ?thesis unfolding Cons list.case by blast
qed

text \<open>
  C9: Allocating and freeing is the identity up to the cleared contents of the block, and freeing a block that is free is
  detected: a second \<^verbatim>\<open>bfree\<close> of the same block panics.
\<close>

theorem balloc_bfree_roundtrip:
  assumes "tx s0 V C Map.empty {} s" "fs_inv sb V s0" "frees sb V = b # bs" "b \<in> C" "BBLOCK b (sb_ninodes sb) \<in> C"
  shows "\<exists>t u. balloc 1 s = Ret b t \<and> bfree 1 b t = Ret () u \<and> tx s0 (V(b := replicate BSIZE 0)) C Map.empty {} u \<and>
    frees sb (V(b := replicate BSIZE 0)) = b # bs \<and> bfree 1 b u = Panic ''freeing free block''"
proof -
  have b: "b < sb_size sb" "\<not> used sb V b" using frees_props(3) [of sb V] assms(3) by auto
  note sized = tx_sized [OF assms(1)]
  let ?V = "alloc_view sb b V" and ?W = "V(b := replicate BSIZE 0)"
  note inv = fs_inv_alloc [OF assms(2) sized b]
  have W: "unmark sb b ?V = ?W" by (rule unmark_alloc [OF assms(2) sized b])
  have used: "used sb ?W c = used sb V c" if "c < sb_size sb" for c
    using free_not_meta(2) [OF assms(2) b, of c] that by (simp add: used_def)
  have f: "frees sb ?W = frees sb V" unfolding frees_def
    using blocks_below [of "sb_size sb"] used by (intro filter_cong) auto
  have "used sb ?W n" if "meta sb n" for n
  proof -
    have "n < sb_size sb" using fs_geom_sizes(3) that assms(2) by (auto simp: fs_inv_def)
    then show ?thesis using used that assms(2) by (auto simp: fs_inv_def)
  qed
  then have invW: "fs_inv sb ?W s0" using assms(2) free_not_meta(3) [OF assms(2) b] by (auto simp: fs_inv_def)
  have "kspec {} (tx s0 V C Map.empty {}) (balloc 1) (\<lambda>r s. r = b \<and> tx s0 ?V C Map.empty {} s)"
    by (rule balloc_tx [OF assms(2) frees_Cons_first [OF assms(3)] assms(4,5)]) simp_all
  from kspecD_total [OF this assms(1)] obtain t where t: "balloc 1 s = Ret b t" "tx s0 ?V C Map.empty {} t" by blast
  have "kspec {} (tx s0 ?V C Map.empty {}) (bfree 1 b) (\<lambda>_. tx s0 ?W C Map.empty {})"
    unfolding W [symmetric] by (rule bfree_tx(1) [OF inv b(1) assms(5)]) (simp_all add: used_alloc_view [OF assms(2) sized b b(1)])
  from kspecD_unit [OF this t(2)] obtain u where u: "bfree 1 b t = Ret () u" "tx s0 ?W C Map.empty {} u" by blast
  have "kspec {''freeing free block''} (tx s0 ?W C Map.empty {}) (bfree 1 b) (\<lambda>_ _. False)"
    by (rule bfree_tx(2) [OF invW b(1) assms(5)]) (simp_all add: used [OF b(1)] b(2))
  from kspecD [OF this u(2)] have "bfree 1 b u = Panic ''freeing free block''" by blast
  with t u f assms(3) show ?thesis by auto
qed

section \<open>Concrete file systems\<close>

text \<open>A disk given by its blocks, and a machine that has begun a transaction on it.\<close>

lemma concat_block:
  assumes "\<forall>x \<in> set bs. length x = 512" "n < length bs"
  shows "slice (n * 512) 512 (concat bs) = bs ! n"
  using assms
proof (induction bs arbitrary: n)
  case (Cons x bs)
  show ?case
  proof (cases n)
    case 0
    then show ?thesis using Cons.prems by (simp add: slice_prefix)
  next
    case (Suc m)
    then show ?thesis using Cons slice_skip [of x "n * 512" 512 "concat bs"] by simp
  qed
qed simp

lemma length_concat_blocks: "\<forall>x \<in> set bs. length x = 512 \<Longrightarrow> length (concat bs) = length bs * 512"
  by (induction bs) simp_all

definition fs_boot :: "u8 list list \<Rightarrow> 'a \<Rightarrow> 'a log_state_scheme" where
  "fs_boot bs m = bio_boot (concat bs) (log_state_ext 100 10 True 1 0 (replicate LOGSIZE 0) m)"

lemma tx_start:
  assumes "bc s V {} Map.empty s" "lh_n s = 0" "length (lh_sector s) = LOGSIZE" "log_dev s = 1" "tx_room s C"
  shows "tx s V C Map.empty {} s"
proof (rule txI [of _ _ _ _ "lh_sector s" 0])
  have b: "tx_base s (lh_sector s) 0 = s" unfolding tx_base_def assms(2) [symmetric] by simp
  have l: "logged s = []" using assms by (simp add: logged_def)
  show "log_wf (tx_base s (lh_sector s) 0)" "set (logged (tx_base s (lh_sector s) 0)) \<subseteq> C"
    "bc (tx_base s (lh_sector s) 0) V (set (logged (tx_base s (lh_sector s) 0))) Map.empty s"
    unfolding b l using assms l by (simp_all add: log_wf_def)
qed (use assms in simp_all)

lemma fs_boot_tx:
  assumes bs: "\<forall>x \<in> set bs. length x = 512" "length bs < 8388608" and C: "finite C" "card C < 9"
  shows "tx (fs_boot bs m) (disk_block (concat bs)) C Map.empty {} (fs_boot bs m)" "disksize (fs_boot bs m) = of_nat (length bs)"
    "memdisk (fs_boot bs m) = concat bs" "log_state.more (fs_boot bs m) = m" "log_busy (fs_boot bs m)"
proof -
  note b = bio_boot_bc [OF length_concat_blocks [OF bs(1)] bs(2), of "log_state_ext 100 10 True 1 0 (replicate LOGSIZE 0) m",
      folded fs_boot_def]
  have f: "log_size (fs_boot bs m) = 10" "log_busy (fs_boot bs m)" "log_dev (fs_boot bs m) = 1"
    "lh_n (fs_boot bs m) = 0" "lh_sector (fs_boot bs m) = replicate LOGSIZE 0" "log_state.more (fs_boot bs m) = m"
    using b(6) by (cases "fs_boot bs m"; simp)+
  show "tx (fs_boot bs m) (disk_block (concat bs)) C Map.empty {} (fs_boot bs m)"
    by (rule tx_start [OF b(1)]) (use f C in \<open>simp_all add: tx_room_def\<close>)
  show "disksize (fs_boot bs m) = of_nat (length bs)" "memdisk (fs_boot bs m) = concat bs" "log_state.more (fs_boot bs m) = m"
    "log_busy (fs_boot bs m)" using b f by simp_all
qed

text \<open>Seven blocks: the file system's own four, one in use by a file, two free.\<close>

definition mini_sb :: superblock where
  "mini_sb = \<lparr>sb_size = 7, sb_nblocks = 3, sb_ninodes = 2, sb_nlog = 0\<rparr>"

definition mini_fs :: "u8 list list" where
  "mini_fs = [replicate 512 0, enc_sb mini_sb @ replicate 496 0, replicate 512 0, 31 # replicate 511 0,
     replicate 512 7, replicate 512 9, replicate 512 9]"

lemma mini_fs_blocks:
  "\<forall>x \<in> set mini_fs. length x = 512" "length mini_fs = 7"
  "n < 7 \<Longrightarrow> disk_block (concat mini_fs) n = mini_fs ! unat n"
proof -
  show l: "\<forall>x \<in> set mini_fs. length x = 512" "length mini_fs = 7" by (simp_all add: mini_fs_def enc_sb_def)
  show "disk_block (concat mini_fs) n = mini_fs ! unat n" if "n < 7"
    using concat_block [OF l(1), of "unat n"] that l(2) by (simp add: disk_block_def word_less_nat_alt)
qed

lemma dec_sb_prefix: "dec_sb (enc_sb sb @ xs) = sb"
  using sbc.dec_enc [of sb] by (simp add: dec_sb_def enc_sb_def slice_prefix slice_skip slice_all)

lemma mini_fs_meta:
  "disk_block (concat mini_fs) 1 = enc_sb mini_sb @ replicate 496 0" "disk_block (concat mini_fs) 3 = 31 # replicate 511 0"
  using mini_fs_blocks(3) [of 1] mini_fs_blocks(3) [of 3] by (simp_all add: mini_fs_def)

lemma mini_fs_inv: "fs_inv mini_sb (disk_block (concat mini_fs)) (fs_boot mini_fs m)" "frees mini_sb (disk_block (concat mini_fs)) = [5, 6]"
proof -
  let ?V = "disk_block (concat mini_fs)"
  have geom: "fs_geom mini_sb (fs_boot mini_fs m)"
    using fs_boot_tx(2) [OF mini_fs_blocks(1), of "{}" m] mini_fs_blocks(2) by (simp add: fs_geom_def mini_sb_def)
  have sb: "dec_sb (?V 1) = mini_sb" unfolding mini_fs_meta by (rule dec_sb_prefix)
  have used: "used mini_sb ?V b \<longleftrightarrow> bit (31 :: u8) (unat b)" if "b < 7" for b
  proof -
    have "unat b < 7" using that by (simp add: word_less_nat_alt)
    then have "unat (BBLOCK b 2) = unat (3 :: u32)" "unat b < 8"
      using BBLOCK_meta(1) [OF geom, of b] that by (simp_all add: mini_sb_def)
    then have "BBLOCK b 2 = 3" "unat b < 8" by (simp_all only: word_unat_eq_iff)
    then show ?thesis by (simp add: used_def mini_sb_def bit_free_iff mini_fs_meta)
  qed
  have "used mini_sb ?V n" if "meta mini_sb n" for n
  proof -
    have n: "unat n < 4" using that by (simp add: meta_def mini_sb_def)
    then have "n < 7" by (simp add: word_less_nat_alt)
    moreover consider "unat n = 0" | "unat n = 1" | "unat n = 2" | "unat n = 3" using n by linarith
    then have "bit (31 :: u8) (unat n)" by cases simp_all
    ultimately show ?thesis using used [of n] by blast
  qed
  then show "fs_inv mini_sb ?V (fs_boot mini_fs m)" using geom sb by (simp add: fs_inv_def)
  have "map of_nat [0..<7] = [0, 1, 2, 3, 4, 5, 6 :: u32]" by (simp add: upt_rec)
  then show "frees mini_sb ?V = [5, 6]" using used by (simp add: frees_def mini_sb_def)
qed

theorem balloc_correct_witness:
  "\<exists>t. balloc 1 (fs_boot mini_fs ()) = Ret 5 t"
proof -
  have "tx (fs_boot mini_fs ()) (disk_block (concat mini_fs)) {3, 5} Map.empty {} (fs_boot mini_fs ())"
    by (rule fs_boot_tx) (simp_all add: mini_fs_blocks)
  moreover have "BBLOCK 5 (sb_ninodes mini_sb) = 3" by (simp add: BBLOCK_def mini_sb_def)
  ultimately show ?thesis using balloc_correct [OF _ mini_fs_inv(1), of "()" "{3, 5}"] mini_fs_inv(2) by auto
qed

theorem balloc_bfree_roundtrip_witness:
  "\<exists>t u. balloc 1 (fs_boot mini_fs ()) = Ret 5 t \<and> bfree 1 5 t = Ret () u \<and> bfree 1 5 u = Panic ''freeing free block''"
proof -
  have "tx (fs_boot mini_fs ()) (disk_block (concat mini_fs)) {3, 5} Map.empty {} (fs_boot mini_fs ())"
    by (rule fs_boot_tx) (simp_all add: mini_fs_blocks)
  moreover have "BBLOCK 5 (sb_ninodes mini_sb) = 3" by (simp add: BBLOCK_def mini_sb_def)
  ultimately show ?thesis using balloc_bfree_roundtrip [OF _ mini_fs_inv(1) mini_fs_inv(2), of "()" "{3, 5}"] by fastforce
qed

end
