(* ===== verification/Filemap.thy ===== *)
theory Filemap
  imports Freemap
begin

text \<open>
  The blocks of a file as the code finds them: \<open>pos\<close> are the places at which \<^verbatim>\<open>bmap\<close> looks for a block number, in the
  inode or in an indirect block, and \<open>blk\<close> reads them. A file is well formed when its places hold distinct blocks that are
  marked in use and are not the file system's own. Adding one block keeps this, and changes neither the contents of the
  file nor those of any block in use.
\<close>

section \<open>Places\<close>

datatype pos = Direct nat | Ind | Entry nat | Dind | Dentry nat | Leaf nat nat

fun pos_ok :: "pos \<Rightarrow> bool" where
  "pos_ok (Direct k) = (k < NDIRECT)"
| "pos_ok (Entry j) = (j < NINDIRECT)"
| "pos_ok (Dentry i) = (i < NINDIRECT)"
| "pos_ok (Leaf i j) = (i < NINDIRECT \<and> j < NINDIRECT)"
| "pos_ok _ = True"

text \<open>The place whose block holds the number, if it is not the inode itself, and the index there.\<close>

fun up :: "pos \<Rightarrow> pos option" where
  "up (Entry _) = Some Ind"
| "up (Dentry _) = Some Dind"
| "up (Leaf i _) = Some (Dentry i)"
| "up _ = None"

fun slot :: "pos \<Rightarrow> nat" where
  "slot (Direct k) = k"
| "slot Ind = NDIRECT"
| "slot (Entry j) = j"
| "slot Dind = NDIRECT + 1"
| "slot (Dentry i) = i"
| "slot (Leaf _ j) = j"

definition entry :: "(u32 \<Rightarrow> u8 list) \<Rightarrow> u32 \<Rightarrow> nat \<Rightarrow> u32" where
  "entry V a j = (if a = 0 then 0 else arr_get 4 un_le32 j (V a))"

fun blk :: "(u32 \<Rightarrow> u8 list) \<Rightarrow> u32 list \<Rightarrow> pos \<Rightarrow> u32" where
  "blk V as (Entry j) = entry V (as ! NDIRECT) j"
| "blk V as (Dentry i) = entry V (as ! (NDIRECT + 1)) i"
| "blk V as (Leaf i j) = entry V (entry V (as ! (NDIRECT + 1)) i) j"
| "blk V as p = as ! slot p"

lemma blk_up: "blk V as p = (case up p of None \<Rightarrow> as ! slot p | Some q \<Rightarrow> entry V (blk V as q) (slot p))"
  by (cases p) simp_all

lemma up_ok: "pos_ok p \<Longrightarrow> up p = Some q \<Longrightarrow> pos_ok q \<and> slot p < 128"
  by (cases p) auto

lemma top_slot: "pos_ok p \<Longrightarrow> up p = None \<Longrightarrow> slot p < 13"
  by (cases p) auto

lemma slot_inj: "up p = up q \<Longrightarrow> slot p = slot q \<Longrightarrow> pos_ok p \<Longrightarrow> pos_ok q \<Longrightarrow> p = q"
  by (cases p; cases q) auto

lemma up_induct:
  assumes "\<And>p. (\<And>q. up p = Some q \<Longrightarrow> P q) \<Longrightarrow> P p"
  shows "P p"
proof -
  have top: "P p" if "up p = None" for p using assms [of p] that by simp
  have two: "P p" if "up p = Some q" "up q = None" for p q using assms [of p] that top by auto
  show ?thesis
  proof (cases "up p")
    case (Some q)
    then show ?thesis using assms [of p] two [of q] top [of q] by (cases "up q"; cases p; auto)
  qed (rule top)
qed

lemma up_irrefl: "up p = Some q \<Longrightarrow> p \<noteq> q" "up p = Some q \<Longrightarrow> up q \<noteq> Some p"
  by (cases p; auto)+

section \<open>Well-formed files\<close>

definition file_ok :: "superblock \<Rightarrow> (u32 \<Rightarrow> u8 list) \<Rightarrow> u32 list \<Rightarrow> bool" where
  "file_ok sb V as \<longleftrightarrow> length as = NDIRECT + 2 \<and>
     (\<forall>p. pos_ok p \<longrightarrow> blk V as p \<noteq> 0 \<longrightarrow> blk V as p < sb_size sb \<and> \<not> meta sb (blk V as p) \<and> used sb V (blk V as p)) \<and>
     (\<forall>p q. pos_ok p \<longrightarrow> pos_ok q \<longrightarrow> blk V as p \<noteq> 0 \<longrightarrow> blk V as p = blk V as q \<longrightarrow> p = q)"

lemma file_okD:
  assumes "file_ok sb V as"
  shows "length as = 13" "pos_ok p \<Longrightarrow> blk V as p \<noteq> 0 \<Longrightarrow> blk V as p < sb_size sb"
    "pos_ok p \<Longrightarrow> blk V as p \<noteq> 0 \<Longrightarrow> \<not> meta sb (blk V as p)" "pos_ok p \<Longrightarrow> blk V as p \<noteq> 0 \<Longrightarrow> used sb V (blk V as p)"
    "pos_ok p \<Longrightarrow> pos_ok q \<Longrightarrow> blk V as p \<noteq> 0 \<Longrightarrow> blk V as p = blk V as q \<Longrightarrow> p = q"
  using assms unfolding file_ok_def by auto

text \<open>Block \<open>b\<close> allocated for place \<open>p\<close>.\<close>

definition grow :: "superblock \<Rightarrow> u32 \<Rightarrow> pos \<Rightarrow> (u32 \<Rightarrow> u8 list) \<times> u32 list \<Rightarrow> (u32 \<Rightarrow> u8 list) \<times> u32 list" where
  "grow sb b p = (\<lambda>(V, as). let V' = alloc_view sb b V in
     case up p of None \<Rightarrow> (V', as[slot p := b])
     | Some q \<Rightarrow> (let a = blk V as q in (V'(a := arr_put 4 le32 (slot p) b (V' a)), as)))"

text \<open>The condition under which \<^verbatim>\<open>bmap\<close> does so.\<close>

definition can_grow :: "superblock \<Rightarrow> 'a bio_state_scheme \<Rightarrow> u32 \<Rightarrow> pos \<Rightarrow> (u32 \<Rightarrow> u8 list) \<Rightarrow> u32 list \<Rightarrow> bool" where
  "can_grow sb s b p V as \<longleftrightarrow> fs_inv sb V s \<and> sized s V \<and> file_ok sb V as \<and> b < sb_size sb \<and> \<not> used sb V b \<and> pos_ok p \<and>
     blk V as p = 0 \<and> (case up p of None \<Rightarrow> True | Some q \<Rightarrow> blk V as q \<noteq> 0)"

lemma can_growD:
  assumes "can_grow sb s b p V as"
  shows "fs_inv sb V s" "sized s V" "file_ok sb V as" "b < sb_size sb" "\<not> used sb V b" "pos_ok p" "blk V as p = 0"
    "up p = Some q \<Longrightarrow> blk V as q \<noteq> 0" "up p = Some q \<Longrightarrow> pos_ok q"
  using assms up_ok [of p q] by (auto simp: can_grow_def)

lemma grow_fresh:
  assumes "can_grow sb s b p V as" "pos_ok r" "blk V as r \<noteq> 0"
  shows "blk V as r \<noteq> b" "blk V as r \<noteq> BBLOCK b (sb_ninodes sb)" "alloc_view sb b V (blk V as r) = V (blk V as r)"
    "blk V as r < disksize s"
proof -
  note g = can_growD [OF assms(1)]
  have geom: "fs_geom sb s" using g(1) by (simp add: fs_inv_def)
  show 1: "blk V as r \<noteq> b" using file_okD(4) [OF g(3) assms(2,3)] g(5) by auto
  show 2: "blk V as r \<noteq> BBLOCK b (sb_ninodes sb)"
    using file_okD(3) [OF g(3) assms(2,3)] BBLOCK_meta(2) [OF geom g(4)] by auto
  show "alloc_view sb b V (blk V as r) = V (blk V as r)" by (rule alloc_view_other [OF 1 2])
  show "blk V as r < disksize s" using fs_geom_sizes(4) [OF geom file_okD(2) [OF g(3) assms(2,3)]] .
qed

text \<open>What the new view shows.\<close>

lemma grow_view:
  assumes g: "can_grow sb s b p V as" and e: "grow sb b p (V, as) = (V', as')"
  shows "V' b = replicate 512 0" "pos_ok r \<Longrightarrow> blk V as r \<noteq> 0 \<Longrightarrow> up p \<noteq> Some r \<Longrightarrow> V' (blk V as r) = V (blk V as r)"
    "up p = Some q \<Longrightarrow> V' (blk V as q) = arr_put 4 le32 (slot p) b (V (blk V as q))"
    "n \<noteq> b \<Longrightarrow> n \<noteq> BBLOCK b (sb_ninodes sb) \<Longrightarrow> (\<And>q. up p = Some q \<Longrightarrow> n \<noteq> blk V as q) \<Longrightarrow> V' n = V n"
proof -
  note d = can_growD [OF g]
  have f: "blk V as q \<noteq> b" "alloc_view sb b V (blk V as q) = V (blk V as q)" if "up p = Some q" for q
    using grow_fresh [OF g d(9) d(8)] that by simp_all
  show "V' b = replicate 512 0" using e f(1) by (auto simp: grow_def Let_def split: option.splits)
  show "V' (blk V as q) = arr_put 4 le32 (slot p) b (V (blk V as q))" if "up p = Some q"
    using e f(2) that by (auto simp: grow_def Let_def)
  show "V' (blk V as r) = V (blk V as r)" if r: "pos_ok r" "blk V as r \<noteq> 0" "up p \<noteq> Some r"
  proof -
    have "blk V as r \<noteq> blk V as q" if "up p = Some q" for q using file_okD(5) [OF d(3) r(1) d(9) r(2)] that r(3) by auto
    then show ?thesis using e grow_fresh(3) [OF g r(1,2)] by (auto simp: grow_def Let_def split: option.splits)
  qed
  show "V' n = V n" if "n \<noteq> b" "n \<noteq> BBLOCK b (sb_ninodes sb)" "\<And>q. up p = Some q \<Longrightarrow> n \<noteq> blk V as q"
    using e alloc_view_other [OF that(1,2)] that(3) by (auto simp: grow_def Let_def split: option.splits)
qed

lemma arr_get_zeros: "j < 128 \<Longrightarrow> arr_get 4 un_le32 j (replicate 512 0) = 0"
  by (simp add: arr_get_def slice_def min_def un_le32_def)

lemma grow_blk:
  assumes g: "can_grow sb s b p V as" and e: "grow sb b p (V, as) = (V', as')" and r: "pos_ok r"
  shows "blk V' as' r = (if r = p then b else blk V as r)"
  using r
proof (induction r rule: up_induct)
  case (1 r)
  note d = can_growD [OF g] and v = grow_view [OF g e]
  have len: "length as = 13" by (rule file_okD(1) [OF d(3)])
  show ?case
  proof (cases "up r")
    case None
    have "as' ! slot r = (if r = p then b else as ! slot r)"
    proof (cases "up p")
      case None
      have "as' = as[slot p := b]" using e None by (auto simp: grow_def Let_def)
      then show ?thesis using top_slot [OF d(6) None] len slot_inj [of r p] \<open>up r = None\<close> None 1(2) d(6) by (auto simp: nth_list_update)
    next
      case (Some q)
      then show ?thesis using e \<open>up r = None\<close> by (auto simp: grow_def Let_def)
    qed
    then show ?thesis using None by (simp add: blk_up [of _ _ r])
  next
    case (Some q)
    have q: "pos_ok q" "slot r < 128" using up_ok [OF 1(2) Some] by simp_all
    have IH: "blk V' as' q = (if q = p then b else blk V as q)" by (rule 1(1) [OF Some q(1)])
    have b: "blk V' as' r = entry V' (blk V' as' q) (slot r)" "blk V as r = entry V (blk V as q) (slot r)"
      using Some by (simp_all add: blk_up [of _ _ r])
    show ?thesis
    proof (cases "q = p")
      case True
      then have "blk V' as' r = 0" using b(1) IH v(1) q(2) by (simp add: entry_def arr_get_zeros)
      moreover have "blk V as r = 0" using b(2) True d(7) by (simp add: entry_def)
      moreover have "r \<noteq> p" using True up_irrefl(1) [OF Some] by simp
      ultimately show ?thesis by simp
    next
      case False
      then have IH: "blk V' as' q = blk V as q" using IH by simp
      show ?thesis
      proof (cases "blk V as q = 0")
        case True
        then have "r \<noteq> p" using d(8) Some by auto
        then show ?thesis using b IH True by (simp add: entry_def)
      next
        case nz: False
        show ?thesis
        proof (cases "up p = Some q")
          case True
          have l: "Suc (slot p) * 4 \<le> length (V (blk V as q))"
            using up_ok [OF d(6) True] grow_fresh(4) [OF g q(1) nz] d(2) by simp
          have "slot r = slot p \<longleftrightarrow> r = p" using slot_inj [of r p] True Some 1(2) d(6) by auto
          then show ?thesis
            using u32c.get_put_same [where x = b, OF _ l] u32c.get_put_other [where x = b and i = "slot r", OF _ l] v(3) [OF True] b IH nz
            by (auto simp: entry_def)
        next
          case False
          then have "r \<noteq> p" using Some by auto
          then show ?thesis using b IH nz v(2) [OF q(1) nz False] by (simp add: entry_def)
        qed
      qed
    qed
  qed
qed

lemma grow_meta:
  assumes g: "can_grow sb s b p V as" and e: "grow sb b p (V, as) = (V', as')" and n: "meta sb n"
  shows "V' n = alloc_view sb b V n"
proof -
  note d = can_growD [OF g]
  have "n \<noteq> blk V as q" if "up p = Some q" for q
    using file_okD(3) [OF d(3) d(9) d(8)] that n by auto
  then show ?thesis using e by (auto simp: grow_def Let_def split: option.splits)
qed

lemma grow_used:
  assumes g: "can_grow sb s b p V as" and e: "grow sb b p (V, as) = (V', as')" and c: "c < sb_size sb"
  shows "used sb V' c \<longleftrightarrow> used sb V c \<or> c = b"
proof -
  note d = can_growD [OF g]
  have geom: "fs_geom sb s" using d(1) by (simp add: fs_inv_def)
  have "used sb V' c = used sb (alloc_view sb b V) c"
    using grow_meta [OF g e BBLOCK_meta(2) [OF geom c]] by (simp add: used_def)
  then show ?thesis using used_alloc_view [OF d(1,2,4,5) c] by simp
qed

lemma grow_sized:
  assumes g: "can_grow sb s b p V as" and e: "grow sb b p (V, as) = (V', as')"
  shows "sized s V'"
proof -
  note d = can_growD [OF g]
  have "length (arr_put 4 le32 (slot p) b (alloc_view sb b V (blk V as q))) = 512" if "up p = Some q" for q
  proof -
    have "length (alloc_view sb b V (blk V as q)) = 512"
      using alloc_view_sized [OF d(2)] grow_fresh(4) [OF g d(9) d(8)] that by blast
    then show ?thesis using up_ok [OF d(6) that] by (simp add: u32c.length_put)
  qed
  then show ?thesis using e alloc_view_sized [OF d(2), of sb b] by (auto simp: grow_def Let_def split: option.splits)
qed

lemma grow_fs_inv:
  assumes g: "can_grow sb s b p V as" and e: "grow sb b p (V, as) = (V', as')"
  shows "fs_inv sb V' s"
proof -
  note d = can_growD [OF g] and inv = fs_inv_alloc [OF can_growD(1,2,4,5) [OF g]]
  have geom: "fs_geom sb s" using d(1) by (simp add: fs_inv_def)
  have "V' 1 = alloc_view sb b V 1" by (rule grow_meta [OF g e fs_geom_sizes(2) [OF geom]])
  moreover have "used sb V' n" if "meta sb n" for n
    using grow_used [OF g e fs_geom_sizes(3) [OF geom that]] d(1) that by (simp add: fs_inv_def)
  ultimately show ?thesis using inv by (simp add: fs_inv_def)
qed

lemma grow_frees:
  assumes g: "can_grow sb s b p V as" and e: "grow sb b p (V, as) = (V', as')" and f: "frees sb V = b # bs"
  shows "frees sb V' = bs"
proof -
  note d = can_growD [OF g]
  have "frees sb V' = frees sb (alloc_view sb b V)" unfolding frees_def
  proof (rule filter_cong [OF refl])
    fix c assume "c \<in> set (map of_nat [0..<unat (sb_size sb)] :: u32 list)"
    then have c: "c < sb_size sb" unfolding blocks_below by simp
    show "(\<not> used sb V' c) = (\<not> used sb (alloc_view sb b V) c)"
      using grow_used [OF g e c] used_alloc_view [OF d(1,2,4,5) c] by simp
  qed
  then show ?thesis using frees_alloc [OF d(1,2) f] by simp
qed

lemma grow_file_ok:
  assumes g: "can_grow sb s b p V as" and e: "grow sb b p (V, as) = (V', as')"
  shows "file_ok sb V' as'"
proof -
  note d = can_growD [OF g] and B = grow_blk [OF g e]
  have "length as' = 13" using e file_okD(1) [OF d(3)] by (auto simp: grow_def Let_def split: option.splits)
  moreover have "blk V' as' r < sb_size sb \<and> \<not> meta sb (blk V' as' r) \<and> used sb V' (blk V' as' r)"
    if r: "pos_ok r" "blk V' as' r \<noteq> 0" for r
  proof (cases "r = p")
    case True
    then show ?thesis using B [OF r(1)] d(4) free_not_meta(1) [OF d(1,4,5)] grow_used [OF g e d(4)] by simp
  next
    case False
    then have "blk V' as' r = blk V as r" using B [OF r(1)] by simp
    then show ?thesis
      using r file_okD(2-4) [OF d(3) r(1)] grow_used [OF g e, of "blk V as r"] by simp
  qed
  moreover have "r = q" if r: "pos_ok r" "pos_ok q" "blk V' as' r \<noteq> 0" "blk V' as' r = blk V' as' q" for r q
  proof -
    have old: "x = y" if "pos_ok x" "pos_ok y" "x \<noteq> p" "y \<noteq> p" "blk V as x \<noteq> 0" "blk V as x = blk V as y" for x y
      using file_okD(5) [OF d(3) that(1,2,5,6)] .
    have new: "blk V as x \<noteq> b" if "pos_ok x" "blk V as x \<noteq> 0" for x by (rule grow_fresh(1) [OF g that])
    show ?thesis using r old new B [OF r(1)] B [OF r(2)] by (auto split: if_splits) (metis free_not_meta(5) [OF d(1,4,5)])+
  qed
  ultimately show ?thesis unfolding file_ok_def by simp
qed

section \<open>Contents\<close>

text \<open>The place of file block \<open>n\<close>; the places \<^verbatim>\<open>bmap\<close> visits on the way to it.\<close>

definition leaf :: "nat \<Rightarrow> pos" where
  "leaf n = (if n < NDIRECT then Direct n else if n - NDIRECT < NINDIRECT then Entry (n - NDIRECT)
     else Leaf ((n - NDIRECT - NINDIRECT) div NINDIRECT) ((n - NDIRECT - NINDIRECT) mod NINDIRECT))"

definition path :: "nat \<Rightarrow> pos list" where
  "path n = (if n < NDIRECT then [leaf n] else if n - NDIRECT < NINDIRECT then [Ind, leaf n]
     else [Dind, Dentry ((n - NDIRECT - NINDIRECT) div NINDIRECT), leaf n])"

definition fdata :: "(u32 \<Rightarrow> u8 list) \<Rightarrow> u32 list \<Rightarrow> nat \<Rightarrow> u8 list" where
  "fdata V as n = (let b = blk V as (leaf n) in if b = 0 then replicate BSIZE 0 else V b)"

definition fbyte :: "(u32 \<Rightarrow> u8 list) \<Rightarrow> u32 list \<Rightarrow> nat \<Rightarrow> u8" where
  "fbyte V as i = fdata V as (i div BSIZE) ! (i mod BSIZE)"

lemma leaf_ok: "n < MAXFILE \<Longrightarrow> pos_ok (leaf n)"
  by (auto simp: leaf_def)

lemma leaf_not_up: "up p \<noteq> Some (leaf n)"
  by (cases p) (auto simp: leaf_def)

lemma path_ok: "n < MAXFILE \<Longrightarrow> p \<in> set (path n) \<Longrightarrow> pos_ok p"
  by (auto simp: path_def leaf_ok split: if_splits)

lemma leaf_inj:
  assumes "leaf m = leaf n"
  shows "m = n"
proof (cases "m < NDIRECT + NINDIRECT \<or> n < NDIRECT + NINDIRECT")
  case True
  then show ?thesis using assms by (auto simp: leaf_def split: if_splits)
next
  case False
  then have "(m - 139) div 128 = (n - 139) div 128" "(m - 139) mod 128 = (n - 139) mod 128"
    using assms by (auto simp: leaf_def split: if_splits)
  then have "m - 139 = n - 139" by (metis div_mult_mod_eq)
  then show ?thesis using False by arith
qed

lemma grow_fdata:
  assumes g: "can_grow sb s b p V as" and e: "grow sb b p (V, as) = (V', as')" and n: "n < MAXFILE"
  shows "fdata V' as' n = fdata V as n"
proof (cases "leaf n = p")
  case True
  have "blk V' as' (leaf n) = b" using grow_blk [OF g e leaf_ok [OF n]] True by simp
  moreover have "blk V as (leaf n) = 0" using can_growD(7) [OF g] True by simp
  ultimately show ?thesis using grow_view(1) [OF g e] by (simp add: fdata_def)
next
  case False
  then have "blk V' as' (leaf n) = blk V as (leaf n)" using grow_blk [OF g e leaf_ok [OF n]] by simp
  then show ?thesis using grow_view(2) [OF g e leaf_ok [OF n]] leaf_not_up [of p n] by (simp add: fdata_def Let_def)
qed

section \<open>Visiting a place\<close>

text \<open>A step of \<^verbatim>\<open>bmap\<close>: the block at place \<open>p\<close>, allocated if there is none.\<close>

definition visit :: "superblock \<Rightarrow> pos \<Rightarrow> (u32 \<Rightarrow> u8 list) \<times> u32 list \<Rightarrow> (u32 \<Rightarrow> u8 list) \<times> u32 list" where
  "visit sb p = (\<lambda>(V, as). if blk V as p = 0 then grow sb (hd (frees sb V)) p (V, as) else (V, as))"

definition bmap_view :: "superblock \<Rightarrow> nat \<Rightarrow> (u32 \<Rightarrow> u8 list) \<times> u32 list \<Rightarrow> (u32 \<Rightarrow> u8 list) \<times> u32 list" where
  "bmap_view sb n = fold (visit sb) (path n)"

definition fsok :: "superblock \<Rightarrow> 'a bio_state_scheme \<Rightarrow> (u32 \<Rightarrow> u8 list) \<Rightarrow> u32 list \<Rightarrow> bool" where
  "fsok sb s V as \<longleftrightarrow> fs_inv sb V s \<and> sized s V \<and> file_ok sb V as"

text \<open>
  The footprint \<open>C\<close> covers the places \<open>P\<close> when it has their blocks, and enough of the first free blocks, with their bitmap
  blocks, for the places that have none yet.
\<close>

definition cover :: "superblock \<Rightarrow> (u32 \<Rightarrow> u8 list) \<Rightarrow> u32 list \<Rightarrow> u32 set \<Rightarrow> pos set \<Rightarrow> bool" where
  "cover sb V as C P \<longleftrightarrow> finite P \<and> (\<forall>p \<in> P. pos_ok p) \<and> (\<forall>p \<in> P. blk V as p \<noteq> 0 \<longrightarrow> blk V as p \<in> C) \<and>
     (let k = card {p \<in> P. blk V as p = 0} in k \<le> length (frees sb V) \<and>
        (\<forall>b \<in> set (take k (frees sb V)). b \<in> C \<and> BBLOCK b (sb_ninodes sb) \<in> C))"

lemma cover_free:
  assumes "cover sb V as C P" "p \<in> P" "blk V as p = 0"
  shows "\<exists>b bs. frees sb V = b # bs \<and> b \<in> C \<and> BBLOCK b (sb_ninodes sb) \<in> C"
proof -
  let ?k = "card {p \<in> P. blk V as p = 0}"
  have "{p} \<subseteq> {p \<in> P. blk V as p = 0}" using assms by simp
  then have "card {p} \<le> ?k" using assms(1) by (intro card_mono) (simp_all add: cover_def)
  then have k: "0 < ?k" "?k \<le> length (frees sb V)" using assms(1) by (simp_all add: cover_def Let_def)
  then obtain b bs where f: "frees sb V = b # bs" by (cases "frees sb V") auto
  obtain m where "?k = Suc m" using k(1) by (cases ?k) auto
  then have "b \<in> set (take ?k (frees sb V))" by (simp add: f)
  then show ?thesis using assms(1) f by (auto simp: cover_def Let_def)
qed

lemma visit_stays: "blk V as p \<noteq> 0 \<Longrightarrow> visit sb p (V, as) = (V, as)"
  by (simp add: visit_def)

text \<open>The facts about one step, for a place whose predecessor has its block.\<close>

lemma visit_grow:
  assumes "fsok sb s V as" "frees sb V = b # bs" "pos_ok p" "blk V as p = 0" "\<And>q. up p = Some q \<Longrightarrow> blk V as q \<noteq> 0"
  shows "can_grow sb s b p V as" "visit sb p (V, as) = grow sb b p (V, as)"
  using assms frees_props(3) [of sb V] by (auto simp: can_grow_def fsok_def visit_def split: option.splits)

lemma visit_keeps:
  assumes ok: "fsok sb s V as" and C: "cover sb V as C P" and p: "p \<in> P" "\<And>q. up p = Some q \<Longrightarrow> blk V as q \<noteq> 0"
    and v: "visit sb p (V, as) = (V', as')"
  shows "fsok sb s V' as'" "cover sb V' as' C P" "blk V' as' p \<noteq> 0" "r \<noteq> p \<Longrightarrow> pos_ok r \<Longrightarrow> blk V' as' r = blk V as r"
    "n < MAXFILE \<Longrightarrow> fdata V' as' n = fdata V as n"
proof -
  have "fsok sb s V' as' \<and> cover sb V' as' C P \<and> blk V' as' p \<noteq> 0 \<and> (\<forall>r. r \<noteq> p \<longrightarrow> pos_ok r \<longrightarrow> blk V' as' r = blk V as r) \<and>
     (\<forall>n < MAXFILE. fdata V' as' n = fdata V as n)"
  proof (cases "blk V as p = 0")
    case True
    have P: "finite P" "\<And>p. p \<in> P \<Longrightarrow> pos_ok p" using C by (simp_all add: cover_def)
    obtain b bs where f: "frees sb V = b # bs" "b \<in> C" "BBLOCK b (sb_ninodes sb) \<in> C" using cover_free [OF C p(1) True] by blast
    have g: "can_grow sb s b p V as" by (rule visit_grow(1) [OF ok f(1) P(2) [OF p(1)] True]) (rule p(2))
    have "visit sb p (V, as) = grow sb b p (V, as)" by (rule visit_grow(2) [OF ok f(1) P(2) [OF p(1)] True]) (rule p(2))
    with v have e: "grow sb b p (V, as) = (V', as')" by simp
    note B = grow_blk [OF g e] and fr = grow_frees [OF g e f(1)]
    have b0: "b \<noteq> 0" using free_not_meta(5) can_growD(1,4,5) [OF g] by blast
    let ?k = "card {q \<in> P. blk V as q = 0}" and ?k' = "card {q \<in> P. blk V' as' q = 0}"
    have "{q \<in> P. blk V' as' q = 0} = {q \<in> P. blk V as q = 0} - {p}"
      using B P(2) b0 by (auto split: if_splits)
    then have k: "?k = Suc ?k'" using card.remove [of "{q \<in> P. blk V as q = 0}" p] P(1) p(1) True by simp
    have "cover sb V' as' C P" unfolding cover_def Let_def
    proof (intro conjI ballI impI)
      show "?k' \<le> length (frees sb V')" using C k f(1) fr by (simp add: cover_def Let_def)
      show "blk V' as' q \<in> C" if "q \<in> P" "blk V' as' q \<noteq> 0" for q
        using that B [OF P(2) [OF that(1)]] f(2) C by (auto simp: cover_def split: if_splits)
      fix c assume "c \<in> set (take ?k' (frees sb V'))"
      then have "c \<in> set (take ?k (frees sb V))" unfolding k f(1) fr by simp
      then show "c \<in> C" "BBLOCK c (sb_ninodes sb) \<in> C" using C by (auto simp: cover_def Let_def)
    qed (use P in auto)
    moreover have "fsok sb s V' as'"
      unfolding fsok_def using grow_fs_inv [OF g e] grow_sized [OF g e] grow_file_ok [OF g e] by blast
    moreover have "blk V' as' p \<noteq> 0" using B [OF P(2) [OF p(1)]] b0 by simp
    moreover have "\<forall>r. r \<noteq> p \<longrightarrow> pos_ok r \<longrightarrow> blk V' as' r = blk V as r" using B by simp
    ultimately show ?thesis using grow_fdata [OF g e] by blast
  next
    case False
    then have "V' = V" "as' = as" using v by (simp_all add: visit_def)
    then show ?thesis using ok C False by simp
  qed
  then show "fsok sb s V' as'" "cover sb V' as' C P" "blk V' as' p \<noteq> 0" "r \<noteq> p \<Longrightarrow> pos_ok r \<Longrightarrow> blk V' as' r = blk V as r"
    "n < MAXFILE \<Longrightarrow> fdata V' as' n = fdata V as n" by blast+
qed

text \<open>Blocks in use elsewhere: neither the file's nor the file system's own.\<close>

definition foreign :: "superblock \<Rightarrow> (u32 \<Rightarrow> u8 list) \<Rightarrow> u32 list \<Rightarrow> u32 \<Rightarrow> bool" where
  "foreign sb V as n \<longleftrightarrow> n < sb_size sb \<and> used sb V n \<and> \<not> meta sb n \<and> (\<forall>p. pos_ok p \<longrightarrow> blk V as p \<noteq> n)"

lemma visit_foreign:
  assumes ok: "fsok sb s V as" and C: "cover sb V as C P" and p: "p \<in> P" "\<And>q. up p = Some q \<Longrightarrow> blk V as q \<noteq> 0"
    and v: "visit sb p (V, as) = (V', as')" and n: "foreign sb V as n"
  shows "V' n = V n" "foreign sb V' as' n"
proof -
  have "V' n = V n \<and> foreign sb V' as' n"
  proof (cases "blk V as p = 0")
    case True
    have P: "pos_ok p" using C p(1) by (simp add: cover_def)
    obtain b bs where f: "frees sb V = b # bs" using cover_free [OF C p(1) True] by blast
    have g: "can_grow sb s b p V as" by (rule visit_grow(1) [OF ok f P True]) (rule p(2))
    have "visit sb p (V, as) = grow sb b p (V, as)" by (rule visit_grow(2) [OF ok f P True]) (rule p(2))
    with v have e: "grow sb b p (V, as) = (V', as')" by simp
    note d = can_growD [OF g]
    have geom: "fs_geom sb s" using d(1) by (simp add: fs_inv_def)
    have nb: "n \<noteq> b" "n \<noteq> BBLOCK b (sb_ninodes sb)" using n d(5) BBLOCK_meta(2) [OF geom d(4)] by (auto simp: foreign_def)
    have "V' n = V n" by (rule grow_view(4) [OF g e nb]) (use n d(9) in \<open>auto simp: foreign_def\<close>)
    moreover have "foreign sb V' as' n"
      using n nb grow_used [OF g e, of n] grow_blk [OF g e] by (auto simp: foreign_def)
    ultimately show ?thesis by simp
  next
    case False
    then have "V' = V" "as' = as" using v by (simp_all add: visit_def)
    then show ?thesis using n by simp
  qed
  then show "V' n = V n" "foreign sb V' as' n" by simp_all
qed

text \<open>A sequence of steps down from the inode.\<close>

fun chain :: "pos option \<Rightarrow> pos list \<Rightarrow> bool" where
  "chain u [] = True"
| "chain u (p # ps) = (up p = u \<and> chain (Some p) ps)"

lemma path_chain: "chain None (path n)" "path n \<noteq> []" "last (path n) = leaf n" "distinct (path n)"
  by (auto simp: path_def leaf_def)

text \<open>What a sequence of steps keeps of a well-formed file.\<close>

definition same_file :: "superblock \<Rightarrow> (u32 \<Rightarrow> u8 list) \<Rightarrow> u32 list \<Rightarrow> (u32 \<Rightarrow> u8 list) \<Rightarrow> u32 list \<Rightarrow> bool" where
  "same_file sb V as V' as' \<longleftrightarrow> (\<forall>r. pos_ok r \<longrightarrow> blk V as r \<noteq> 0 \<longrightarrow> blk V' as' r = blk V as r) \<and>
     (\<forall>n < MAXFILE. fdata V' as' n = fdata V as n) \<and> (\<forall>n. foreign sb V as n \<longrightarrow> V' n = V n \<and> foreign sb V' as' n)"

lemma same_file_refl: "same_file sb V as V as"
  by (simp add: same_file_def)

lemma same_file_trans: "same_file sb V as V1 as1 \<Longrightarrow> same_file sb V1 as1 V2 as2 \<Longrightarrow> same_file sb V as V2 as2"
  by (simp add: same_file_def)

lemma visit_same:
  assumes "fsok sb s V as" "cover sb V as C P" "p \<in> P" "\<And>q. up p = Some q \<Longrightarrow> blk V as q \<noteq> 0"
    "visit sb p (V, as) = (V', as')"
  shows "fsok sb s V' as'" "cover sb V' as' C P" "blk V' as' p \<noteq> 0" "same_file sb V as V' as'"
proof -
  note k = visit_keeps [OF assms(1,2,3) _ assms(5)]
  show "fsok sb s V' as'" "cover sb V' as' C P" "blk V' as' p \<noteq> 0" using k(1-3) assms(4) by blast+
  have "blk V' as' r = blk V as r" if "pos_ok r" "blk V as r \<noteq> 0" for r
  proof (cases "r = p")
    case True
    then have "visit sb p (V, as) = (V, as)" using that(2) visit_stays by simp
    then show ?thesis using assms(5) by simp
  qed (rule k(4) [OF assms(4)], use that in simp_all)
  moreover have "fdata V' as' n = fdata V as n" if "n < MAXFILE" for n by (rule k(5) [OF assms(4) that])
  moreover have "V' n = V n \<and> foreign sb V' as' n" if "foreign sb V as n" for n
    using visit_foreign [OF assms(1,2,3) _ assms(5) that] assms(4) by blast
  ultimately show "same_file sb V as V' as'" unfolding same_file_def by blast
qed

lemma fold_visit_same:
  assumes "fsok sb s V as" "cover sb V as C P" "set ps \<subseteq> P" "chain u ps" "\<And>q. u = Some q \<Longrightarrow> blk V as q \<noteq> 0"
    "fold (visit sb) ps (V, as) = (V', as')"
  shows "fsok sb s V' as' \<and> cover sb V' as' C P \<and> (\<forall>p \<in> set ps. blk V' as' p \<noteq> 0) \<and> same_file sb V as V' as'"
  using assms
proof (induction ps arbitrary: u V as)
  case (Cons p ps)
  obtain V1 as1 where v: "visit sb p (V, as) = (V1, as1)" by fastforce
  have pP: "p \<in> P" and up: "up p = u" using Cons.prems by simp_all
  have 1: "fsok sb s V1 as1" "cover sb V1 as1 C P" "blk V1 as1 p \<noteq> 0" "same_file sb V as V1 as1"
    using visit_same [OF Cons.prems(1,2) pP _ v] Cons.prems(5) up by blast+
  have "fold (visit sb) ps (V1, as1) = (V', as')" using Cons.prems(6) v by simp
  then have IH: "fsok sb s V' as' \<and> cover sb V' as' C P \<and> (\<forall>p \<in> set ps. blk V' as' p \<noteq> 0) \<and> same_file sb V1 as1 V' as'"
    using Cons.IH [OF 1(1,2), of "Some p"] Cons.prems(3,4) 1(3) by simp
  moreover have "blk V' as' p \<noteq> 0" using IH 1(2,3) pP by (auto simp: same_file_def cover_def)
  ultimately show ?case using same_file_trans [OF 1(4)] by auto
qed (simp add: same_file_refl)

lemma bmap_view_same:
  assumes "fsok sb s V as" "cover sb V as C P" "set (path n) \<subseteq> P" "bmap_view sb n (V, as) = (V', as')"
  shows "fsok sb s V' as'" "cover sb V' as' C P" "blk V' as' (leaf n) \<noteq> 0" "same_file sb V as V' as'"
    "\<forall>p \<in> set (path n). blk V' as' p \<noteq> 0"
proof -
  have *: "fsok sb s V' as' \<and> cover sb V' as' C P \<and> (\<forall>p \<in> set (path n). blk V' as' p \<noteq> 0) \<and> same_file sb V as V' as'"
    by (rule fold_visit_same [OF assms(1,2,3) path_chain(1)]) (use assms(4) in \<open>simp_all add: bmap_view_def\<close>)
  moreover have "leaf n \<in> set (path n)" using path_chain(2,3) [of n] last_in_set by metis
  ultimately show "fsok sb s V' as'" "cover sb V' as' C P" "blk V' as' (leaf n) \<noteq> 0" "same_file sb V as V' as'"
    "\<forall>p \<in> set (path n). blk V' as' p \<noteq> 0" by simp_all
qed

section \<open>Writing\<close>

text \<open>New contents for a data block of the file.\<close>

lemma data_write_blk:
  assumes ok: "file_ok sb V as" and n: "n < MAXFILE" "blk V as (leaf n) \<noteq> 0" and r: "pos_ok r"
  shows "blk (V(blk V as (leaf n) := d)) as r = blk V as r"
  using r
proof (induction r rule: up_induct)
  case (1 r)
  show ?case
  proof (cases "up r")
    case (Some q)
    have q: "pos_ok q" using up_ok [OF 1(2) Some] by simp
    have "blk V as q \<noteq> blk V as (leaf n)" if "blk V as q \<noteq> 0"
      using file_okD(5) [OF ok q leaf_ok [OF n(1)] that] leaf_not_up [of r n] Some by auto
    then show ?thesis using 1(1) [OF Some q] Some by (auto simp: blk_up [of _ _ r] entry_def)
  qed (simp add: blk_up [of _ _ r])
qed

lemma data_write_used:
  assumes "fsok sb s V as" "n < MAXFILE" "blk V as (leaf n) \<noteq> 0" "c < sb_size sb"
  shows "used sb (V(blk V as (leaf n) := d)) c = used sb V c"
proof -
  have "BBLOCK c (sb_ninodes sb) \<noteq> blk V as (leaf n)"
    using file_okD(3) [of sb V as "leaf n"] leaf_ok [OF assms(2)] BBLOCK_meta(2) [of sb s c] assms by (auto simp: fsok_def fs_inv_def)
  then show ?thesis by (simp add: used_def)
qed

lemma data_write:
  assumes ok: "fsok sb s V as" "cover sb V as C P" and n: "n < MAXFILE" "blk V as (leaf n) \<noteq> 0" and d: "length d = 512"
    and V': "V' = V(blk V as (leaf n) := d)"
  shows "fsok sb s V' as" "cover sb V' as C P" "pos_ok r \<Longrightarrow> blk V' as r = blk V as r"
    "m < MAXFILE \<Longrightarrow> fdata V' as m = (if m = n then d else fdata V as m)"
    "foreign sb V as k \<Longrightarrow> V' k = V k \<and> foreign sb V' as k"
proof -
  let ?b = "blk V as (leaf n)"
  have fo: "fs_inv sb V s" "sized s V" "file_ok sb V as" using ok(1) by (simp_all add: fsok_def)
  have geom: "fs_geom sb s" using fo(1) by (simp add: fs_inv_def)
  have B: "blk V' as r = blk V as r" if "pos_ok r" for r unfolding V' by (rule data_write_blk [OF fo(3) n that])
  have U: "used sb V' c = used sb V c" if "c < sb_size sb" for c unfolding V' by (rule data_write_used [OF ok(1) n that])
  have b: "?b < sb_size sb" "\<not> meta sb ?b" using file_okD(2,3) [OF fo(3) leaf_ok [OF n(1)] n(2)] by simp_all
  have "V' 1 = V 1" using b(2) fs_geom_sizes(2) [OF geom] by (auto simp: V')
  then have "fs_inv sb V' s" using fo(1) U fs_geom_sizes(3) [OF geom] by (auto simp: fs_inv_def)
  moreover have "file_ok sb V' as" unfolding file_ok_def
  proof (intro conjI allI impI)
    show "length as = NDIRECT + 2" using file_okD(1) [OF fo(3)] by simp
    fix p assume p: "pos_ok p" "blk V' as p \<noteq> 0"
    then have p': "blk V as p \<noteq> 0" "blk V' as p = blk V as p" using B by simp_all
    show "blk V' as p < sb_size sb" "\<not> meta sb (blk V' as p)" "used sb V' (blk V' as p)"
      unfolding p'(2) using file_okD(2-4) [OF fo(3) p(1) p'(1)] U by simp_all
    fix q assume "pos_ok q" "blk V' as p = blk V' as q"
    then show "p = q" using file_okD(5) [OF fo(3) p(1) _ p'(1), of q] B p' by simp
  qed
  moreover have "sized s V'" using fo(2) d by (simp add: V')
  ultimately show "fsok sb s V' as" by (simp add: fsok_def)
  have P: "{p \<in> P. blk V' as p = 0} = {p \<in> P. blk V as p = 0}" "\<And>p. p \<in> P \<Longrightarrow> pos_ok p" using ok(2) B by (auto simp: cover_def)
  have "frees sb V' = frees sb V" unfolding frees_def using blocks_below [of "sb_size sb"] U by (intro filter_cong) auto
  then show "cover sb V' as C P" using ok(2) B P unfolding cover_def by simp
  show "blk V' as r = blk V as r" if "pos_ok r" by (rule B [OF that])
  show "fdata V' as m = (if m = n then d else fdata V as m)" if m: "m < MAXFILE"
  proof (cases "m = n")
    case True
    then show ?thesis using B [OF leaf_ok [OF n(1)]] n(2) by (simp add: fdata_def V')
  next
    case False
    then have "blk V as (leaf m) \<noteq> ?b" if "blk V as (leaf m) \<noteq> 0"
      using file_okD(5) [OF fo(3) leaf_ok [OF m] leaf_ok [OF n(1)] that] leaf_inj [of m n] by auto
    then show ?thesis using False B [OF leaf_ok [OF m]] by (simp add: fdata_def Let_def V')
  qed
  show "V' k = V k \<and> foreign sb V' as k" if k: "foreign sb V as k"
  proof -
    have "k \<noteq> ?b" using k leaf_ok [OF n(1)] by (auto simp: foreign_def)
    then show ?thesis using k B U by (auto simp: foreign_def V')
  qed
qed

function write_view :: "superblock \<Rightarrow> nat \<Rightarrow> u8 list \<Rightarrow> (u32 \<Rightarrow> u8 list) \<times> u32 list \<Rightarrow> (u32 \<Rightarrow> u8 list) \<times> u32 list" where
  "write_view sb off src st =
     (if src = [] then st
      else let m = min (length src) (BSIZE - off mod BSIZE); (V1, as1) = bmap_view sb (off div BSIZE) st;
        b = blk V1 as1 (leaf (off div BSIZE))
      in write_view sb (off + m) (drop m src) (V1(b := splice (off mod BSIZE) (take m src) (V1 b)), as1))"
  by pat_completeness auto
termination by (relation "measure (\<lambda>(sb, off, src, st). length src)") auto

declare write_view.simps [simp del]

definition places :: "nat \<Rightarrow> nat \<Rightarrow> pos set" where
  "places off n = (\<Union>i \<in> {off..<off + n}. set (path (i div BSIZE)))"

lemma places_first: "0 < n \<Longrightarrow> set (path (off div 512)) \<subseteq> places off n"
  unfolding places_def by (rule UN_upper) simp

lemma places_rest: "m \<le> n \<Longrightarrow> places (off + m) (n - m) \<subseteq> places off n"
  unfolding places_def by (rule UN_mono) auto

lemma places_split:
  assumes "m \<le> n" "off mod 512 + m \<le> 512"
  shows "places off n \<subseteq> set (path (off div 512)) \<union> places (off + m) (n - m)"
proof
  fix p assume "p \<in> places off n"
  then obtain i where i: "off \<le> i" "i < off + n" "p \<in> set (path (i div 512))" by (auto simp: places_def)
  show "p \<in> set (path (off div 512)) \<union> places (off + m) (n - m)"
  proof (cases "i < off + m")
    case True
    have "off + m \<le> Suc (off div 512) * 512" using assms(2) div_mult_mod_eq [of off 512] unfolding mult_Suc by linarith
    then have "i div 512 = off div 512" using True i(1) div_le_mono [of off i 512] less_mult_imp_div_less [of i "Suc (off div 512)" 512] by linarith
    then show ?thesis using i(3) by simp
  next
    case False
    then show ?thesis using i assms(1) by (auto simp: places_def)
  qed
qed

lemma length_fdata:
  assumes "fsok sb s V as" "n < MAXFILE"
  shows "length (fdata V as n) = 512"
proof -
  have "blk V as (leaf n) < disksize s" if "blk V as (leaf n) \<noteq> 0"
    using fs_geom_sizes(4) [of sb s] file_okD(2) [of sb V as "leaf n"] leaf_ok [OF assms(2)] assms(1) that by (auto simp: fsok_def fs_inv_def)
  then show ?thesis using assms(1) by (auto simp: fdata_def Let_def fsok_def)
qed

text \<open>One iteration of the loop of \<^verbatim>\<open>writei\<close>.\<close>

lemma write_step_bytes:
  assumes d: "length (fdata V as (off div 512)) = 512" and x: "off mod 512 + length xs \<le> 512"
    and f: "fdata V' as' (i div 512) = (if i div 512 = off div 512 then splice (off mod 512) xs (fdata V as (off div 512)) else fdata V as (i div 512))"
  shows "fbyte V' as' i = (if off \<le> i \<and> i < off + length xs then xs ! (i - off) else fbyte V as i)"
proof (cases "i div 512 = off div 512")
  case True
  have io: "i = off div 512 * 512 + i mod 512" "off = off div 512 * 512 + off mod 512" 
    using div_mult_mod_eq [of i 512] unfolding True by simp_all
  have c: "off \<le> i \<longleftrightarrow> off mod 512 \<le> i mod 512" "i < off + length xs \<longleftrightarrow> i mod 512 < off mod 512 + length xs" "i - off = i mod 512 - off mod 512"
    using io by linarith+
  have "fbyte V' as' i = splice (off mod 512) xs (fdata V as (off div 512)) ! (i mod 512)" using f True by (simp add: fbyte_def)
  also have "\<dots> = (if off mod 512 \<le> i mod 512 \<and> i mod 512 < off mod 512 + length xs then xs ! (i mod 512 - off mod 512)
      else fdata V as (off div 512) ! (i mod 512))" using d x by (intro nth_splice) simp_all
  finally show ?thesis unfolding c using True by (simp add: fbyte_def)
next
  case False
  have "off div 512 * 512 + off mod 512 = off" by simp
  then have "off + length xs \<le> Suc (off div 512) * 512" using x unfolding mult_Suc by linarith
  then have "\<not> (off \<le> i \<and> i < off + length xs)" using False div_le_mono [of off i 512] less_mult_imp_div_less [of i "Suc (off div 512)" 512] by auto
  then show ?thesis using f False by (simp only: fbyte_def if_False)
qed

definition keeps_blocks :: "superblock \<Rightarrow> (u32 \<Rightarrow> u8 list) \<Rightarrow> u32 list \<Rightarrow> (u32 \<Rightarrow> u8 list) \<Rightarrow> u32 list \<Rightarrow> bool" where
  "keeps_blocks sb V as V' as' \<longleftrightarrow> (\<forall>r. pos_ok r \<longrightarrow> blk V as r \<noteq> 0 \<longrightarrow> blk V' as' r = blk V as r) \<and>
     (\<forall>n. foreign sb V as n \<longrightarrow> V' n = V n \<and> foreign sb V' as' n)"

lemma keeps_blocks_trans: "keeps_blocks sb V as V1 as1 \<Longrightarrow> keeps_blocks sb V1 as1 V2 as2 \<Longrightarrow> keeps_blocks sb V as V2 as2"
  by (simp add: keeps_blocks_def)

lemma write_step:
  assumes ok: "fsok sb s V as" "cover sb V as C P" and n: "n < MAXFILE" "set (path n) \<subseteq> P"
    and v: "bmap_view sb n (V, as) = (V1, as1)" and x: "o' + length xs \<le> 512"
    and V2: "V2 = V1(blk V1 as1 (leaf n) := splice o' xs (V1 (blk V1 as1 (leaf n))))"
  shows "fsok sb s V2 as1" "cover sb V2 as1 C P" "keeps_blocks sb V as V2 as1" "\<And>p. p \<in> set (path n) \<Longrightarrow> blk V2 as1 p \<noteq> 0"
    "\<And>m. m < MAXFILE \<Longrightarrow> fdata V2 as1 m = (if m = n then splice o' xs (fdata V as n) else fdata V as m)"
    "length (splice o' xs (V1 (blk V1 as1 (leaf n)))) = 512"
proof -
  note b = bmap_view_same [OF ok n(2) v]
  have fd: "V1 (blk V1 as1 (leaf n)) = fdata V as n" using b(3,4) n(1) by (auto simp: same_file_def fdata_def Let_def)
  show len: "length (splice o' xs (V1 (blk V1 as1 (leaf n)))) = 512" unfolding fd using length_fdata [OF ok(1) n(1)] x by simp
  note w = data_write [OF b(1,2) n(1) b(3) len V2]
  show "fsok sb s V2 as1" "cover sb V2 as1 C P" by (rule w(1), rule w(2))
  show "fdata V2 as1 m = (if m = n then splice o' xs (fdata V as n) else fdata V as m)" if "m < MAXFILE" for m
    using w(4) [OF that] b(4) that by (simp add: fd same_file_def)
  show "keeps_blocks sb V as V2 as1" using b(4) w(3,5) by (simp add: keeps_blocks_def same_file_def)
  show "blk V2 as1 p \<noteq> 0" if "p \<in> set (path n)" for p
    using b(5) w(3) path_ok [OF n(1)] that by simp
qed

text \<open>The loop: exactly the bytes of the range change.\<close>

lemma write_view_ok:
  assumes "fsok sb s V as" "cover sb V as C P" "places off (length src) \<subseteq> P" "off + length src \<le> MAXFILE * BSIZE"
    "write_view sb off src (V, as) = (V', as')"
  shows "fsok sb s V' as' \<and> cover sb V' as' C P \<and> keeps_blocks sb V as V' as' \<and> (\<forall>p \<in> places off (length src). blk V' as' p \<noteq> 0) \<and>
    (\<forall>i < MAXFILE * BSIZE. fbyte V' as' i = (if off \<le> i \<and> i < off + length src then src ! (i - off) else fbyte V as i))"
  using assms
proof (induction "length src" arbitrary: off src V as rule: less_induct)
  case less
  note prems = less.prems
  show ?case
  proof (cases "src = []")
    case True
    then show ?thesis using prems by (auto simp: write_view.simps keeps_blocks_def places_def)
  next
    case False
    define m where "m = min (length src) (512 - off mod 512)"
    let ?n = "off div 512"
    obtain V1 as1 where v: "bmap_view sb ?n (V, as) = (V1, as1)" by fastforce
    define V2 where "V2 = V1(blk V1 as1 (leaf ?n) := splice (off mod 512) (take m src) (V1 (blk V1 as1 (leaf ?n))))"
    have m: "0 < m" "m \<le> length src" "off mod 512 + m \<le> 512" using False by (auto simp: m_def)
    have "off < MAXFILE * 512" using prems(4) False by (cases src) auto
    then have n: "?n < MAXFILE" "set (path ?n) \<subseteq> P"
      using prems(3) False places_first [of "length src" off] by (auto simp: less_mult_imp_div_less)
    note st = write_step [OF prems(1,2) n v _ V2_def]
    have "write_view sb (off + m) (drop m src) (V2, as1) = (V', as')"
      using prems(5) v False by (simp add: write_view.simps [of sb off src] V2_def m_def Let_def)
    moreover have "off + m + length (drop m src) = off + length src" "length (drop m src) = length src - m" "length (take m src) = m"
      using m(2) by simp_all
    ultimately have IH: "fsok sb s V' as' \<and> cover sb V' as' C P \<and> keeps_blocks sb V2 as1 V' as' \<and>
      (\<forall>p \<in> places (off + m) (length src - m). blk V' as' p \<noteq> 0) \<and>
      (\<forall>i < MAXFILE * BSIZE. fbyte V' as' i = (if off + m \<le> i \<and> i < off + length src then drop m src ! (i - (off + m)) else fbyte V2 as1 i))"
      using less.hyps [of "drop m src" V2 as1 "off + m"] st(1,2) m prems(3,4) places_rest [OF m(2), of off] by auto
    have kb: "keeps_blocks sb V as V' as'" using keeps_blocks_trans st(3) IH m(2,3) by simp
    have nz: "blk V' as' p \<noteq> 0" if "p \<in> places off (length src)" for p
    proof (cases "p \<in> set (path ?n)")
      case True
      then show ?thesis using IH st(4) [OF _ True] m(2,3) path_ok [OF n(1) True] by (auto simp: keeps_blocks_def)
    next
      case False
      then show ?thesis using IH that places_split [OF m(2,3)] by blast
    qed
    have by1: "fbyte V2 as1 i = (if off \<le> i \<and> i < off + m then src ! (i - off) else fbyte V as i)" if i: "i < MAXFILE * BSIZE" for i
    proof -
      have "i div 512 < MAXFILE" using i by (simp add: less_mult_imp_div_less)
      then have "fbyte V2 as1 i = (if off \<le> i \<and> i < off + m then take m src ! (i - off) else fbyte V as i)"
        using write_step_bytes [OF length_fdata [OF prems(1) n(1)], of "take m src" V2 as1 i] st(5) m(2,3) by simp
      moreover have "take m src ! (i - off) = src ! (i - off)" if "off \<le> i" "i < off + m" using that by (intro nth_take) linarith
      ultimately show ?thesis by presburger
    qed
    have "fbyte V' as' i = (if off \<le> i \<and> i < off + length src then src ! (i - off) else fbyte V as i)" if i: "i < MAXFILE * BSIZE" for i
      using IH by1 [OF i] i m(2) by (auto simp: not_less not_le)
    then show ?thesis using IH kb nz by blast
  qed
qed

section \<open>The inode on the disk\<close>

lemma inode_block:
  assumes "fs_geom sb s" "inum < sb_ninodes sb"
  shows "unat (IBLOCK inum) = unat inum div 8 + 2" "meta sb (IBLOCK inum)" "IBLOCK inum \<noteq> 1" "IBLOCK inum < disksize s"
    "c < sb_size sb \<Longrightarrow> BBLOCK c (sb_ninodes sb) \<noteq> IBLOCK inum"
proof -
  have lt: "unat inum < unat (sb_ninodes sb)" using assms(2) by (simp add: word_less_nat_alt)
  then have le: "unat inum div 8 \<le> unat (sb_ninodes sb) div 8" by (simp add: div_le_mono)
  show u: "unat (IBLOCK inum) = unat inum div 8 + 2"
  proof -
    have "unat inum div 8 + 2 < 4294967296" using u32_bound [of inum] by simp
    then show ?thesis by (simp add: IBLOCK_def unat_word_ariths unat_div)
  qed
  show m: "meta sb (IBLOCK inum)" using le by (simp add: meta_def u)
  show "IBLOCK inum \<noteq> 1"
  proof
    assume "IBLOCK inum = 1"
    then have "unat (IBLOCK inum) = 1" by simp
    then show False unfolding u by simp
  qed
  show "IBLOCK inum < disksize s" using fs_geom_sizes(3,4) [OF assms(1)] m by blast
  show "BBLOCK c (sb_ninodes sb) \<noteq> IBLOCK inum" if "c < sb_size sb"
  proof
    assume "BBLOCK c (sb_ninodes sb) = IBLOCK inum"
    then have "unat (BBLOCK c (sb_ninodes sb)) = unat (IBLOCK inum)" by simp
    then show False unfolding u BBLOCK_meta(1) [OF assms(1) that] using le by simp
  qed
qed

lemma inode_write:
  assumes ok: "fsok sb s V as" and i: "inum < sb_ninodes sb" and d: "length d = 512" and V': "V' = V(IBLOCK inum := d)"
  shows "fsok sb s V' as" "fbyte V' as j = fbyte V as j \<or> MAXFILE * BSIZE \<le> j" "pos_ok p \<Longrightarrow> blk V' as p = blk V as p"
    "foreign sb V as k \<Longrightarrow> V' k = V k \<and> foreign sb V' as k"
proof -
  have fo: "fs_inv sb V s" "sized s V" "file_ok sb V as" using ok by (simp_all add: fsok_def)
  have geom: "fs_geom sb s" using fo(1) by (simp add: fs_inv_def)
  note ib = inode_block [OF geom i]
  have nb: "blk V as p \<noteq> IBLOCK inum" if "pos_ok p" "blk V as p \<noteq> 0" for p
    using file_okD(3) [OF fo(3) that] ib(2) by auto
  have B: "blk V' as p = blk V as p" if "pos_ok p" for p
    using that
  proof (induction p rule: up_induct)
    case (1 p)
    show ?case
    proof (cases "up p")
      case (Some q)
      have q: "pos_ok q" using up_ok [OF 1(2) Some] by simp
      then show ?thesis using 1(1) [OF Some q] Some nb [OF q] by (auto simp: blk_up [of _ _ p] entry_def V')
    qed (simp add: blk_up [of _ _ p])
  qed
  have U: "used sb V' c = used sb V c" if "c < sb_size sb" for c using ib(5) [OF that] by (simp add: used_def V')
  have "V' 1 = V 1" using ib(3) by (simp add: V')
  then have "fs_inv sb V' s" using fo(1) U fs_geom_sizes(3) [OF geom] by (auto simp: fs_inv_def)
  moreover have "file_ok sb V' as"
    using fo(3) B U unfolding file_ok_def by (auto 0 3 dest: spec)
  moreover have "sized s V'" using fo(2) d by (simp add: V')
  ultimately show "fsok sb s V' as" by (simp add: fsok_def)
  show "blk V' as p = blk V as p" if "pos_ok p" by (rule B [OF that])
  show "fbyte V' as j = fbyte V as j \<or> MAXFILE * BSIZE \<le> j"
  proof (cases "j < MAXFILE * BSIZE")
    case True
    then have j: "j div 512 < MAXFILE" by (simp add: less_mult_imp_div_less)
    then show ?thesis using B [OF leaf_ok [OF j]] nb [OF leaf_ok [OF j]] by (simp add: fbyte_def fdata_def Let_def V')
  qed simp
  show "V' k = V k \<and> foreign sb V' as k" if k: "foreign sb V as k"
    using k B U ib(2) by (auto simp: foreign_def V')
qed

end
