(* ===== verification/Files.thy ===== *)
theory Files
  imports Filemap Fs
begin

text \<open>
  The contents of files: \<^verbatim>\<open>bmap\<close> implements the map of file blocks of theory \<open>Filemap\<close>, \<^verbatim>\<open>readi\<close> returns the bytes of
  the file and \<^verbatim>\<open>writei\<close> changes exactly the bytes it is given.
\<close>

section \<open>The inode in a transaction\<close>

definition fstate :: "nat \<Rightarrow> u32 list \<Rightarrow> 'a icache_state_scheme \<Rightarrow> 'a icache_state_scheme" where
  "fstate ip as s = s\<lparr>icache := (icache s)[ip := (icache s ! ip)\<lparr>i_addrs := as\<rparr>]\<rparr>"

lemma fstate_fields [simp]:
  "disksize (fstate ip as s) = disksize s" "length (icache (fstate ip as s)) = length (icache s)" "memdisk (fstate ip as s) = memdisk s"
  "ip < length (icache s) \<Longrightarrow> icache (fstate ip as s) ! ip = (icache s ! ip)\<lparr>i_addrs := as\<rparr>"
  "fs_inv sb V (fstate ip as s) = fs_inv sb V s" "fsok sb (fstate ip as s) V bs = fsok sb s V bs"
  by (simp_all add: fstate_def fs_inv_def fs_geom_def fsok_def)

lemma tx_icache: "tx s0 V C H M s \<Longrightarrow> icache s = icache s0"
proof -
  assume "tx s0 V C H M s"
  then obtain l n where "bc (tx_base s0 l n) V (set (logged (tx_base s0 l n))) H s" by (rule txE)
  then have "s = (tx_base s0 l n)\<lparr>bcache := bcache s, ptable := ptable s\<rparr>" unfolding bc_def by blast
  then have "icache s = icache ((tx_base s0 l n)\<lparr>bcache := bcache s, ptable := ptable s\<rparr>)" by metis
  then show ?thesis by (simp add: tx_base_def)
qed

lemma tx_set_icache:
  assumes "tx s0 V C H M s"
  shows "tx (s0\<lparr>icache := x\<rparr>) V C H M (s\<lparr>icache := x\<rparr>)"
  by (rule tx_frame [OF assms]) simp_all

lemma upd_inode_tx:
  assumes "ip < length (icache s0)"
  shows "kspec E (tx s0 V C H M) (upd_inode ip f) (\<lambda>_. tx (s0\<lparr>icache := (icache s0)[ip := f (icache s0 ! ip)]\<rparr>) V C H M)"
  by (rule kspecI_eq) (use assms in \<open>auto simp: upd_inode_def tx_icache intro!: tx_set_icache\<close>)

lemma kspec_seq_ret: "kspec E P m (\<lambda>_. Q) \<Longrightarrow> kspec E P (kseq m (kret r)) (\<lambda>a s. a = r \<and> Q s)"
  by (erule kspec_seq) (simp add: kspec_ret)

lemma kseq_assoc3: "kseq a (kseq b (kseq c d)) = kseq (kseq a (kseq b c)) d"
  by (auto simp: fun_eq_iff kseq_def kbind_def split: outcome.splits)

lemma tx_log_ret:
  assumes "H b = Some n" "length (f (V n)) = 512" "n \<notin> M"
  shows "kspec E (tx s0 V C H M) (kseq (set_data b f) (kseq (log_write b) (kseq (brelse b) (kret r))))
    (\<lambda>a s. a = r \<and> tx s0 (V(n := f (V n))) C (H(b := None)) M s)"
  unfolding kseq_assoc3 by (rule kspec_seq_ret [OF tx_log_done [of H b n f V M, OF assms]])

section \<open>The block map\<close>

text \<open>The situation in which \<^verbatim>\<open>bmap\<close> is called.\<close>

definition file_at :: "superblock \<Rightarrow> nat \<Rightarrow> 'a icache_state_scheme \<Rightarrow> bool" where
  "file_at sb ip s \<longleftrightarrow> ip < length (icache s) \<and> i_dev (icache s ! ip) = 1"

lemma bmap_addr_tx:
  assumes f: "file_at sb ip s0" and ok: "fsok sb s0 V as" "cover sb V as C P" and p: "p \<in> P" "up p = None" "slot p = k"
    and v: "visit sb p (V, as) = (V', as')"
  shows "kspec E (tx (fstate ip as s0) V C Map.empty {}) (bmap_addr ip k) (\<lambda>r s. r = blk V' as' p \<and> tx (fstate ip as' s0) V' C Map.empty {} s)"
proof -
  have ip: "ip < length (icache s0)" "i_dev (icache s0 ! ip) = 1" using f by (simp_all add: file_at_def)
  have P: "pos_ok p" using ok(2) p(1) by (simp add: cover_def)
  have blk: "blk V as p = as ! k" "blk V' as' p = as' ! k" using p by (simp_all add: blk_up [of _ _ p])
  show ?thesis unfolding bmap_addr_def
  proof (rule kspec_get_bind [where v = "(icache s0 ! ip)\<lparr>i_addrs := as\<rparr>"])
    show "the_inode ip s = (icache s0 ! ip)\<lparr>i_addrs := as\<rparr>" if "tx (fstate ip as s0) V C Map.empty {} s" for s
      using tx_icache [OF that] ip(1) by simp
    let ?x = "(icache s0 ! ip)\<lparr>i_addrs := as\<rparr>"
    show "kspec E (tx (fstate ip as s0) V C Map.empty {}) (if i_addrs ?x ! k = 0 then kbind (balloc (i_dev ?x)) (\<lambda>addr.
       kseq (upd_inode ip (\<lambda>x. x\<lparr>i_addrs := (i_addrs x)[k := addr]\<rparr>)) (kret addr)) else kret (i_addrs ?x ! k))
      (\<lambda>r s. r = blk V' as' p \<and> tx (fstate ip as' s0) V' C Map.empty {} s)"
    proof (cases "blk V as p = 0")
      case True
      obtain b bs where fr: "frees sb V = b # bs" "b \<in> C" "BBLOCK b (sb_ninodes sb) \<in> C" using cover_free [OF ok(2) p(1) True] by blast
      have e: "V' = alloc_view sb b V" "as' = as[k := b]"
        using v visit_grow(2) [OF ok(1) fr(1) P True] p(2,3) by (auto simp: grow_def Let_def)
      have len: "k < length as" using top_slot [OF P p(2)] p(3) ok(1) by (simp add: fsok_def file_ok_def)
      have 1: "kspec E (tx (fstate ip as s0) V C Map.empty {}) (balloc 1) (\<lambda>r s. r = b \<and> tx (fstate ip as s0) V' C Map.empty {} s)"
        unfolding e(1) by (rule balloc_tx [OF _ frees_Cons_first [OF fr(1)] fr(2,3)]) (use ok(1) in \<open>simp_all add: fsok_def\<close>)
      have "(fstate ip as s0)\<lparr>icache := (icache (fstate ip as s0))[ip := (icache (fstate ip as s0) ! ip)\<lparr>i_addrs := as'\<rparr>]\<rparr> = fstate ip as' s0"
        using ip(1) by (simp add: fstate_def)
      then have 2: "kspec E (tx (fstate ip as s0) V' C Map.empty {}) (upd_inode ip (\<lambda>x. x\<lparr>i_addrs := (i_addrs x)[k := b]\<rparr>))
          (\<lambda>_. tx (fstate ip as' s0) V' C Map.empty {})"
        using upd_inode_tx [of ip "fstate ip as s0" E V' C Map.empty "{}" "\<lambda>x. x\<lparr>i_addrs := (i_addrs x)[k := b]\<rparr>"] ip e(2) by simp
      have r: "b = blk V' as' p" using blk(2) e(2) len by simp
      have "kspec E (tx (fstate ip as s0) V C Map.empty {}) (kbind (balloc 1) (\<lambda>addr. kseq (upd_inode ip (\<lambda>x. x\<lparr>i_addrs := (i_addrs x)[k := addr]\<rparr>)) (kret addr)))
          (\<lambda>r s. r = blk V' as' p \<and> tx (fstate ip as' s0) V' C Map.empty {} s)"
      proof (rule kspec_bind [OF 1], rule kspec_pure)
        fix addr assume "addr = b"
        then show "kspec E (tx (fstate ip as s0) V' C Map.empty {}) (kseq (upd_inode ip (\<lambda>x. x\<lparr>i_addrs := (i_addrs x)[k := addr]\<rparr>)) (kret addr))
          (\<lambda>r s. r = blk V' as' p \<and> tx (fstate ip as' s0) V' C Map.empty {} s)"
          using kspec_seq_ret [OF 2] r by simp
      qed
      then show ?thesis using True blk(1) ip(2) by simp
    next
      case False
      then show ?thesis using v visit_stays [of V as p sb] blk(1) by (simp add: kspec_ret)
    qed
  qed
qed

lemma bmap_entry_tx:
  assumes f: "file_at sb ip s0" and ok: "fsok sb s0 V as" "cover sb V as C P" and p: "p \<in> P" "up p = Some q" "q \<in> P" "blk V as q \<noteq> 0"
    and v: "visit sb p (V, as) = (V', as')"
  shows "kspec E (tx (fstate ip as s0) V C Map.empty {}) (bmap_entry ip (blk V as q) (slot p))
    (\<lambda>r s. r = blk V' as' p \<and> tx (fstate ip as' s0) V' C Map.empty {} s)"
proof -
  let ?s = "fstate ip as s0" and ?a = "blk V as q"
  have ip: "ip < length (icache s0)" "i_dev (icache s0 ! ip) = 1" using f by (simp_all add: file_at_def)
  have P: "pos_ok p" "pos_ok q" "?a \<in> C" using ok(2) p by (simp_all add: cover_def)
  note fo = ok(1) [unfolded fsok_def]
  have a: "?a < disksize ?s" "\<not> meta sb ?a"
    using file_okD(2,3) [of sb V as q] fs_geom_sizes(4) [of sb s0 ?a] fo P(2) p(4) by (auto simp: fs_inv_def)
  have blk: "blk V as p = arr_get 4 un_le32 (slot p) (V ?a)" using p(2,4) by (simp add: blk_up [of _ _ p] entry_def)
  have up: "up p = Some q' \<Longrightarrow> blk V as q' \<noteq> 0" for q' using p by simp
  show ?thesis unfolding bmap_entry_def
  proof (rule kspec_get_bind [where v = 1], goal_cases)
    case (1 s)
    then show ?case using tx_icache [OF 1] ip by simp
  next
    case 2
    show ?case
    proof (rule kspec_bind [OF tx_bread [OF a(1) _ P(3)]], simp, rule kspec_pure, rule kspec_get_bind [where v = "blk V as p"])
      fix bp
      show "arr_get 4 un_le32 (slot p) (buf_data bp s) = blk V as p" if "tx ?s V C [bp \<mapsto> ?a] {} s" for s
        using tx_held(2) [OF that, of bp ?a] blk by simp
      have HH: "[bp \<mapsto> ?a](bp := None) = Map.empty" by auto
      show "kspec E (tx ?s V C [bp \<mapsto> ?a] {}) (if blk V as p = 0
       then kbind (balloc 1) (\<lambda>addr. kseq (set_data bp (arr_put 4 le32 (slot p) addr)) (kseq (log_write bp) (kseq (brelse bp) (kret addr))))
       else kseq (brelse bp) (kret (blk V as p))) (\<lambda>r s. r = blk V' as' p \<and> tx (fstate ip as' s0) V' C Map.empty {} s)"
      proof (cases "blk V as p = 0")
        case True
        obtain b bs where fr: "frees sb V = b # bs" "b \<in> C" "BBLOCK b (sb_ninodes sb) \<in> C" using cover_free [OF ok(2) p(1) True] by blast
        have g: "can_grow sb s0 b p V as" "visit sb p (V, as) = grow sb b p (V, as)"
          by (rule visit_grow [OF ok(1) fr(1) P(1) True], erule up)+
        let ?V1 = "alloc_view sb b V"
        have e: "V' = ?V1(?a := arr_put 4 le32 (slot p) b (?V1 ?a))" "as' = as"
          using v g(2) p(2) by (auto simp: grow_def Let_def)
        have r: "blk V' as' p = b" using grow_blk [OF g(1) _ P(1), of V' as'] g(2) v by simp
        have 1: "kspec E (tx ?s V C [bp \<mapsto> ?a] {}) (balloc 1) (\<lambda>r s. r = b \<and> tx ?s ?V1 C [bp \<mapsto> ?a] {} s)"
          by (rule balloc_tx [OF _ frees_Cons_first [OF fr(1)] fr(2,3)])
            (use fo a(2) grow_fresh(1) [OF g(1) P(2) p(4)] in auto)
        have "length (?V1 ?a) = 512" using alloc_view_sized [of s0 V sb b] fo a(1) by simp
        then have "length (arr_put 4 le32 (slot p) b (?V1 ?a)) = 512" using up_ok [OF P(1) p(2)] by (simp add: u32c.length_put)
        then have 2: "kspec E (tx ?s ?V1 C [bp \<mapsto> ?a] {})
            (kseq (set_data bp (arr_put 4 le32 (slot p) b)) (kseq (log_write bp) (kseq (brelse bp) (kret b))))
            (\<lambda>r s. r = b \<and> tx ?s V' C Map.empty {} s)"
          using tx_log_ret [of "[bp \<mapsto> ?a]" bp ?a "arr_put 4 le32 (slot p) b" ?V1 "{}" E ?s C b] e(1) unfolding HH by simp
        have "kspec E (tx ?s V C [bp \<mapsto> ?a] {})
            (kbind (balloc 1) (\<lambda>addr. kseq (set_data bp (arr_put 4 le32 (slot p) addr)) (kseq (log_write bp) (kseq (brelse bp) (kret addr)))))
            (\<lambda>r s. r = b \<and> tx ?s V' C Map.empty {} s)"
        proof (rule kspec_bind [OF 1], rule kspec_pure)
          fix addr assume "addr = b"
          then show "kspec E (tx ?s ?V1 C [bp \<mapsto> ?a] {})
            (kseq (set_data bp (arr_put 4 le32 (slot p) addr)) (kseq (log_write bp) (kseq (brelse bp) (kret addr))))
            (\<lambda>r s. r = b \<and> tx ?s V' C Map.empty {} s)" using 2 by simp
        qed
        then show ?thesis using True r e(2) by simp
      next
        case False
        have "V' = V" "as' = as" using v visit_stays [of V as p sb] False by simp_all
        moreover have "kspec E (tx ?s V C [bp \<mapsto> ?a] {}) (brelse bp) (\<lambda>_. tx ?s V C Map.empty {})"
          using tx_brelse [of "[bp \<mapsto> ?a]" bp ?a "{}" E ?s V C] unfolding HH by simp
        ultimately show ?thesis using False kspec_seq_ret by simp
      qed
    qed
  qed
qed

text \<open>One step of \<^verbatim>\<open>bmap\<close> after another.\<close>

lemma bmap_step:
  assumes f: "file_at sb ip s0" and ok: "fsok sb s0 V as" "cover sb V as C P" and p: "p \<in> P" "up p = None" "slot p = k"
    and rest: "\<And>V1 as1. visit sb p (V, as) = (V1, as1) \<Longrightarrow> fsok sb s0 V1 as1 \<Longrightarrow> cover sb V1 as1 C P \<Longrightarrow> blk V1 as1 p \<noteq> 0 \<Longrightarrow>
      kspec E (tx (fstate ip as1 s0) V1 C Map.empty {}) (F (blk V1 as1 p)) Q"
  shows "kspec E (tx (fstate ip as s0) V C Map.empty {}) (kbind (bmap_addr ip k) F) Q"
proof -
  obtain V1 as1 where v: "visit sb p (V, as) = (V1, as1)" by fastforce
  note s = visit_same [OF ok p(1) _ v]
  show ?thesis
  proof (rule kspec_bind [OF bmap_addr_tx [OF f ok p v]], rule kspec_pure, simp)
    show "kspec E (tx (fstate ip as1 s0) V1 C Map.empty {}) (F (blk V1 as1 p)) Q" by (rule rest [OF v]) (rule s; simp add: p)+
  qed
qed

lemma bmap_entry_step:
  assumes f: "file_at sb ip s0" and ok: "fsok sb s0 V as" "cover sb V as C P" and p: "p \<in> P" "up p = Some q" "q \<in> P" "blk V as q \<noteq> 0"
    and rest: "\<And>V1 as1. visit sb p (V, as) = (V1, as1) \<Longrightarrow> fsok sb s0 V1 as1 \<Longrightarrow> cover sb V1 as1 C P \<Longrightarrow> blk V1 as1 p \<noteq> 0 \<Longrightarrow>
      kspec E (tx (fstate ip as1 s0) V1 C Map.empty {}) (F (blk V1 as1 p)) Q"
  shows "kspec E (tx (fstate ip as s0) V C Map.empty {}) (kbind (bmap_entry ip (blk V as q) (slot p)) F) Q"
proof -
  obtain V1 as1 where v: "visit sb p (V, as) = (V1, as1)" by fastforce
  note s = visit_same [OF ok p(1) _ v]
  show ?thesis
  proof (rule kspec_bind [OF bmap_entry_tx [OF f ok p v]], rule kspec_pure, simp)
    show "kspec E (tx (fstate ip as1 s0) V1 C Map.empty {}) (F (blk V1 as1 p)) Q" by (rule rest [OF v]) (rule s; simp add: p)+
  qed
qed

lemma bmap_tx:
  assumes f: "file_at sb ip s0" and ok: "fsok sb s0 V as" "cover sb V as C P" and n: "unat bn < MAXFILE" "set (path (unat bn)) \<subseteq> P"
    and v: "bmap_view sb (unat bn) (V, as) = (V', as')"
  shows "kspec E (tx (fstate ip as s0) V C Map.empty {}) (bmap ip bn)
    (\<lambda>r s. r = blk V' as' (leaf (unat bn)) \<and> tx (fstate ip as' s0) V' C Map.empty {} s)"
proof -
  let ?n = "unat bn"
  consider "?n < NDIRECT" | "\<not> ?n < NDIRECT" "?n - NDIRECT < NINDIRECT"
    | "\<not> ?n < NDIRECT" "\<not> ?n - NDIRECT < NINDIRECT" by blast
  then show ?thesis
  proof cases
    case 1
    then have l: "path ?n = [Direct ?n]" "leaf ?n = Direct ?n" by (simp_all add: path_def leaf_def)
    then show ?thesis using bmap_addr_tx [OF f ok, of "Direct ?n" ?n V' as' E] n(2) v 1 by (simp add: bmap_def Let_def bmap_view_def)
  next
    case 2
    then have l: "path ?n = [Ind, Entry (?n - NDIRECT)]" "leaf ?n = Entry (?n - NDIRECT)" by (simp_all add: path_def leaf_def)
    have "kspec E (tx (fstate ip as s0) V C Map.empty {}) (kbind (bmap_addr ip NDIRECT) (\<lambda>b. bmap_entry ip b (?n - NDIRECT)))
        (\<lambda>r s. r = blk V' as' (leaf ?n) \<and> tx (fstate ip as' s0) V' C Map.empty {} s)"
    proof (rule bmap_step [OF f ok, of Ind])
      fix V1 as1
      assume a: "visit sb Ind (V, as) = (V1, as1)" "fsok sb s0 V1 as1" "cover sb V1 as1 C P" "blk V1 as1 Ind \<noteq> 0"
      then show "kspec E (tx (fstate ip as1 s0) V1 C Map.empty {}) (bmap_entry ip (blk V1 as1 Ind) (?n - NDIRECT))
          (\<lambda>r s. r = blk V' as' (leaf ?n) \<and> tx (fstate ip as' s0) V' C Map.empty {} s)"
        using bmap_entry_tx [OF f a(2,3), of "Entry (?n - NDIRECT)" Ind V' as' E] n(2) v l by (simp add: bmap_view_def)
    qed (use n(2) l in simp_all)
    then show ?thesis using 2 by (simp add: bmap_def Let_def)
  next
    case 3
    let ?i = "(?n - NDIRECT - NINDIRECT) div NINDIRECT" and ?j = "(?n - NDIRECT - NINDIRECT) mod NINDIRECT"
    have l: "path ?n = [Dind, Dentry ?i, Leaf ?i ?j]" "leaf ?n = Leaf ?i ?j" using 3 by (simp_all add: path_def leaf_def)
    have r: "?n - NDIRECT - NINDIRECT < NINDIRECT * NINDIRECT" using n(1) 3 by simp
    have "kspec E (tx (fstate ip as s0) V C Map.empty {}) (kbind (bmap_addr ip (NDIRECT + 1)) (\<lambda>b.
        kbind (bmap_entry ip b ?i) (\<lambda>b'. bmap_entry ip b' ?j)))
        (\<lambda>r s. r = blk V' as' (leaf ?n) \<and> tx (fstate ip as' s0) V' C Map.empty {} s)"
    proof (rule bmap_step [OF f ok, of Dind])
      fix V1 as1
      assume a: "visit sb Dind (V, as) = (V1, as1)" "fsok sb s0 V1 as1" "cover sb V1 as1 C P" "blk V1 as1 Dind \<noteq> 0"
      have "kspec E (tx (fstate ip as1 s0) V1 C Map.empty {}) (kbind (bmap_entry ip (blk V1 as1 Dind) (slot (Dentry ?i))) (\<lambda>b'. bmap_entry ip b' ?j))
          (\<lambda>r s. r = blk V' as' (leaf ?n) \<and> tx (fstate ip as' s0) V' C Map.empty {} s)"
      proof (rule bmap_entry_step [OF f a(2,3)])
        fix V2 as2
        assume b: "visit sb (Dentry ?i) (V1, as1) = (V2, as2)" "fsok sb s0 V2 as2" "cover sb V2 as2 C P" "blk V2 as2 (Dentry ?i) \<noteq> 0"
        then have "visit sb (Leaf ?i ?j) (V2, as2) = (V', as')" using v l a by (simp add: bmap_view_def)
        then show "kspec E (tx (fstate ip as2 s0) V2 C Map.empty {}) (bmap_entry ip (blk V2 as2 (Dentry ?i)) ?j)
            (\<lambda>r s. r = blk V' as' (leaf ?n) \<and> tx (fstate ip as' s0) V' C Map.empty {} s)"
          using bmap_entry_tx [OF f b(2,3), of "Leaf ?i ?j" "Dentry ?i" V' as' E] n(2) l b(4) by (simp del: blk.simps)
      qed (use n(2) l a(4) in \<open>simp_all del: blk.simps\<close>)
      then show "kspec E (tx (fstate ip as1 s0) V1 C Map.empty {}) (kbind (bmap_entry ip (blk V1 as1 Dind) ?i) (\<lambda>b'. bmap_entry ip b' ?j))
          (\<lambda>r s. r = blk V' as' (leaf ?n) \<and> tx (fstate ip as' s0) V' C Map.empty {} s)" by simp
    qed (use n(2) l in simp_all)
    then show ?thesis using 3 r by (simp add: bmap_def Let_def)
  qed
qed

section \<open>Writing\<close>

lemma writei_loop_tx:
  assumes "file_at sb ip s0" "fsok sb s0 V as" "cover sb V as C P" "places off (length src) \<subseteq> P"
    "off + length src \<le> MAXFILE * BSIZE" "write_view sb off src (V, as) = (V', as')"
  shows "kspec E (tx (fstate ip as s0) V C Map.empty {}) (writei_loop ip off src) (\<lambda>_. tx (fstate ip as' s0) V' C Map.empty {})"
  using assms(2-)
proof (induction "length src" arbitrary: off src V as rule: less_induct)
  case less
  note prems = less.prems
  show ?case
  proof (cases "src = []")
    case True
    then show ?thesis using prems(5) by (simp add: writei_loop.simps write_view.simps kspec_ret)
  next
    case False
    define m where "m = min (length src) (512 - off mod 512)"
    let ?n = "off div 512" and ?o = "off mod 512"
    have m: "0 < m" "m \<le> length src" "?o + m \<le> 512" using False by (auto simp: m_def)
    have "off < MAXFILE * 512" using prems(4) False by (cases src) auto
    then have n: "?n < MAXFILE" "set (path ?n) \<subseteq> P"
      using prems(3) False places_first [of "length src" off] by (auto simp: less_mult_imp_div_less)
    have bn: "unat (of_nat ?n :: u32) = ?n" using n(1) by (intro unat_u32) simp
    obtain V1 as1 where v: "bmap_view sb ?n (V, as) = (V1, as1)" by fastforce
    let ?b = "blk V1 as1 (leaf ?n)"
    define V2 where "V2 = V1(?b := splice ?o (take m src) (V1 ?b))"
    note st = write_step [OF prems(1,2) n v _ V2_def] and b = bmap_view_same [OF prems(1,2) n(2) v]
    have "leaf ?n \<in> set (path ?n)" using path_chain(2,3) [of ?n] last_in_set by metis
    then have bC: "?b \<in> C" using b(2,3) n(2) by (auto simp: cover_def)
    have bd: "?b < disksize s0"
      using fs_geom_sizes(4) [of sb s0 ?b] file_okD(2) [of sb V1 as1 "leaf ?n"] leaf_ok [OF n(1)] b(1,3) by (auto simp: fsok_def fs_inv_def)
    have wv: "write_view sb (off + m) (drop m src) (V2, as1) = (V', as')"
      using prems(5) v False by (simp add: write_view.simps [of sb off src] V2_def m_def Let_def)
    have rest: "kspec E (tx (fstate ip as1 s0) V2 C Map.empty {}) (writei_loop ip (off + m) (drop m src)) (\<lambda>_. tx (fstate ip as' s0) V' C Map.empty {})"
      by (rule less.hyps) (use st(1,2) m prems(3,4) places_rest [OF m(2), of off] wv in auto)
    have upd: "kspec E (tx (fstate ip as1 s0) V1 C Map.empty {})
        (kbind (bread 1 ?b) (\<lambda>bp. kseq (set_data bp (splice ?o (take m src))) (kseq (log_write bp) (kseq (brelse bp)
           (writei_loop ip (off + m) (drop m src)))))) (\<lambda>_. tx (fstate ip as' s0) V' C Map.empty {})"
    proof -
      have "length (splice ?o (take m src) (V1 ?b)) = 512" using st(6) m by simp
      then have "kspec E (tx (fstate ip as1 s0) V1 C Map.empty {})
          (kbind (bread 1 ?b) (\<lambda>bp. kseq (set_data bp (splice ?o (take m src))) (kseq (log_write bp) (brelse bp))))
          (\<lambda>_. tx (fstate ip as1 s0) V2 C Map.empty {})"
        unfolding V2_def using bd bC by (intro tx_update) simp_all
      from kspec_seq [OF this rest] show ?thesis by (simp add: kseq_def kbind_assoc)
    qed
    have "kspec E (tx (fstate ip as s0) V C Map.empty {}) (kbind (kget (\<lambda>s. i_dev (the_inode ip s))) (\<lambda>dev.
        kbind (bmap ip (of_nat ?n)) (\<lambda>b. kbind (bread dev b) (\<lambda>bp. kseq (set_data bp (splice ?o (take m src))) (kseq (log_write bp) (kseq (brelse bp)
           (writei_loop ip (off + m) (drop m src)))))))) (\<lambda>_. tx (fstate ip as' s0) V' C Map.empty {})"
    proof (rule kspec_get_bind [where v = 1])
      show "i_dev (the_inode ip s) = 1" if "tx (fstate ip as s0) V C Map.empty {} s" for s
        using tx_icache [OF that] assms(1) by (simp add: file_at_def)
      have "kspec E (tx (fstate ip as s0) V C Map.empty {}) (bmap ip (of_nat ?n))
          (\<lambda>r s. r = ?b \<and> tx (fstate ip as1 s0) V1 C Map.empty {} s)"
        using bmap_tx [OF assms(1) prems(1,2), of "of_nat ?n" V1 as1 E] n v unfolding bn by simp
      then show "kspec E (tx (fstate ip as s0) V C Map.empty {}) (kbind (bmap ip (of_nat ?n)) (\<lambda>b. kbind (bread 1 b)
          (\<lambda>bp. kseq (set_data bp (splice ?o (take m src))) (kseq (log_write bp) (kseq (brelse bp)
           (writei_loop ip (off + m) (drop m src))))))) (\<lambda>_. tx (fstate ip as' s0) V' C Map.empty {})"
        by (rule kspec_bind) (rule kspec_pure, use upd in simp)
    qed
    then show ?thesis using False by (simp add: writei_loop.simps [of ip off src] Let_def m_def)
  qed
qed

definition dinode_view :: "inode \<Rightarrow> (u32 \<Rightarrow> u8 list) \<Rightarrow> u32 \<Rightarrow> u8 list" where
  "dinode_view x V = (let k = IBLOCK (i_inum x) in V(k := arr_put 64 enc_dinode (dslot (i_inum x)) (dinode_of x) (V k)))"

lemma dslot_fits: "Suc (dslot inum) * 64 \<le> 512"
proof -
  have "unat (inum mod IPB) < 8" by (simp add: unat_mod)
  then show ?thesis by simp
qed

lemma dinode_view_length:
  assumes "length (V (IBLOCK (i_inum x))) = 512" "length (i_addrs x) = 13"
  shows "length (arr_put 64 enc_dinode (dslot (i_inum x)) (dinode_of x) (V (IBLOCK (i_inum x)))) = 512"
  using dic.length_put [of "dinode_of x" "dslot (i_inum x)"] assms dslot_fits [of "i_inum x"] by (simp add: dinode_wf_def dinode_of_def)

lemma iupdate_tx:
  assumes x: "icache s0 ! ip = x" "i_dev x = 1" "length (i_addrs x) = 13" and k: "IBLOCK (i_inum x) < disksize s0" "IBLOCK (i_inum x) \<in> C"
  shows "kspec E (tx s0 V C Map.empty {}) (iupdate ip) (\<lambda>_. tx s0 (dinode_view x V) C Map.empty {})"
  unfolding iupdate_def
proof (rule kspec_get_bind [where v = x])
  show "the_inode ip s = x" if "tx s0 V C Map.empty {} s" for s using tx_icache [OF that] x(1) by simp
  show "kspec E (tx s0 V C Map.empty {}) (kbind (bread (i_dev x) (IBLOCK (i_inum x))) (\<lambda>bp.
      kseq (set_data bp (arr_put 64 enc_dinode (dslot (i_inum x)) (dinode_of x))) (kseq (log_write bp) (brelse bp))))
      (\<lambda>_. tx s0 (dinode_view x V) C Map.empty {})"
  proof (rule kspec_facts [where A = "length (V (IBLOCK (i_inum x))) = 512"])
    show "length (V (IBLOCK (i_inum x))) = 512" if "tx s0 V C Map.empty {} s" for s by (rule tx_length [OF that k(1)])
    assume "length (V (IBLOCK (i_inum x))) = 512"
    then show "kspec E (tx s0 V C Map.empty {}) (kbind (bread (i_dev x) (IBLOCK (i_inum x))) (\<lambda>bp.
      kseq (set_data bp (arr_put 64 enc_dinode (dslot (i_inum x)) (dinode_of x))) (kseq (log_write bp) (brelse bp))))
      (\<lambda>_. tx s0 (dinode_view x V) C Map.empty {})"
      using tx_update [of "IBLOCK (i_inum x)" s0 Map.empty C "{}" "arr_put 64 enc_dinode (dslot (i_inum x)) (dinode_of x)" V E]
        k x(2) dinode_view_length [of V x, OF _ x(3)] by (simp add: dinode_view_def Let_def)
  qed
qed

lemma dinode_view_keeps:
  assumes "fsok sb s V as" "i_inum x < sb_ninodes sb" "length (i_addrs x) = 13"
  shows "fsok sb s (dinode_view x V) as" "j < MAXFILE * BSIZE \<Longrightarrow> fbyte (dinode_view x V) as j = fbyte V as j"
    "pos_ok p \<Longrightarrow> blk (dinode_view x V) as p = blk V as p"
    "foreign sb V as k \<Longrightarrow> dinode_view x V k = V k \<and> foreign sb (dinode_view x V) as k"
    "arr_get 64 dec_dinode (dslot (i_inum x)) (dinode_view x V (IBLOCK (i_inum x))) = dinode_of x"
proof -
  have k: "IBLOCK (i_inum x) < disksize s" using inode_block(4) [OF _ assms(2)] assms(1) by (auto simp: fsok_def fs_inv_def)
  then have l: "length (V (IBLOCK (i_inum x))) = 512" using assms(1) by (simp add: fsok_def)
  note w = inode_write [OF assms(1,2) dinode_view_length [of V x, OF l assms(3)] dinode_view_def [unfolded Let_def]]
  show "fsok sb s (dinode_view x V) as" "j < MAXFILE * BSIZE \<Longrightarrow> fbyte (dinode_view x V) as j = fbyte V as j"
    "pos_ok p \<Longrightarrow> blk (dinode_view x V) as p = blk V as p"
    "foreign sb V as k \<Longrightarrow> dinode_view x V k = V k \<and> foreign sb (dinode_view x V) as k" for k
    using w(1) w(2) [of j] w(3,4) by auto
  show "arr_get 64 dec_dinode (dslot (i_inum x)) (dinode_view x V (IBLOCK (i_inum x))) = dinode_of x"
    unfolding dinode_view_def Let_def fun_upd_same
    by (rule dic.get_put_same) (use assms(3) l dslot_fits [of "i_inum x"] in \<open>simp_all add: dinode_wf_def dinode_of_def\<close>)
qed

lemma fstate_self: "fstate ip (i_addrs (icache s ! ip)) s = s"
  by (simp add: fstate_def)

lemma sint_u32: "n < 2147483648 \<Longrightarrow> sint (of_nat n :: u32) = int n"
  by (simp add: signed_of_nat signed_take_bit_int_eq_self)

lemma writei_tx:
  fixes s :: "'a cons_state_scheme"
  assumes t: "tx s0 V C Map.empty {} s" and f: "file_at sb ip s0" and x: "x = icache s0 ! ip" "i_type x \<noteq> T_DEV" "i_inum x < sb_ninodes sb"
    and ok: "fsok sb s0 V (i_addrs x)" "cover sb V (i_addrs x) C (places (unat off) (length src))" "IBLOCK (i_inum x) \<in> C"
    and off: "off \<le> i_size x" "unat off + length src \<le> MAXFILE * BSIZE"
  shows "\<exists>t V' x'. writei ip src off s = Ret (int (length src)) t \<and> tx (s0\<lparr>icache := (icache s0)[ip := x']\<rparr>) V' C Map.empty {} t \<and>
    x' = x\<lparr>i_addrs := i_addrs x', i_size := max (i_size x) (off + of_nat (length src))\<rparr> \<and> fsok sb s0 V' (i_addrs x') \<and>
    keeps_blocks sb V (i_addrs x) V' (i_addrs x') \<and> (\<forall>p \<in> places (unat off) (length src). blk V' (i_addrs x') p \<noteq> 0) \<and>
    (\<forall>i < MAXFILE * BSIZE. fbyte V' (i_addrs x') i = (if unat off \<le> i \<and> i < unat off + length src then src ! (i - unat off) else fbyte V (i_addrs x) i)) \<and>
    (i_size x < i_size x' \<longrightarrow> arr_get 64 dec_dinode (dslot (i_inum x)) (V' (IBLOCK (i_inum x))) = dinode_of x')"
proof -
  let ?len = "length src" and ?n = "of_nat (length src) :: u32" and ?P = "places (unat off) (length src)"
  have ip: "ip < length (icache s0)" "i_dev x = 1" using f x(1) by (simp_all add: file_at_def)
  have ic: "icache s = icache s0" by (rule tx_icache [OF t])
  have u: "unat ?n = ?len" using off(2) by (intro unat_u32) simp
  have uo: "unat (off + ?n) = unat off + ?len" using off(2) by (simp add: unat_word_ariths u)
  have no: "\<not> off + ?n < off" "\<not> off + ?n > of_nat (MAXFILE * BSIZE)"
    using off(2) by (simp_all add: word_less_nat_alt uo)
  have sn: "sint ?n = int ?len" using off(2) by (intro sint_u32) simp
  obtain V1 as1 where v: "write_view sb (unat off) src (V, i_addrs x) = (V1, as1)" by fastforce
  have w: "fsok sb s0 V1 as1" "cover sb V1 as1 C ?P" "keeps_blocks sb V (i_addrs x) V1 as1" "\<forall>p \<in> ?P. blk V1 as1 p \<noteq> 0"
    "\<forall>i < MAXFILE * BSIZE. fbyte V1 as1 i = (if unat off \<le> i \<and> i < unat off + ?len then src ! (i - unat off) else fbyte V (i_addrs x) i)"
    using write_view_ok [OF ok(1,2) _ off(2) v] by simp_all
  have "kspec {} (tx s0 V C Map.empty {}) (writei_loop ip (unat off) src) (\<lambda>_. tx (fstate ip as1 s0) V1 C Map.empty {})"
    using writei_loop_tx [OF f ok(1,2) _ off(2) v] fstate_self [of ip s0] x(1) by simp
  from kspecD_unit [OF this t] obtain t1 where t1: "writei_loop ip (unat off) src s = Ret () t1" "tx (fstate ip as1 s0) V1 C Map.empty {} t1" by blast
  let ?x1 = "x\<lparr>i_addrs := as1\<rparr>"
  have ino1: "the_inode ip t1 = ?x1" using tx_icache [OF t1(2)] ip(1) x(1) by simp
  have s1: "fstate ip as1 s0 = s0\<lparr>icache := (icache s0)[ip := ?x1]\<rparr>" by (simp add: fstate_def x(1))
  have len: "length as1 = 13" using w(1) by (simp add: fsok_def file_ok_def)
  have head: "writei ip src off s = kseq (writei_loop ip (unat off) src) (kseq (\<lambda>s. if ?n > 0 \<and> off + ?n > i_size (the_inode ip s)
       then kseq (upd_inode ip (\<lambda>x. x\<lparr>i_size := off + ?n\<rparr>)) (iupdate ip) s else Ret () s) (kret (int ?len))) s"
    using x(1,2) ic off(1) [folded not_less] no sn by (simp add: writei_def Let_def)
  have grow: "?n > 0 \<and> off + ?n > i_size x \<longleftrightarrow> off + ?n > i_size x"
    using off(1) by (auto simp: word_gt_0)
  show ?thesis
  proof (cases "off + ?n > i_size x")
    case False
    have "writei ip src off s = Ret (int ?len) t1"
      using head grow False t1(1) ino1 by (simp add: kseq_eq kseq_def kbind_def kret_def)
    moreover have "max (i_size x) (off + ?n) = i_size x" using False by simp
    ultimately show ?thesis using t1(2) w ip s1 by (intro exI [of _ t1] exI [of _ V1] exI [of _ ?x1]) simp
  next
    case True
    let ?x2 = "?x1\<lparr>i_size := off + ?n\<rparr>" and ?s2 = "s0\<lparr>icache := (icache s0)[ip := x\<lparr>i_addrs := as1, i_size := off + ?n\<rparr>]\<rparr>"
    have "kspec {} (tx (fstate ip as1 s0) V1 C Map.empty {}) (upd_inode ip (\<lambda>x. x\<lparr>i_size := off + ?n\<rparr>)) (\<lambda>_. tx ?s2 V1 C Map.empty {})"
      using upd_inode_tx [of ip "fstate ip as1 s0" "{}" V1 C Map.empty "{}" "\<lambda>x. x\<lparr>i_size := off + ?n\<rparr>"] ip(1) s1 by simp
    moreover have "kspec {} (tx ?s2 V1 C Map.empty {}) (iupdate ip) (\<lambda>_. tx ?s2 (dinode_view ?x2 V1) C Map.empty {})"
      by (rule iupdate_tx) (use ip len ok(3) inode_block(4) [of sb s0 "i_inum x"] w(1) x(3) in \<open>auto simp: fsok_def fs_inv_def\<close>)
    ultimately have "kspec {} (tx (fstate ip as1 s0) V1 C Map.empty {}) (kseq (upd_inode ip (\<lambda>x. x\<lparr>i_size := off + ?n\<rparr>)) (iupdate ip))
        (\<lambda>_. tx ?s2 (dinode_view ?x2 V1) C Map.empty {})" by (rule kspec_seq)
    from kspecD_unit [OF this t1(2)] obtain t2 where t2: "kseq (upd_inode ip (\<lambda>x. x\<lparr>i_size := off + ?n\<rparr>)) (iupdate ip) t1 = Ret () t2"
      "tx ?s2 (dinode_view ?x2 V1) C Map.empty {} t2" by blast
    have "writei ip src off s = Ret (int ?len) t2"
      using head grow True t1(1) ino1 t2(1) by (simp add: kseq_eq kseq_def kbind_def kret_def)
    moreover have "max (i_size x) (off + ?n) = off + ?n" using True by simp
    moreover note dv = dinode_view_keeps [OF w(1), of ?x2]
    moreover have "blk (dinode_view ?x2 V1) as1 p \<noteq> 0" if "p \<in> ?P" for p
      using w(2,4) dv(3) [of p] x(3) len that by (simp add: cover_def)
    ultimately show ?thesis using t2(2) w x(3) len
      by (intro exI [of _ t2] exI [of _ "dinode_view ?x2 V1"] exI [of _ ?x2]) (auto simp: keeps_blocks_def)
  qed
qed

section \<open>Reading\<close>

text \<open>
  What reading needs of the cache: a block can be read and given back, and is seen as \<open>V\<close>. This holds in a transaction and
  outside one, when no buffer waits to be written.
\<close>

lemma kget_comp: "kbind (kget (\<lambda>s. f (g s))) G = kbind (kget g) (\<lambda>d. G (f d))"
  by (simp add: fun_eq_iff kbind_def kget_def)

locale block_reader =
  fixes I :: "'a cons_state_scheme \<Rightarrow> bool" and V :: "u32 \<Rightarrow> u8 list" and dsz :: u32 and inodes :: "inode list"
  assumes reads: "n < dsz \<Longrightarrow> I s \<Longrightarrow> \<exists>b u t. bread 1 n s = Ret b u \<and> buf_data b u = V n \<and> brelse b u = Ret () t \<and> I t"
    and inode: "I s \<Longrightarrow> icache s = inodes"
begin

lemma peek:
  assumes "n < dsz" "\<And>b. F b (V n) = kseq (brelse b) (kret r)"
  shows "kspec E I (kbind (bread 1 n) (\<lambda>b. kbind (kget (buf_data b)) (F b))) (\<lambda>a s. a = r \<and> I s)"
proof (rule kspecI_eq)
  fix s assume "I s"
  from reads [OF assms(1) this] obtain b u t where b: "bread 1 n s = Ret b u" "buf_data b u = V n" "brelse b u = Ret () t" "I t" by blast
  have "kbind (bread 1 n) (\<lambda>b. kbind (kget (buf_data b)) (F b)) s = Ret r t"
    using b assms(2) by (simp add: kbind_eq kget_def kseq_eq kseq_def kbind_def kret_def)
  then show "\<exists>a t. kbind (bread 1 n) (\<lambda>b. kbind (kget (buf_data b)) (F b)) s = Ret a t \<and> a = r \<and> I t" using b(4) by blast
qed

lemma bmap_addr_read:
  assumes "i_addrs (inodes ! ip) ! k \<noteq> 0"
  shows "kspec E I (bmap_addr ip k) (\<lambda>r s. r = i_addrs (inodes ! ip) ! k \<and> I s)"
  unfolding bmap_addr_def
  by (rule kspec_get_bind [where v = "inodes ! ip"]) (use assms inode in \<open>simp_all add: kspec_ret\<close>)

lemma bmap_entry_read:
  assumes "i_dev (inodes ! ip) = 1" "b < dsz" "arr_get 4 un_le32 j (V b) \<noteq> 0"
  shows "kspec E I (bmap_entry ip b j) (\<lambda>r s. r = arr_get 4 un_le32 j (V b) \<and> I s)"
  unfolding bmap_entry_def
proof (rule kspec_get_bind [where v = 1])
  show "i_dev (the_inode ip s) = 1" if "I s" for s using inode [OF that] assms(1) by simp
  let ?F = "\<lambda>bp d. if arr_get 4 un_le32 j d = 0 then kbind (balloc 1) (\<lambda>addr. kseq (set_data bp (arr_put 4 le32 j addr))
      (kseq (log_write bp) (kseq (brelse bp) (kret addr)))) else kseq (brelse bp) (kret (arr_get 4 un_le32 j d))"
  show "kspec E I (kbind (bread 1 b) (\<lambda>bp. kbind (kget (\<lambda>s. arr_get 4 un_le32 j (buf_data bp s))) (\<lambda>addr.
      if addr = 0 then kbind (balloc 1) (\<lambda>addr. kseq (set_data bp (arr_put 4 le32 j addr))
      (kseq (log_write bp) (kseq (brelse bp) (kret addr)))) else kseq (brelse bp) (kret addr))))
      (\<lambda>r s. r = arr_get 4 un_le32 j (V b) \<and> I s)"
    unfolding kget_comp [where f = "arr_get 4 un_le32 j"]
    using peek [OF assms(2), of ?F "arr_get 4 un_le32 j (V b)" E] assms(3) by simp
qed

text \<open>A file whose blocks in a range are all there.\<close>

lemma bmap_read:
  assumes dev: "i_dev (inodes ! ip) = 1" and n: "unat bn < MAXFILE" and as: "as = i_addrs (inodes ! ip)"
    and nz: "\<And>p. p \<in> set (path (unat bn)) \<Longrightarrow> blk V as p \<noteq> 0 \<and> blk V as p < dsz"
  shows "kspec E I (bmap ip bn) (\<lambda>r s. r = blk V as (leaf (unat bn)) \<and> I s)"
proof -
  let ?n = "unat bn"
  have entry: "kspec E I (bmap_entry ip (blk V as q) (slot p)) (\<lambda>r s. r = blk V as p \<and> I s)"
    if "up p = Some q" "p \<in> set (path ?n)" "q \<in> set (path ?n)" for p q
  proof -
    have "blk V as p = arr_get 4 un_le32 (slot p) (V (blk V as q))" using nz [OF that(3)] that(1) by (simp add: blk_up [of _ _ p] entry_def)
    then show ?thesis using bmap_entry_read [OF dev, of "blk V as q" "slot p" E] nz [OF that(2)] nz [OF that(3)] by simp
  qed
  have addr: "kspec E I (bmap_addr ip (slot p)) (\<lambda>r s. r = blk V as p \<and> I s)" if "up p = None" "p \<in> set (path ?n)" for p
    using bmap_addr_read [of ip "slot p" E] nz [OF that(2)] that(1) as by (simp add: blk_up [of _ _ p])
  consider "?n < NDIRECT" | "\<not> ?n < NDIRECT" "?n - NDIRECT < NINDIRECT"
    | "\<not> ?n < NDIRECT" "\<not> ?n - NDIRECT < NINDIRECT" by blast
  then show ?thesis
  proof cases
    case 1
    then show ?thesis using addr [of "Direct ?n"] by (simp add: bmap_def Let_def path_def leaf_def)
  next
    case 2
    let ?p = "Entry (?n - NDIRECT)"
    have l: "path ?n = [Ind, ?p]" "leaf ?n = ?p" using 2 by (simp_all add: path_def leaf_def)
    have "kspec E I (kbind (bmap_addr ip (slot Ind)) (\<lambda>b. bmap_entry ip b (slot ?p))) (\<lambda>r s. r = blk V as ?p \<and> I s)"
    proof (rule kspec_bind [OF addr [of Ind]])
      show "kspec E (\<lambda>s. b = blk V as Ind \<and> I s) (bmap_entry ip b (slot ?p)) (\<lambda>r s. r = blk V as ?p \<and> I s)" for b
        by (rule kspec_pure) (use entry [of ?p Ind] l in \<open>simp del: blk.simps slot.simps\<close>)
    qed (simp_all add: l)
    then show ?thesis using 2 l by (simp add: bmap_def Let_def)
  next
    case 3
    let ?i = "(?n - NDIRECT - NINDIRECT) div NINDIRECT" and ?j = "(?n - NDIRECT - NINDIRECT) mod NINDIRECT"
    have l: "path ?n = [Dind, Dentry ?i, Leaf ?i ?j]" "leaf ?n = Leaf ?i ?j" using 3 by (simp_all add: path_def leaf_def)
    have r: "?n - NDIRECT - NINDIRECT < NINDIRECT * NINDIRECT" using n 3 by simp
    have 2: "kspec E I (kbind (bmap_entry ip (blk V as Dind) (slot (Dentry ?i))) (\<lambda>b. bmap_entry ip b (slot (Leaf ?i ?j))))
        (\<lambda>r s. r = blk V as (Leaf ?i ?j) \<and> I s)"
    proof (rule kspec_bind [OF entry [of "Dentry ?i" Dind]])
      show "kspec E (\<lambda>s. b = blk V as (Dentry ?i) \<and> I s) (bmap_entry ip b (slot (Leaf ?i ?j))) (\<lambda>r s. r = blk V as (Leaf ?i ?j) \<and> I s)" for b
        by (rule kspec_pure) (use entry [of "Leaf ?i ?j" "Dentry ?i"] l in \<open>simp del: blk.simps slot.simps\<close>)
    qed (simp_all add: l)
    have "kspec E I (kbind (bmap_addr ip (slot Dind)) (\<lambda>b. kbind (bmap_entry ip b (slot (Dentry ?i))) (\<lambda>b. bmap_entry ip b (slot (Leaf ?i ?j)))))
        (\<lambda>r s. r = blk V as (Leaf ?i ?j) \<and> I s)"
    proof (rule kspec_bind [OF addr [of Dind]])
      show "kspec E (\<lambda>s. b = blk V as Dind \<and> I s) (kbind (bmap_entry ip b (slot (Dentry ?i))) (\<lambda>b. bmap_entry ip b (slot (Leaf ?i ?j))))
        (\<lambda>r s. r = blk V as (Leaf ?i ?j) \<and> I s)" for b
        by (rule kspec_pure) (use 2 in \<open>simp del: blk.simps slot.simps\<close>)
    qed (simp_all add: l)
    then show ?thesis using 3 r l by (simp add: bmap_def Let_def)
  qed
qed

end

lemma slice_fbyte:
  assumes "blk V as (leaf (off div 512)) \<noteq> 0" "length (V (blk V as (leaf (off div 512)))) = 512" "off mod 512 + m \<le> 512"
  shows "slice (off mod 512) m (V (blk V as (leaf (off div 512)))) = map (fbyte V as) [off..<off + m]"
proof (rule nth_equalityI)
  show "length (slice (off mod 512) m (V (blk V as (leaf (off div 512))))) = length (map (fbyte V as) [off..<off + m])"
    using assms(2,3) by simp
  fix i assume "i < length (slice (off mod 512) m (V (blk V as (leaf (off div 512)))))"
  then have i: "i < m" "off mod 512 + i < 512" using assms(2,3) by simp_all
  have "off + i = off div 512 * 512 + (off mod 512 + i)" by simp
  then have "(off + i) div 512 = off div 512" "(off + i) mod 512 = off mod 512 + i" using i(2) by (metis div_mult_self3 div_less add_0_right mult.commute zero_neq_numeral, metis mod_mult_self3 mod_less)
  then show "slice (off mod 512) m (V (blk V as (leaf (off div 512)))) ! i = map (fbyte V as) [off..<off + m] ! i"
    using i assms by (simp add: fbyte_def fdata_def)
qed

context block_reader
begin

lemma readi_loop_read:
  assumes dev: "i_dev (inodes ! ip) = 1" and as: "as = i_addrs (inodes ! ip)" and sized: "\<And>m. m < dsz \<Longrightarrow> length (V m) = 512"
    and n: "off + n \<le> MAXFILE * BSIZE" and nz: "\<And>p. p \<in> places off n \<Longrightarrow> blk V as p \<noteq> 0 \<and> blk V as p < dsz"
  shows "kspec E I (readi_loop ip off n) (\<lambda>r s. r = map (fbyte V as) [off..<off + n] \<and> I s)"
  using n nz
proof (induction n arbitrary: off rule: less_induct)
  case (less n)
  show ?case
  proof (cases "n = 0")
    case True
    then show ?thesis by (simp add: readi_loop.simps kspec_ret)
  next
    case False
    define m where "m = min n (512 - off mod 512)"
    let ?k = "off div 512" and ?o = "off mod 512"
    let ?b = "blk V as (leaf ?k)"
    have m: "0 < m" "m \<le> n" "?o + m \<le> 512" using False by (auto simp: m_def)
    have "off < MAXFILE * 512" using less.prems(1) False by linarith
    then have k: "?k < MAXFILE" by (simp add: less_mult_imp_div_less)
    have bn: "unat (of_nat ?k :: u32) = ?k" using k by (intro unat_u32) simp
    have nzk: "\<And>p. p \<in> set (path ?k) \<Longrightarrow> blk V as p \<noteq> 0 \<and> blk V as p < dsz" using less.prems(2) places_first [of n off] False by blast
    have "leaf ?k \<in> set (path ?k)" using path_chain(2,3) [of ?k] last_in_set by metis
    then have b: "?b \<noteq> 0" "?b < dsz" using nzk by simp_all
    have rest: "kspec E I (readi_loop ip (off + m) (n - m)) (\<lambda>r s. r = map (fbyte V as) [off + m..<off + n] \<and> I s)"
      using less.IH [of "n - m" "off + m"] m less.prems places_rest [OF m(2), of off] False by auto
    have app: "map (fbyte V as) [off..<off + m] @ map (fbyte V as) [off + m..<off + n] = map (fbyte V as) [off..<off + n]"
      using upt_add_eq_append [of off "off + m" "n - m"] m(2) by (simp flip: map_append)
    have bm: "kspec E I (bmap ip (of_nat ?k)) (\<lambda>r s. r = ?b \<and> I s)"
      using bmap_read [OF dev, of "of_nat ?k" as E] k as nzk unfolding bn by blast
    have rd: "kspec E I (kbind (bread 1 ?b) (\<lambda>bp. kbind (kget (buf_data bp)) (\<lambda>d. kseq (brelse bp) (kret (slice ?o m d)))))
        (\<lambda>r s. r = slice ?o m (V ?b) \<and> I s)" by (rule peek [OF b(2)]) simp
    have sl: "slice ?o m (V ?b) = map (fbyte V as) [off..<off + m]" by (rule slice_fbyte [OF b(1) sized [OF b(2)] m(3)])
    have "kspec E I (kbind (kget (\<lambda>s. i_dev (the_inode ip s))) (\<lambda>dev. kbind (bmap ip (of_nat ?k)) (\<lambda>b.
        kbind (kbind (bread dev b) (\<lambda>bp. kbind (kget (buf_data bp)) (\<lambda>d. kseq (brelse bp) (kret (slice ?o m d)))))
          (\<lambda>d. kbind (readi_loop ip (off + m) (n - m)) (\<lambda>ds. kret (d @ ds))))))
        (\<lambda>r s. r = map (fbyte V as) [off..<off + n] \<and> I s)"
    proof (rule kspec_get_bind [where v = 1])
      show "i_dev (the_inode ip s) = 1" if "I s" for s using inode [OF that] dev by simp
      show "kspec E I (kbind (bmap ip (of_nat ?k)) (\<lambda>b.
        kbind (kbind (bread 1 b) (\<lambda>bp. kbind (kget (buf_data bp)) (\<lambda>d. kseq (brelse bp) (kret (slice ?o m d)))))
          (\<lambda>d. kbind (readi_loop ip (off + m) (n - m)) (\<lambda>ds. kret (d @ ds)))))
        (\<lambda>r s. r = map (fbyte V as) [off..<off + n] \<and> I s)"
      proof (rule kspec_bind [OF bm], rule kspec_pure, simp only:, rule kspec_bind [OF rd], rule kspec_pure, simp only: sl,
          rule kspec_bind [OF rest], rule kspec_pure)
        fix ds assume "ds = map (fbyte V as) [off + m..<off + n]"
        then show "kspec E I (kret (map (fbyte V as) [off..<off + m] @ ds)) (\<lambda>r s. r = map (fbyte V as) [off..<off + n] \<and> I s)"
          using app by (simp add: kspec_ret)
      qed
    qed
    then show ?thesis using False
      by (simp add: readi_loop.simps [of ip off n] Let_def m_def kseq_def kbind_assoc kget_comp [where f = "slice ?o _"])
  qed
qed

lemma readi_read:
  assumes "i_dev (inodes ! ip) = 1" "as = i_addrs (inodes ! ip)" "\<And>m. m < dsz \<Longrightarrow> length (V m) = 512"
    and ty: "i_type (inodes ! ip) \<noteq> T_DEV" and off: "off \<le> i_size (inodes ! ip)" "\<not> off + n < off"
    and k: "k = min (unat n) (unat (i_size (inodes ! ip)) - unat off)" "unat off + k \<le> MAXFILE * BSIZE"
    and nz: "\<And>p. p \<in> places (unat off) k \<Longrightarrow> blk V as p \<noteq> 0 \<and> blk V as p < dsz"
  shows "kspec E I (readi ip off n) (\<lambda>r s. r = (int k, map (fbyte V as) [unat off..<unat off + k]) \<and> I s)"
proof (rule kspecI_eq)
  fix s assume I: "I s"
  note x = inode [OF I]
  let ?n = "if off + n > i_size (inodes ! ip) then i_size (inodes ! ip) - off else n"
  have un: "unat ?n = k"
  proof -
    have "unat (off + n) = unat off + unat n" using off(2) by (simp add: unat_plus_simple [symmetric] word_le_def word_less_def)
    moreover have "unat (i_size (inodes ! ip) - off) = unat (i_size (inodes ! ip)) - unat off" using off(1) by (simp add: unat_sub)
    ultimately show ?thesis using off(1) by (auto simp: k(1) word_less_nat_alt word_le_nat_alt)
  qed
  have sn: "sint ?n = int k"
  proof -
    have "?n = of_nat k" unfolding un [symmetric] by simp
    then show ?thesis using sint_u32 [of k] k(2) by simp
  qed
  have "kspec {} I (readi_loop ip (unat off) (unat ?n)) (\<lambda>r s. r = map (fbyte V as) [unat off..<unat off + k] \<and> I s)"
    unfolding un by (rule readi_loop_read [OF assms(1-3) k(2) nz])
  from kspecD_total [OF this I] obtain t where t: "readi_loop ip (unat off) (unat ?n) s = Ret (map (fbyte V as) [unat off..<unat off + k]) t" "I t" by blast
  have "readi ip off n s = Ret (int k, map (fbyte V as) [unat off..<unat off + k]) t"
    using x ty off(1) [folded not_less] off(2) sn t(1) by (simp add: readi_def Let_def kret_def kbind_def)
  then show "\<exists>a t. readi ip off n s = Ret a t \<and> a = (int k, map (fbyte V as) [unat off..<unat off + k]) \<and> I t" using t(2) by blast
qed

end

text \<open>Both situations in which the kernel reads files meet the contract.\<close>

lemma read_parts:
  assumes "kbind (bread 1 n) (\<lambda>b. kbind (kget (buf_data b)) (\<lambda>d. kseq (brelse b) (kret d))) s = Ret d t"
  shows "\<exists>b u. bread 1 n s = Ret b u \<and> buf_data b u = d \<and> brelse b u = Ret () t"
  using assms by (auto simp: kop_simps split: outcome.splits)

interpretation tx_reader: block_reader "tx s0 V C Map.empty {}" V "disksize s0" "icache s0" for s0 :: "'a cons_state_scheme" and V C
proof
  show "\<exists>b u t. bread 1 n s = Ret b u \<and> buf_data b u = V n \<and> brelse b u = Ret () t \<and> tx s0 V C Map.empty {} t"
    if "n < disksize s0" "tx s0 V C Map.empty {} s" for n s
    using kspecD_total [OF tx_read [OF that(1), of Map.empty "{}" V C "{}" "\<lambda>d. d"] that(2)] read_parts [of n s "V n"] by fastforce
qed (rule tx_icache)

interpretation rest_reader: block_reader "bc s0 V {} Map.empty" V "disksize s0" "icache s0" for s0 :: "'a cons_state_scheme" and V
proof
  show "\<exists>b u t. bread 1 n s = Ret b u \<and> buf_data b u = V n \<and> brelse b u = Ret () t \<and> bc s0 V {} Map.empty t"
    if n: "n < disksize s0" "bc s0 V {} Map.empty s" for n s
  proof -
    have "disk_block (memdisk s0) n = V n" using bc_clean [OF n(2)] n(1) by simp
    then have "kspec {} (bc s0 V {} Map.empty) (kbind (bread 1 n) (\<lambda>b. kbind (kget (buf_data b)) (\<lambda>d. kseq (brelse b) (kret d))))
        (\<lambda>r s. r = V n \<and> bc s0 V {} Map.empty s)"
      using read_block_spec [OF n(1), of Map.empty "{}" V "\<lambda>d. d"] by simp
    from kspecD_total [OF this n(2)] show ?thesis using read_parts [of n s "V n"] by fastforce
  qed
  show "icache s = icache s0" if "bc s0 V {} Map.empty s" for s
    using arg_cong [OF bcD(1) [OF that], of icache] by simp
qed

section \<open>Properties\<close>

text \<open>
  C6: Reading a file. With nothing else in progress, \<^verbatim>\<open>readi\<close> of a file whose blocks up to its size are there returns the
  bytes of the file from the offset on, as many as were asked for and the file has; it changes nothing but the cache. An
  offset beyond the end, or one that overflows with the count, returns \<^verbatim>\<open>-1\<close>.
\<close>

theorem readi_correct:
  fixes s :: "'a cons_state_scheme"
  assumes s: "bc s0 V {} Map.empty s" and f: "file_at sb ip s0" and x: "x = icache s0 ! ip" "i_type x \<noteq> T_DEV"
    and ok: "fsok sb s0 V (i_addrs x)" and sz: "unat (i_size x) \<le> MAXFILE * BSIZE" "\<forall>p \<in> places 0 (unat (i_size x)). blk V (i_addrs x) p \<noteq> 0"
  shows "if off > i_size x \<or> off + n < off then readi ip off n s = Ret (-1, []) s
    else let k = min (unat n) (unat (i_size x) - unat off) in
      \<exists>t. readi ip off n s = Ret (int k, map (fbyte V (i_addrs x)) [unat off..<unat off + k]) t \<and> bc s0 V {} Map.empty t"
proof (cases "off > i_size x \<or> off + n < off")
  case True
  have "icache s = icache s0" by (rule rest_reader.inode [OF s])
  then show ?thesis using True x by (auto simp: readi_def Let_def)
next
  case False
  let ?k = "min (unat n) (unat (i_size x) - unat off)"
  have le: "unat off + ?k \<le> unat (i_size x)" using False by (auto simp: word_less_nat_alt min_def)
  have nz: "blk V (i_addrs x) p \<noteq> 0 \<and> blk V (i_addrs x) p < disksize s0" if p: "p \<in> places (unat off) ?k" for p
  proof -
    obtain i where "i \<in> {unat off..<unat off + ?k}" "p \<in> set (path (i div 512))" using p unfolding places_def by blast
    then have i: "i < unat (i_size x)" "p \<in> set (path (i div 512))" using le by (auto simp del: min_less_iff_conj)
    then have nz: "blk V (i_addrs x) p \<noteq> 0" using sz(2) by (auto simp: places_def)
    have "i < MAXFILE * 512" using i(1) sz(1) by simp
    then have "pos_ok p" using path_ok [OF less_mult_imp_div_less i(2)] by simp
    then have "blk V (i_addrs x) p < sb_size sb" using file_okD(2) nz ok by (auto simp: fsok_def)
    then show ?thesis using nz fs_geom_sizes(4) [of sb s0] ok by (auto simp: fsok_def fs_inv_def)
  qed
  have "kspec {} (bc s0 V {} Map.empty) (readi ip off n) (\<lambda>r s. r = (int ?k, map (fbyte V (i_addrs x)) [unat off..<unat off + ?k]) \<and> bc s0 V {} Map.empty s)"
    by (rule rest_reader.readi_read) (use f x ok sz(1) le False nz in \<open>auto simp: file_at_def fsok_def\<close>)
  from kspecD_total [OF this s] show ?thesis using False by (auto simp: Let_def)
qed

text \<open>
  C3: Writing a file. A write that starts within the file and ends within the largest size a file can have writes exactly
  its bytes: every byte of the range has its new value and every other byte its old one, holes reading as zero; the size
  grows to the end of the range, and the inode on disk follows; blocks of other files are untouched and no block is used
  twice. The transaction needs the file's blocks, the first free blocks and their bitmap blocks, and the inode's block.
  Any other write returns \<^verbatim>\<open>-1\<close> and changes nothing.
\<close>

theorem writei_correct:
  fixes s :: "'a cons_state_scheme"
  assumes t: "tx s0 V C Map.empty {} s" and f: "file_at sb ip s0" and x: "x = icache s0 ! ip" "i_type x \<noteq> T_DEV" "i_inum x < sb_ninodes sb"
    and ok: "fsok sb s0 V (i_addrs x)" and len: "length src < 2 ^ 32"
  shows "if off \<le> i_size x \<and> unat off + length src \<le> MAXFILE * BSIZE
    then cover sb V (i_addrs x) C (places (unat off) (length src)) \<and> IBLOCK (i_inum x) \<in> C \<longrightarrow>
      (\<exists>t V' x'. writei ip src off s = Ret (int (length src)) t \<and> tx (s0\<lparr>icache := (icache s0)[ip := x']\<rparr>) V' C Map.empty {} t \<and>
        x' = x\<lparr>i_addrs := i_addrs x', i_size := max (i_size x) (off + of_nat (length src))\<rparr> \<and> fsok sb s0 V' (i_addrs x') \<and>
        (\<forall>i < MAXFILE * BSIZE. fbyte V' (i_addrs x') i =
          (if unat off \<le> i \<and> i < unat off + length src then src ! (i - unat off) else fbyte V (i_addrs x) i)) \<and>
        (\<forall>n. foreign sb V (i_addrs x) n \<longrightarrow> V' n = V n) \<and>
        (i_size x < i_size x' \<longrightarrow> arr_get 64 dec_dinode (dslot (i_inum x)) (V' (IBLOCK (i_inum x))) = dinode_of x'))
    else writei ip src off s = Ret (-1) s"
proof (cases "off \<le> i_size x \<and> unat off + length src \<le> MAXFILE * BSIZE")
  case True
  then have "\<exists>t V' x'. writei ip src off s = Ret (int (length src)) t \<and> tx (s0\<lparr>icache := (icache s0)[ip := x']\<rparr>) V' C Map.empty {} t \<and>
        x' = x\<lparr>i_addrs := i_addrs x', i_size := max (i_size x) (off + of_nat (length src))\<rparr> \<and> fsok sb s0 V' (i_addrs x') \<and>
        (\<forall>i < MAXFILE * BSIZE. fbyte V' (i_addrs x') i =
          (if unat off \<le> i \<and> i < unat off + length src then src ! (i - unat off) else fbyte V (i_addrs x) i)) \<and>
        (\<forall>n. foreign sb V (i_addrs x) n \<longrightarrow> V' n = V n) \<and>
        (i_size x < i_size x' \<longrightarrow> arr_get 64 dec_dinode (dslot (i_inum x)) (V' (IBLOCK (i_inum x))) = dinode_of x')"
    if "cover sb V (i_addrs x) C (places (unat off) (length src))" "IBLOCK (i_inum x) \<in> C"
    using writei_tx [OF t f x ok that] unfolding keeps_blocks_def by blast
  then show ?thesis unfolding if_P [OF True] by blast
next
  case False
  have ic: "icache s = icache s0" by (rule tx_icache [OF t])
  have u: "unat (of_nat (length src) :: u32) = length src" using len by (intro unat_u32) simp
  have "off + of_nat (length src) > of_nat (MAXFILE * BSIZE)" if "\<not> off > i_size x" "\<not> off + of_nat (length src) < off"
  proof -
    have "unat (off + of_nat (length src)) = unat off + length src" using that(2) unat_plus_simple [of off "of_nat (length src)"] u by (simp add: not_less)
    then show ?thesis using that(1) False by (simp add: word_less_nat_alt word_le_nat_alt)
  qed
  then have "off > i_size x \<or> off + of_nat (length src) < off \<or> off + of_nat (length src) > of_nat (MAXFILE * BSIZE)" by blast
  then show ?thesis using False x(1,2) ic by (auto simp: writei_def Let_def)
qed

text \<open>
  C7: What was written is read back: within the transaction a \<^verbatim>\<open>readi\<close> of the range just written returns the bytes given to
  \<^verbatim>\<open>writei\<close>.
\<close>

theorem writei_readi:
  fixes s :: "'a cons_state_scheme"
  assumes t: "tx s0 V C Map.empty {} s" and f: "file_at sb ip s0" and x: "x = icache s0 ! ip" "i_type x \<noteq> T_DEV" "i_inum x < sb_ninodes sb"
    and ok: "fsok sb s0 V (i_addrs x)" "cover sb V (i_addrs x) C (places (unat off) (length src))" "IBLOCK (i_inum x) \<in> C"
    and off: "off \<le> i_size x" "unat off + length src \<le> MAXFILE * BSIZE"
  shows "\<exists>t u. writei ip src off s = Ret (int (length src)) t \<and> readi ip off (of_nat (length src)) t = Ret (int (length src), src) u"
proof -
  let ?n = "of_nat (length src) :: u32"
  obtain t1 V' x' where w: "writei ip src off s = Ret (int (length src)) t1" "tx (s0\<lparr>icache := (icache s0)[ip := x']\<rparr>) V' C Map.empty {} t1"
    "x' = x\<lparr>i_addrs := i_addrs x', i_size := max (i_size x) (off + ?n)\<rparr>" "fsok sb s0 V' (i_addrs x')"
    "\<forall>p \<in> places (unat off) (length src). blk V' (i_addrs x') p \<noteq> 0"
    "\<forall>i < MAXFILE * BSIZE. fbyte V' (i_addrs x') i = (if unat off \<le> i \<and> i < unat off + length src then src ! (i - unat off) else fbyte V (i_addrs x) i)"
    using writei_tx [OF t f x ok off] by blast
  let ?s1 = "s0\<lparr>icache := (icache s0)[ip := x']\<rparr>"
  have ip: "ip < length (icache s0)" "i_dev x = 1" using f x(1) by (simp_all add: file_at_def)
  have x': "i_dev x' = 1" "i_type x' \<noteq> T_DEV" "i_size x' = max (i_size x) (off + ?n)"
    by (subst w(3), simp add: ip x(2))+
  have u: "unat ?n = length src" using off(2) by (intro unat_u32) simp
  have uo: "unat (off + ?n) = unat off + length src" using off(2) by (simp add: unat_word_ariths u)
  have no: "\<not> off + ?n < off" by (simp add: word_less_nat_alt uo)
  have k: "length src = min (unat ?n) (unat (i_size x') - unat off)"
    unfolding u x'(3) using uo by (auto simp: max_def word_le_nat_alt min_def)
  have nz: "blk V' (i_addrs x') p < disksize s0" if "p \<in> places (unat off) (length src)" for p
  proof -
    have "pos_ok p" using that ok(2) by (simp add: cover_def)
    then show ?thesis using fs_geom_sizes(4) [of sb s0] file_okD(2) [of sb V' "i_addrs x'" p] w(4,5) that by (auto simp: fsok_def fs_inv_def)
  qed
  have "kspec {} (tx ?s1 V' C Map.empty {}) (readi ip off ?n)
      (\<lambda>r s. r = (int (length src), map (fbyte V' (i_addrs x')) [unat off..<unat off + length src]) \<and> tx ?s1 V' C Map.empty {} s)"
    by (rule tx_reader.readi_read)
      (use ip x' off no k w(4,5) nz in \<open>auto simp: fsok_def max_def\<close>)
  from kspecD_total [OF this w(2)] obtain u where "readi ip off ?n t1 = Ret (int (length src), map (fbyte V' (i_addrs x')) [unat off..<unat off + length src]) u"
    by blast
  moreover have "map (fbyte V' (i_addrs x')) [unat off..<unat off + length src] = src"
    using w(6) off(2) by (intro nth_equalityI) simp_all
  ultimately show ?thesis using w(1) by auto
qed

section \<open>A machine with files\<close>

definition fs_machine :: "u8 list list \<Rightarrow> inode list \<Rightarrow> 'a \<Rightarrow> 'a cons_state_scheme" where
  "fs_machine bs xs m = fs_boot bs (icache_state_ext xs (dev_state_ext [] 0xFFFB False 0 (\<lambda>_. 0) None
     (cons_state_ext True False (replicate 2000 0) 0 False [] [] [] 0 0
       \<lparr>in_buf = replicate 128 0, in_r = 0, in_w = 0, in_e = 0\<rparr> (replicate NDEV \<lparr>dev_read = None, dev_write = None\<rparr>) m)))"

lemma icache_more: "log_state.more s = icache_state_ext xs r \<Longrightarrow> icache s = xs"
  by (cases s) simp

lemma fs_machine_tx:
  assumes "\<forall>x \<in> set bs. length x = 512" "length bs < 8388608" "finite C" "card C < 9"
  shows "tx (fs_machine bs xs m) (disk_block (concat bs)) C Map.empty {} (fs_machine bs xs m)" "icache (fs_machine bs xs m) = xs"
    "disksize (fs_machine bs xs m) = of_nat (length bs)" "bc (fs_machine bs xs m) (disk_block (concat bs)) {} Map.empty (fs_machine bs xs m)"
proof -
  show "tx (fs_machine bs xs m) (disk_block (concat bs)) C Map.empty {} (fs_machine bs xs m)"
    "disksize (fs_machine bs xs m) = of_nat (length bs)" unfolding fs_machine_def by (rule fs_boot_tx [OF assms])+
  show "bc (fs_machine bs xs m) (disk_block (concat bs)) {} Map.empty (fs_machine bs xs m)"
    unfolding fs_machine_def fs_boot_def by (rule bio_boot_bc [OF length_concat_blocks [OF assms(1)] assms(2)])
  show "icache (fs_machine bs xs m) = xs"
    unfolding fs_machine_def by (rule icache_more) (rule fs_boot_tx(4) [OF assms])
qed

text \<open>A file of three bytes and an empty one.\<close>

definition mini_file :: inode where
  "mini_file = \<lparr>i_dev = 1, i_inum = 1, i_ref = 1, i_busy = True, i_valid = True, i_type = T_FILE, i_major = 0, i_minor = 0,
     i_nlink = 1, i_size = 3, i_addrs = 4 # replicate 12 0\<rparr>"

definition mini_empty :: inode where
  "mini_empty = mini_file\<lparr>i_size := 0, i_addrs := replicate 13 0\<rparr>"

lemma mini_file_fields [simp]:
  "i_dev mini_file = 1" "i_inum mini_file = 1" "i_type mini_file = T_FILE" "i_size mini_file = 3" "i_addrs mini_file = 4 # replicate 12 0"
  "i_dev mini_empty = 1" "i_inum mini_empty = 1" "i_type mini_empty = T_FILE" "i_size mini_empty = 0" "i_addrs mini_empty = replicate 13 0"
  by (simp_all add: mini_file_def mini_empty_def)

lemma blk_zeros: "pos_ok p \<Longrightarrow> as = replicate 13 0 \<Longrightarrow> blk V as p = 0"
  by (cases p) (simp_all add: entry_def)

lemma blk_one: "pos_ok p \<Longrightarrow> blk V (b # replicate 12 0) p = (if p = Direct 0 then b else 0)"
  by (cases p) (auto simp: entry_def nth_Cons')

lemma mini_files_ok:
  "fsok mini_sb (fs_machine mini_fs xs m) (disk_block (concat mini_fs)) (i_addrs mini_file)"
  "fsok mini_sb (fs_machine mini_fs xs m) (disk_block (concat mini_fs)) (i_addrs mini_empty)"
proof -
  let ?V = "disk_block (concat mini_fs)" and ?s = "fs_machine mini_fs xs m"
  have inv: "fs_inv mini_sb ?V ?s" unfolding fs_machine_def by (rule mini_fs_inv(1))
  have sized: "sized ?s ?V"
    using tx_sized [OF fs_machine_tx(1) [OF mini_fs_blocks(1), of "{}"]] mini_fs_blocks(2) by simp
  have "file_ok mini_sb ?V (replicate 13 0)" using blk_zeros [of _ _ ?V] by (auto simp: file_ok_def)
  then show "fsok mini_sb ?s ?V (i_addrs mini_empty)" using inv sized by (simp add: fsok_def mini_empty_def)
  have "used mini_sb ?V 4"
  proof (rule ccontr)
    assume "\<not> used mini_sb ?V 4"
    then have "4 \<in> set (frees mini_sb ?V)" unfolding frees_props(3) by (simp add: mini_sb_def)
    then show False by (simp add: mini_fs_inv(2))
  qed
  then have "file_ok mini_sb ?V (4 # replicate 12 0)"
    using blk_one [of _ ?V 4] by (auto simp: file_ok_def mini_sb_def meta_def)
  then show "fsok mini_sb ?s ?V (i_addrs mini_file)" using inv sized by (simp add: fsok_def mini_file_def)
qed

lemma places_3: "places 0 3 = {Direct 0}"
  by (auto simp: places_def path_def leaf_def)

theorem readi_correct_witness:
  "\<exists>t. readi 0 1 100 (fs_machine mini_fs [mini_file] ()) = Ret (2, [7, 7]) t"
proof -
  let ?s = "fs_machine mini_fs [mini_file] ()" and ?V = "disk_block (concat mini_fs)"
  note b = fs_machine_tx [OF mini_fs_blocks(1), of "{}" "[mini_file]" "()"]
  have "\<forall>p \<in> places 0 (unat (i_size mini_file)). blk ?V (i_addrs mini_file) p \<noteq> 0" by (simp add: places_3)
  then have "\<exists>t. readi 0 1 100 ?s = Ret (2, map (fbyte ?V (i_addrs mini_file)) [1..<3]) t"
    using readi_correct [of ?s ?V ?s mini_sb 0 mini_file 1 100] b mini_fs_blocks(2) mini_files_ok(1) [of "[mini_file]" "()"]
    by (auto simp: file_at_def Let_def upt_rec)
  moreover have "?V 4 = replicate 512 7" using mini_fs_blocks(3) [of 4] by (simp add: mini_fs_def)
  then have "map (fbyte ?V (i_addrs mini_file)) [1..<3] = [7, 7]" by (simp add: fbyte_def fdata_def leaf_def upt_rec)
  ultimately show ?thesis by simp
qed

lemma mini_cover: "cover mini_sb (disk_block (concat mini_fs)) (i_addrs mini_empty) {2, 3, 5} (places 0 3)"
proof -
  have "BBLOCK 5 2 = 3" by (simp add: BBLOCK_def)
  moreover have "{p. p = Direct 0 \<and> blk (disk_block (concat mini_fs)) (i_addrs mini_empty) p = 0} = {Direct 0}"
    by (auto simp: mini_empty_def)
  ultimately show ?thesis unfolding places_3 cover_def
    using mini_fs_inv(2) by (simp add: mini_sb_def)
qed

theorem writei_correct_witness:
  "\<exists>t. writei 0 [1, 2, 3] 0 (fs_machine mini_fs [mini_empty] ()) = Ret 3 t \<and> i_size (the_inode 0 t) = 3"
proof -
  let ?s = "fs_machine mini_fs [mini_empty] ()" and ?V = "disk_block (concat mini_fs)"
  note b = fs_machine_tx [OF mini_fs_blocks(1), of "{2, 3, 5}" "[mini_empty]" "()"]
  have "IBLOCK 1 = 2" by (simp add: IBLOCK_def)
  then have "\<exists>t V' x'. writei 0 [1, 2, 3] 0 ?s = Ret 3 t \<and> tx (?s\<lparr>icache := [x']\<rparr>) V' {2, 3, 5} Map.empty {} t \<and>
      x' = mini_empty\<lparr>i_addrs := i_addrs x', i_size := 3\<rparr>"
    using writei_correct [of ?s ?V "{2, 3, 5}" ?s mini_sb 0 mini_empty "[1, 2, 3]" 0] b mini_fs_blocks(2)
      mini_files_ok(2) [of "[mini_empty]" "()"] mini_cover [unfolded numeral_3_eq_3]
    by (simp add: file_at_def mini_sb_def) blast
  then obtain t V' x' where t: "writei 0 [1, 2, 3] 0 ?s = Ret 3 t" "tx (?s\<lparr>icache := [x']\<rparr>) V' {2, 3, 5} Map.empty {} t"
    "x' = mini_empty\<lparr>i_addrs := i_addrs x', i_size := 3\<rparr>" by blast
  have "i_size x' = 3" by (subst t(3)) simp
  then show ?thesis using t(1) tx_icache [OF t(2)] by auto
qed

theorem writei_readi_witness:
  "\<exists>t u. writei 0 [1, 2, 3] 0 (fs_machine mini_fs [mini_empty] ()) = Ret 3 t \<and> readi 0 0 3 t = Ret (3, [1, 2, 3]) u"
proof -
  let ?s = "fs_machine mini_fs [mini_empty] ()" and ?V = "disk_block (concat mini_fs)"
  note b = fs_machine_tx [OF mini_fs_blocks(1), of "{2, 3, 5}" "[mini_empty]" "()"]
  have "IBLOCK 1 = 2" by (simp add: IBLOCK_def)
  then show ?thesis
    using writei_readi [of ?s ?V "{2, 3, 5}" ?s mini_sb 0 mini_empty 0 "[1, 2, 3]"] b mini_fs_blocks(2)
      mini_files_ok(2) [of "[mini_empty]" "()"] mini_cover [unfolded numeral_3_eq_3]
    by (simp add: file_at_def mini_sb_def)
qed

end
