(* ===== verification/Sh.thy ===== *)
theory Sh
  imports CString
begin

text \<open>
  The shell's parser (\<^verbatim>\<open>sh.c\<close>): the lexer (\<^verbatim>\<open>gettoken\<close>, \<^verbatim>\<open>peek\<close>), the recursive descent (\<^verbatim>\<open>parsecmd\<close>, \<^verbatim>\<open>parseline\<close>,
  \<^verbatim>\<open>parsepipe\<close>, \<^verbatim>\<open>parseredirs\<close>, \<^verbatim>\<open>parseblock\<close>, \<^verbatim>\<open>parseexec\<close>) and \<^verbatim>\<open>nulterminate\<close>. The line is a buffer \<open>b\<close> of bytes with a
  NUL, and a \<^verbatim>\<open>char*\<close> into it is an index; \<^verbatim>\<open>es\<close> is the index of the NUL. Memory for commands is taken to be available; the
  messages the constructors print are left out.
\<close>

section \<open>Commands\<close>

abbreviation (input) MAXARGS :: nat where "MAXARGS \<equiv> 10"
abbreviation (input) O_RDONLY :: int where "O_RDONLY \<equiv> 0"
abbreviation (input) O_WRONLY :: int where "O_WRONLY \<equiv> 1"
abbreviation (input) O_CREATE :: int where "O_CREATE \<equiv> 0x200"

text \<open>
  A command with its strings of type \<open>'w\<close>: for the parser a string is a pair of indices, the \<^verbatim>\<open>argv[i]\<close>, \<^verbatim>\<open>eargv[i]\<close> and
  \<^verbatim>\<open>file\<close>, \<^verbatim>\<open>efile\<close> of the source.
\<close>

datatype 'w cmd =
    EXEC "'w list"
  | REDIR "'w cmd" 'w int int
  | PIPE "'w cmd" "'w cmd"
  | LIST "'w cmd" "'w cmd"
  | BACK "'w cmd"

section \<open>The lexer\<close>

definition whitespace :: "u8 list" where
  "whitespace = [32, 9, 13, 10, 11, 0]"

definition symbols :: "u8 list" where
  "symbols = [60, 124, 62, 38, 59, 40, 41, 0]"

text \<open>\<^verbatim>\<open>strchr(set, c)\<close> as a condition.\<close>

definition in_chars :: "u8 list \<Rightarrow> u8 \<Rightarrow> bool" where
  "in_chars cs c \<longleftrightarrow> (case strchr cs c of Some (Some _) \<Rightarrow> True | _ \<Rightarrow> False)"

function skip_ws :: "u8 list \<Rightarrow> nat \<Rightarrow> nat \<Rightarrow> nat" where
  "skip_ws b es s = (if s < es \<and> in_chars whitespace (b ! s) then skip_ws b es (s + 1) else s)"
  by auto
termination by (relation "measure (\<lambda>(b, es, s). es - s)") auto

function tok_end :: "u8 list \<Rightarrow> nat \<Rightarrow> nat \<Rightarrow> nat" where
  "tok_end b es s = (if s < es \<and> \<not> in_chars whitespace (b ! s) \<and> \<not> in_chars symbols (b ! s) then tok_end b es (s + 1) else s)"
  by auto
termination by (relation "measure (\<lambda>(b, es, s). es - s)") auto

declare skip_ws.simps [simp del] tok_end.simps [simp del]

text \<open>\<^verbatim>\<open>gettoken\<close> returns the token, the two pointers it stores and the new \<^verbatim>\<open>*ps\<close>.\<close>

definition gettoken :: "u8 list \<Rightarrow> nat \<Rightarrow> nat \<Rightarrow> u8 \<times> nat \<times> nat \<times> nat" where
  "gettoken b es s = (let q = skip_ws b es s; c = b ! q;
     (ret, eq) = (if c = 0 then (0, q)
       else if c \<in> {124, 40, 41, 59, 38, 60} then (c, q + 1)
       else if c = 62 then (if b ! (q + 1) = 62 then (43, q + 2) else (c, q + 1))
       else (97, tok_end b es q))
     in (ret, q, eq, skip_ws b es eq))"

definition peek :: "u8 list \<Rightarrow> nat \<Rightarrow> nat \<Rightarrow> u8 list \<Rightarrow> bool \<times> nat" where
  "peek b es s toks = (let s' = skip_ws b es s in (b ! s' \<noteq> 0 \<and> in_chars toks (b ! s'), s'))"

abbreviation (input) tok_rest :: "u8 \<times> nat \<times> nat \<times> nat \<Rightarrow> nat" where
  "tok_rest t \<equiv> snd (snd (snd t))"

section \<open>Positions\<close>

lemma skip_ws_ge: "s \<le> skip_ws b es s" "s \<le> es \<Longrightarrow> skip_ws b es s \<le> es"
  by (induction b es s rule: skip_ws.induct) (subst skip_ws.simps, auto)+

lemma skip_ws_idem [simp]: "skip_ws b es (skip_ws b es s) = skip_ws b es s"
  by (induction b es s rule: skip_ws.induct) (metis skip_ws.simps)

lemma tok_end_ge: "s \<le> tok_end b es s" "s \<le> es \<Longrightarrow> tok_end b es s \<le> es"
  by (induction b es s rule: tok_end.induct) (subst tok_end.simps, auto)+

lemma in_chars_iff: "in_chars (cs @ [0]) c \<longleftrightarrow> c \<in> set (takeWhile (\<lambda>x. x \<noteq> 0) cs) "
  by (induction cs) (auto simp: in_chars_def)

lemma ws_iff: "in_chars whitespace c \<longleftrightarrow> c \<in> {32, 9, 13, 10, 11}"
  using in_chars_iff [of "[32, 9, 13, 10, 11]" c] by (simp add: whitespace_def)

lemma sym_iff: "in_chars symbols c \<longleftrightarrow> c \<in> {60, 124, 62, 38, 59, 40, 41}"
  using in_chars_iff [of "[60, 124, 62, 38, 59, 40, 41]" c] by (simp add: symbols_def)

lemma skip_ws_stop: "skip_ws b es s < es \<Longrightarrow> \<not> in_chars whitespace (b ! skip_ws b es s)"
  by (induction b es s rule: skip_ws.induct) (metis skip_ws.simps)

text \<open>A line: \<open>es\<close> bytes and the NUL. A token other than the end is read past.\<close>

definition line_buf :: "u8 list \<Rightarrow> nat \<Rightarrow> bool" where
  "line_buf b es \<longleftrightarrow> es < length b \<and> b ! es = 0 \<and> (\<forall>i < es. b ! i \<noteq> 0)"

lemma gettoken_pos:
  assumes "line_buf b es" "s \<le> es" "gettoken b es s = (ret, q, eq, s')"
  shows "s \<le> q" "q \<le> eq" "eq \<le> s'" "s' \<le> es" "ret \<noteq> 0 \<Longrightarrow> s < s'" "ret \<noteq> 0 \<Longrightarrow> q < eq"
proof -
  have q: "q = skip_ws b es s" "s' = skip_ws b es eq" using assms(3) by (auto simp: gettoken_def Let_def split: if_splits)
  have q': "s \<le> q" "q \<le> es" unfolding q(1) using skip_ws_ge [where b = b and es = es and s = s] assms(2) by simp_all
  have "q \<le> eq \<and> eq \<le> es \<and> (ret \<noteq> 0 \<longrightarrow> q < eq)"
  proof (cases "q = es")
    case True
    then show ?thesis using assms(1,3) q by (auto simp: gettoken_def Let_def line_buf_def)
  next
    case False
    then have lt: "q < es" using q' by simp
    have nz: "b ! q \<noteq> 0" using assms(1) lt by (simp add: line_buf_def)
    have nw: "\<not> in_chars whitespace (b ! q)" using skip_ws_stop [of b es s] lt q(1) by simp
    have te: "q \<le> tok_end b es q" "tok_end b es q \<le> es" using tok_end_ge [where b = b and es = es and s = q] lt by simp_all
    have tg: "q < tok_end b es q" if "b ! q \<notin> {60, 124, 62, 38, 59, 40, 41}"
    proof -
      have "tok_end b es q = tok_end b es (q + 1)" using that lt nw by (subst tok_end.simps) (simp add: sym_iff)
      then show ?thesis using tok_end_ge(1) [of "q + 1" b es] by simp
    qed
    have gt: "q + 2 \<le> es" if "b ! (q + 1) = 62" using that lt assms(1) by (cases "q + 1 = es") (auto simp: line_buf_def)
    show ?thesis using assms(3) q lt nz te tg gt by (auto simp: gettoken_def Let_def split: if_splits)
  qed
  then show "s \<le> q" "q \<le> eq" "eq \<le> s'" "s' \<le> es" "ret \<noteq> 0 \<Longrightarrow> s < s'" "ret \<noteq> 0 \<Longrightarrow> q < eq"
    using q' q(2) skip_ws_ge [where b = b and es = es and s = eq] by auto
qed

section \<open>The parser\<close>

text \<open>
  A parsing routine returns a command and the new \<^verbatim>\<open>*ps\<close>, panics, or runs out of the fuel that bounds its loops and
  recursion.
\<close>

datatype 'a pres = POk 'a nat | PPanic string | PFuel

definition pbind :: "'a pres \<Rightarrow> ('a \<Rightarrow> nat \<Rightarrow> 'b pres) \<Rightarrow> 'b pres" where
  "pbind m f = (case m of POk a s \<Rightarrow> f a s | PPanic e \<Rightarrow> PPanic e | PFuel \<Rightarrow> PFuel)"

type_synonym pcmd = "(nat \<times> nat) cmd"

fun parseredirs :: "nat \<Rightarrow> u8 list \<Rightarrow> nat \<Rightarrow> pcmd \<Rightarrow> nat \<Rightarrow> pcmd pres" where
  "parseredirs 0 b es c s = PFuel"
| "parseredirs (Suc n) b es c s =
     (let (p, s) = peek b es s [60, 62, 0] in
      if \<not> p then POk c s
      else let (tok, _, _, s) = gettoken b es s; (tok', q, eq, s) = gettoken b es s in
        if tok' \<noteq> 97 then PPanic ''missing file for redirection''
        else parseredirs n b es
          (if tok = 60 then REDIR c (q, eq) O_RDONLY 0
           else if tok = 62 then REDIR c (q, eq) (O_WRONLY + O_CREATE) 1
           else if tok = 43 then REDIR c (q, eq) (O_WRONLY + O_CREATE) 1
           else c) s)"

text \<open>The \<^verbatim>\<open>while\<close> of \<^verbatim>\<open>parseline\<close>.\<close>

fun parsebacks :: "nat \<Rightarrow> u8 list \<Rightarrow> nat \<Rightarrow> pcmd \<Rightarrow> nat \<Rightarrow> pcmd pres" where
  "parsebacks 0 b es c s = PFuel"
| "parsebacks (Suc n) b es c s =
     (let (p, s) = peek b es s [38, 0] in
      if \<not> p then POk c s
      else parsebacks n b es (BACK c) (tok_rest (gettoken b es s)))"

text \<open>
  \<^verbatim>\<open>parseexec\<close> stores the arguments into the \<^verbatim>\<open>execcmd\<close> it has allocated, which by then may be wrapped in redirections:
  \<open>fill_exec\<close> is the effect of these stores seen through \<^verbatim>\<open>ret\<close>.
\<close>

fun fill_exec :: "'w list \<Rightarrow> 'w cmd \<Rightarrow> 'w cmd" where
  "fill_exec args (EXEC _) = EXEC args"
| "fill_exec args (REDIR c f m d) = REDIR (fill_exec args c) f m d"
| "fill_exec args c = c"

fun exec_args :: "nat \<Rightarrow> u8 list \<Rightarrow> nat \<Rightarrow> (nat \<times> nat) list \<Rightarrow> pcmd \<Rightarrow> nat \<Rightarrow> pcmd pres" where
  "exec_args 0 b es args ret s = PFuel"
| "exec_args (Suc n) b es args ret s =
     (let (p, s) = peek b es s [124, 41, 38, 59, 0] in
      if p then POk (fill_exec args ret) s
      else let (tok, q, eq, s) = gettoken b es s in
        if tok = 0 then POk (fill_exec args ret) s
        else if tok \<noteq> 97 then PPanic ''syntax''
        else let args = args @ [(q, eq)] in
          if length args \<ge> MAXARGS then PPanic ''too many args''
          else pbind (parseredirs (Suc n) b es ret s) (exec_args n b es args))"

function (sequential) parseline :: "nat \<Rightarrow> u8 list \<Rightarrow> nat \<Rightarrow> nat \<Rightarrow> pcmd pres"
  and parsepipe :: "nat \<Rightarrow> u8 list \<Rightarrow> nat \<Rightarrow> nat \<Rightarrow> pcmd pres"
  and parseblock :: "nat \<Rightarrow> u8 list \<Rightarrow> nat \<Rightarrow> nat \<Rightarrow> pcmd pres"
  and parseexec :: "nat \<Rightarrow> u8 list \<Rightarrow> nat \<Rightarrow> nat \<Rightarrow> pcmd pres" where
  "parseline 0 b es s = PFuel"
| "parseline (Suc n) b es s =
     pbind (parsepipe n b es s) (\<lambda>c s. pbind (parsebacks n b es c s) (\<lambda>c s.
       let (p, s) = peek b es s [59, 0] in
       if p then pbind (parseline n b es (tok_rest (gettoken b es s))) (\<lambda>r s. POk (LIST c r) s)
       else POk c s))"
| "parsepipe 0 b es s = PFuel"
| "parsepipe (Suc n) b es s =
     pbind (parseexec n b es s) (\<lambda>c s.
       let (p, s) = peek b es s [124, 0] in
       if p then pbind (parsepipe n b es (tok_rest (gettoken b es s))) (\<lambda>r s. POk (PIPE c r) s)
       else POk c s)"
| "parseblock 0 b es s = PFuel"
| "parseblock (Suc n) b es s =
     (let (p, s) = peek b es s [40, 0] in
      if \<not> p then PPanic ''parseblock''
      else pbind (parseline n b es (tok_rest (gettoken b es s))) (\<lambda>c s.
        let (p, s) = peek b es s [41, 0] in
        if \<not> p then PPanic ''syntax - missing )''
        else parseredirs n b es c (tok_rest (gettoken b es s))))"
| "parseexec 0 b es s = PFuel"
| "parseexec (Suc n) b es s =
     (let (p, s) = peek b es s [40, 0] in
      if p then parseblock n b es s
      else pbind (parseredirs n b es (EXEC []) s) (exec_args n b es []))"
  by pat_completeness auto
termination
  by (relation "measure (case_sum (case_sum fst fst) (case_sum fst fst))") simp_all

fun nulterminate :: "pcmd \<Rightarrow> u8 list \<Rightarrow> u8 list" where
  "nulterminate (EXEC args) b = fold (\<lambda>(q, eq) b. b[eq := 0]) args b"
| "nulterminate (REDIR c f m d) b = (nulterminate c b)[snd f := 0]"
| "nulterminate (PIPE l r) b = nulterminate r (nulterminate l b)"
| "nulterminate (LIST l r) b = nulterminate r (nulterminate l b)"
| "nulterminate (BACK c) b = nulterminate c b"

text \<open>\<^verbatim>\<open>parsecmd\<close> returns the command together with the buffer \<^verbatim>\<open>nulterminate\<close> leaves; \<open>4 * (es + 1)\<close> is enough fuel. A buffer without
  a NUL, which \<^verbatim>\<open>strlen\<close> would read past, is given an outcome of its own.\<close>

definition parsecmd :: "u8 list \<Rightarrow> (pcmd \<times> u8 list) pres" where
  "parsecmd b = (case strlen b of None \<Rightarrow> PPanic ''read past the buffer''
     | Some es \<Rightarrow> pbind (parseline (4 * (es + 1)) b es 0) (\<lambda>c s.
         let (_, s) = peek b es s [0] in
         if s \<noteq> es then PPanic ''syntax'' else POk (c, nulterminate c b) s))"

section \<open>Termination\<close>

text \<open>What each routine promises of its result: it has not run out of fuel, and it has not read past the line.\<close>

definition within :: "nat \<Rightarrow> nat \<Rightarrow> 'a pres \<Rightarrow> bool" where
  "within lo hi r \<longleftrightarrow> (case r of POk a s \<Rightarrow> lo \<le> s \<and> s \<le> hi | PPanic e \<Rightarrow> True | PFuel \<Rightarrow> False)"

lemma within_simps [simp]: "within lo hi (POk a s) \<longleftrightarrow> lo \<le> s \<and> s \<le> hi" "within lo hi (PPanic e)" "\<not> within lo hi PFuel"
  by (simp_all add: within_def)

lemma within_bind:
  assumes "within lo hi m" "\<And>a s. m = POk a s \<Longrightarrow> lo \<le> s \<Longrightarrow> s \<le> hi \<Longrightarrow> within lo hi (f a s)"
  shows "within lo hi (pbind m f)"
  using assms by (cases m) (auto simp: pbind_def)

lemma within_weaken: "within lo' hi r \<Longrightarrow> lo \<le> lo' \<Longrightarrow> within lo hi r"
  by (cases r) auto

lemma peek_pos:
  assumes "line_buf b es" "s \<le> es" "peek b es s ts = (p, s')"
  shows "s \<le> s'" "s' \<le> es" "p \<Longrightarrow> gettoken b es s' = (tok, q, eq, s2) \<Longrightarrow> tok \<noteq> 0" "s' = skip_ws b es s"
proof -
  have s': "s' = skip_ws b es s" "p \<longleftrightarrow> b ! s' \<noteq> 0 \<and> in_chars ts (b ! s')" using assms(3) by (auto simp: peek_def Let_def)
  show "s \<le> s'" "s' \<le> es" "s' = skip_ws b es s" using skip_ws_ge [where b = b and es = es and s = s] assms(2) s' by auto
  show "tok \<noteq> 0" if "p" "gettoken b es s' = (tok, q, eq, s2)"
    using that s' by (auto simp: gettoken_def Let_def split: if_splits)
qed

lemma parseredirs_within:
  assumes "line_buf b es" "s \<le> es" "es - s < n"
  shows "within s es (parseredirs n b es c s)"
  using assms(2,3)
proof (induction n arbitrary: c s)
  case (Suc n)
  obtain p s1 where pk: "peek b es s [60, 62, 0] = (p, s1)" by fastforce
  obtain tok q eq s2 where t1: "gettoken b es s1 = (tok, q, eq, s2)" by (metis prod_cases4)
  obtain tok' q' eq' s3 where t2: "gettoken b es s2 = (tok', q', eq', s3)" by (metis prod_cases4)
  note p = peek_pos [OF assms(1) Suc.prems(1) pk]
  note g1 = gettoken_pos [OF assms(1) p(2) t1]
  note g2 = gettoken_pos [OF assms(1) g1(4) t2]
  show ?case
  proof (cases "p \<and> tok' = 97")
    case True
    then have "s < s3" "s3 \<le> es" using p(1) p(3) [OF _ t1] g1 g2 by auto
    then have "within s es (parseredirs n b es c s3)" for c
      using within_weaken [OF Suc.IH [of s3 c]] Suc.prems by simp
    then show ?thesis using True pk t1 t2 by (simp add: Let_def)
  next
    case False
    then show ?thesis using pk t1 t2 p(1,2) by (auto simp: Let_def)
  qed
qed simp

lemma parsebacks_within:
  assumes "line_buf b es" "s \<le> es" "es - s < n"
  shows "within s es (parsebacks n b es c s)"
  using assms(2,3)
proof (induction n arbitrary: c s)
  case (Suc n)
  obtain p s1 where pk: "peek b es s [38, 0] = (p, s1)" by fastforce
  obtain tok q eq s2 where t1: "gettoken b es s1 = (tok, q, eq, s2)" by (metis prod_cases4)
  note p = peek_pos [OF assms(1) Suc.prems(1) pk]
  note g1 = gettoken_pos [OF assms(1) p(2) t1]
  show ?case
  proof (cases p)
    case True
    then have "s < s2" "s2 \<le> es" using p(1) p(3) [OF _ t1] g1 by auto
    then have "within s es (parsebacks n b es c s2)" for c
      using within_weaken [OF Suc.IH [of s2 c]] Suc.prems by simp
    then show ?thesis using True pk t1 by (simp add: Let_def)
  next
    case False
    then show ?thesis using pk p(1,2) by (auto simp: Let_def)
  qed
qed simp

lemma exec_args_within:
  assumes "line_buf b es" "s \<le> es" "es - s < n"
  shows "within s es (exec_args n b es args ret s)"
  using assms(2,3)
proof (induction n arbitrary: args ret s)
  case (Suc n)
  obtain p s1 where pk: "peek b es s [124, 41, 38, 59, 0] = (p, s1)" by fastforce
  obtain tok q eq s2 where t1: "gettoken b es s1 = (tok, q, eq, s2)" by (metis prod_cases4)
  note p = peek_pos [OF assms(1) Suc.prems(1) pk]
  note g1 = gettoken_pos [OF assms(1) p(2) t1]
  show ?case
  proof (cases "\<not> p \<and> tok = 97 \<and> length args + 1 < MAXARGS")
    case True
    then have s2: "s < s2" "s2 \<le> es" using p(1) g1 by auto
    have "within s es (pbind (parseredirs (Suc n) b es ret s2) (exec_args n b es (args @ [(q, eq)])))"
    proof (rule within_bind)
      show "within s es (parseredirs (Suc n) b es ret s2)"
        using within_weaken [OF parseredirs_within [OF assms(1) s2(2), of "Suc n" ret], of s] Suc.prems s2 by (simp del: parseredirs.simps)
      show "within s es (exec_args n b es (args @ [(q, eq)]) a s')" if "parseredirs (Suc n) b es ret s2 = POk a s'" "s \<le> s'" "s' \<le> es" for a s'
      proof -
        have "s2 \<le> s'" using parseredirs_within [OF assms(1) s2(2), of "Suc n" ret] Suc.prems s2 that(1) by (simp del: parseredirs.simps)
        then show ?thesis using within_weaken [OF Suc.IH [of s' "args @ [(q, eq)]" a], of s] that Suc.prems s2 by simp
      qed
    qed
    then show ?thesis using True pk t1 by (simp add: Let_def del: parseredirs.simps)
  next
    case False
    then show ?thesis using pk t1 p(1,2) g1 by (auto simp: Let_def simp del: parseredirs.simps)
  qed
qed simp

text \<open>The fuel each routine needs for the rest of the line.\<close>

lemma parse_within:
  assumes b: "line_buf b es"
  shows "s \<le> es \<Longrightarrow> 4 * (es - s) + 4 \<le> n \<Longrightarrow> within s es (parseline n b es s)"
    and "s \<le> es \<Longrightarrow> 4 * (es - s) + 3 \<le> n \<Longrightarrow> within s es (parsepipe n b es s)"
    and "s \<le> es \<Longrightarrow> 4 * (es - s) + 1 \<le> n \<Longrightarrow> within s es (parseblock n b es s)"
    and "s \<le> es \<Longrightarrow> 4 * (es - s) + 2 \<le> n \<Longrightarrow> within s es (parseexec n b es s)"
proof (induction n arbitrary: s)
  case 0
  { case 1 then show ?case by simp next case 2 then show ?case by simp next case 3 then show ?case by simp next case 4 then show ?case by simp }
next
  case (Suc n)
  have step: "s < s3 \<and> s3 \<le> es" if h: "peek b es s1 ts = (True, s2)" "gettoken b es s2 = (tok, q, eq, s3)" "s \<le> s1" "s1 \<le> es" for s s1 s2 s3 ts tok q eq
  proof -
    note p = peek_pos [OF b h(4,1)]
    have "tok \<noteq> 0" by (rule p(3) [OF TrueI h(2)])
    then show ?thesis using p(1) gettoken_pos(4,5) [OF b p(2) h(2)] h(3) by simp
  qed
  { case 1
    show ?case unfolding parseline.simps
    proof (intro within_bind)
      show "within s es (parsepipe n b es s)" using Suc.IH(2) 1 by simp
      fix c s1 assume s1: "s \<le> s1" "s1 \<le> es"
      show "within s es (parsebacks n b es c s1)"
        using within_weaken [OF parsebacks_within [OF b s1(2), of n c] s1(1)] 1 s1 by simp
      fix c' s2 assume s2: "s \<le> s2" "s2 \<le> es"
      obtain p s3 where pk: "peek b es s2 [59, 0] = (p, s3)" by fastforce
      obtain tok q eq s4 where t: "gettoken b es s3 = (tok, q, eq, s4)" by (metis prod_cases4)
      show "within s es (let (p, s) = peek b es s2 [59, 0] in if p then pbind (parseline n b es (tok_rest (gettoken b es s))) (\<lambda>r s. POk (LIST c' r) s) else POk c' s)"
      proof (cases p)
        case True
        then have s4: "s < s4" "s4 \<le> es" using step [OF _ t s2] pk by auto
        have "within s es (parseline n b es s4)" using within_weaken [OF Suc.IH(1) [of s4], of s] s4 1 by simp
        then show ?thesis using True pk t by (auto intro!: within_bind simp: Let_def)
      next
        case False
        then show ?thesis using pk peek_pos(1,2) [OF b s2(2) pk] s2 by simp
      qed
    qed
  next case 2
    show ?case unfolding parsepipe.simps
    proof (intro within_bind)
      show "within s es (parseexec n b es s)" using Suc.IH(4) 2 by simp
      fix c s2 assume s2: "s \<le> s2" "s2 \<le> es"
      obtain p s3 where pk: "peek b es s2 [124, 0] = (p, s3)" by fastforce
      obtain tok q eq s4 where t: "gettoken b es s3 = (tok, q, eq, s4)" by (metis prod_cases4)
      show "within s es (let (p, s) = peek b es s2 [124, 0] in if p then pbind (parsepipe n b es (tok_rest (gettoken b es s))) (\<lambda>r s. POk (PIPE c r) s) else POk c s)"
      proof (cases p)
        case True
        then have s4: "s < s4" "s4 \<le> es" using step [OF _ t s2] pk by auto
        have "within s es (parsepipe n b es s4)" using within_weaken [OF Suc.IH(2) [of s4], of s] s4 2 by simp
        then show ?thesis using True pk t by (auto intro!: within_bind simp: Let_def)
      next
        case False
        then show ?thesis using pk peek_pos(1,2) [OF b s2(2) pk] s2 by simp
      qed
    qed
  next case 3
    obtain p s1 where pk: "peek b es s [40, 0] = (p, s1)" by fastforce
    obtain tok q eq s2 where t: "gettoken b es s1 = (tok, q, eq, s2)" by (metis prod_cases4)
    show ?case
    proof (cases p)
      case True
      then have s2: "s < s2" "s2 \<le> es" using step [OF _ t, of s] pk 3 by auto
      have "within s es (pbind (parseline n b es s2) (\<lambda>c s. let (p, s) = peek b es s [41, 0] in
        if \<not> p then PPanic ''syntax - missing )'' else parseredirs n b es c (tok_rest (gettoken b es s))))"
      proof (rule within_bind)
        show "within s es (parseline n b es s2)" using within_weaken [OF Suc.IH(1) [of s2], of s] s2 3 by simp
        fix c s3 assume s3: "s \<le> s3" "s3 \<le> es"
        obtain p s4 where pk: "peek b es s3 [41, 0] = (p, s4)" by fastforce
        obtain tok q eq s5 where t: "gettoken b es s4 = (tok, q, eq, s5)" by (metis prod_cases4)
        show "within s es (let (p, s) = peek b es s3 [41, 0] in
          if \<not> p then PPanic ''syntax - missing )'' else parseredirs n b es c (tok_rest (gettoken b es s)))"
        proof (cases p)
          case True
          then have s5: "s < s5" "s5 \<le> es" using step [OF _ t s3] pk by auto
          have "within s es (parseredirs n b es c s5)"
            using within_weaken [OF parseredirs_within [OF b s5(2), of n c], of s] s5 3 by simp
          then show ?thesis using True pk t by (simp add: Let_def)
        qed (use pk in simp)
      qed
      then show ?thesis using True pk t by (simp add: Let_def)
    qed (use pk in simp)
  next case 4
    obtain p s1 where pk: "peek b es s [40, 0] = (p, s1)" by fastforce
    note s1 = peek_pos(1,2) [OF b 4(1) pk]
    show ?case
    proof (cases p)
      case True
      then have "within s es (parseblock n b es s1)" using within_weaken [OF Suc.IH(3) [of s1], of s] s1 4 by simp
      then show ?thesis using True pk by simp
    next
      case False
      have "within s es (pbind (parseredirs n b es (EXEC []) s1) (exec_args n b es []))"
      proof (rule within_bind)
        show "within s es (parseredirs n b es (EXEC []) s1)"
          using within_weaken [OF parseredirs_within [OF b s1(2), of n "EXEC []"], of s] s1 4 by simp
        show "within s es (exec_args n b es [] c s2)" if "s \<le> s2" "s2 \<le> es" for c s2
          using within_weaken [OF exec_args_within [OF b that(2), of n "[]" c], of s] that 4 by simp
      qed
      then show ?thesis using False pk by simp
    qed }
qed

section \<open>Well-formed commands\<close>

definition wordchar :: "u8 \<Rightarrow> bool" where
  "wordchar c \<longleftrightarrow> c \<noteq> 0 \<and> \<not> in_chars whitespace c \<and> \<not> in_chars symbols c"

text \<open>A word of the line: a maximal run of word characters.\<close>

definition word_at :: "u8 list \<Rightarrow> nat \<Rightarrow> nat \<times> nat \<Rightarrow> bool" where
  "word_at b es = (\<lambda>(q, e). q < e \<and> e \<le> es \<and> (\<forall>i. q \<le> i \<longrightarrow> i < e \<longrightarrow> wordchar (b ! i)) \<and> \<not> wordchar (b ! e))"

definition redir_ok :: "int \<Rightarrow> int \<Rightarrow> bool" where
  "redir_ok m d \<longleftrightarrow> m = O_RDONLY \<and> d = 0 \<or> m = O_WRONLY + O_CREATE \<and> d = 1"

fun cmd_ok :: "('w \<Rightarrow> bool) \<Rightarrow> 'w cmd \<Rightarrow> bool" where
  "cmd_ok Q (EXEC ws) = (length ws < MAXARGS \<and> list_all Q ws)"
| "cmd_ok Q (REDIR c w m d) = (cmd_ok Q c \<and> Q w \<and> redir_ok m d)"
| "cmd_ok Q (PIPE l r) = (cmd_ok Q l \<and> cmd_ok Q r)"
| "cmd_ok Q (LIST l r) = (cmd_ok Q l \<and> cmd_ok Q r)"
| "cmd_ok Q (BACK c) = cmd_ok Q c"

lemma tok_end_word:
  assumes "line_buf b es"
  shows "s \<le> i \<Longrightarrow> i < tok_end b es s \<Longrightarrow> wordchar (b ! i)" "s \<le> es \<Longrightarrow> \<not> wordchar (b ! tok_end b es s)"
  using assms
proof (induction b es s rule: tok_end.induct)
  case (1 b es s)
  { case 1
    show ?case
    proof (cases "s < es \<and> \<not> in_chars whitespace (b ! s) \<and> \<not> in_chars symbols (b ! s)")
      case True
      then have "tok_end b es s = tok_end b es (s + 1)" by (subst tok_end.simps) simp
      then show ?thesis using "1.IH"(1) [OF True] 1 True by (cases "i = s") (auto simp: wordchar_def line_buf_def)
    next
      case False
      then have "tok_end b es s = s" by (subst tok_end.simps) (subst if_not_P, simp_all)
      then show ?thesis using 1 by simp
    qed
  next case 2
    show ?case
    proof (cases "s < es \<and> \<not> in_chars whitespace (b ! s) \<and> \<not> in_chars symbols (b ! s)")
      case True
      then have "tok_end b es s = tok_end b es (s + 1)" by (subst tok_end.simps) simp
      then show ?thesis using "1.IH"(2) [OF True] 2 True by simp
    next
      case False
      then have "tok_end b es s = s" by (subst tok_end.simps) (subst if_not_P, simp_all)
      then show ?thesis using 2 False by (cases "s = es") (auto simp: wordchar_def line_buf_def)
    qed }
qed

lemma gettoken_word:
  assumes "line_buf b es" "s \<le> es" "gettoken b es s = (97, q, e, s')"
  shows "word_at b es (q, e)"
proof -
  have q: "q = skip_ws b es s" "e = tok_end b es q" "b ! q \<noteq> 0"
    using assms(3) by (auto simp: gettoken_def Let_def split: if_splits)
  have "q \<le> es" unfolding q(1) by (rule skip_ws_ge(2) [OF assms(2)])
  moreover have "q < e" using gettoken_pos(6) [OF assms] by simp
  ultimately show ?thesis
    using tok_end_word [OF assms(1), of q] tok_end_ge(2) [of q es b] q(2) by (auto simp: word_at_def)
qed

lemma parseredirs_ok:
  assumes "line_buf b es"
  shows "parseredirs n b es c s = POk c' s' \<Longrightarrow> s \<le> es \<Longrightarrow> cmd_ok (word_at b es) c \<Longrightarrow> cmd_ok (word_at b es) c' \<and> s' \<le> es"
proof (induction n arbitrary: c s)
  case (Suc n)
  obtain p s1 where pk: "peek b es s [60, 62, 0] = (p, s1)" by fastforce
  obtain tok q eq s2 where t1: "gettoken b es s1 = (tok, q, eq, s2)" by (metis prod_cases4)
  obtain tok' q' eq' s3 where t2: "gettoken b es s2 = (tok', q', eq', s3)" by (metis prod_cases4)
  note p = peek_pos [OF assms Suc.prems(2) pk]
  note g1 = gettoken_pos [OF assms p(2) t1]
  note g2 = gettoken_pos [OF assms g1(4) t2]
  show ?case
  proof (cases p)
    case True
    then have t: "tok' = 97" using Suc.prems(1) pk t1 t2 by (auto simp: Let_def split: if_splits)
    let ?c = "if tok = 60 then REDIR c (q', eq') O_RDONLY 0 else if tok = 62 then REDIR c (q', eq') (O_WRONLY + O_CREATE) 1
        else if tok = 43 then REDIR c (q', eq') (O_WRONLY + O_CREATE) 1 else c"
    have "parseredirs n b es ?c s3 = POk c' s'" using Suc.prems(1) True pk t1 t2 t by (simp add: Let_def)
    moreover have "cmd_ok (word_at b es) ?c"
      using gettoken_word [OF assms g1(4) t2 [unfolded t]] Suc.prems(3) by (simp add: redir_ok_def)
    ultimately show ?thesis using Suc.IH [OF _ g2(4)] by blast
  next
    case False
    then show ?thesis using Suc.prems pk p by simp
  qed
qed simp

lemma parsebacks_ok:
  assumes "line_buf b es"
  shows "parsebacks n b es c s = POk c' s' \<Longrightarrow> s \<le> es \<Longrightarrow> cmd_ok Q c \<Longrightarrow> cmd_ok Q c' \<and> s' \<le> es"
proof (induction n arbitrary: c s)
  case (Suc n)
  obtain p s1 where pk: "peek b es s [38, 0] = (p, s1)" by fastforce
  obtain tok q eq s2 where t1: "gettoken b es s1 = (tok, q, eq, s2)" by (metis prod_cases4)
  note p = peek_pos [OF assms Suc.prems(2) pk]
  note g1 = gettoken_pos [OF assms p(2) t1]
  show ?case using Suc pk t1 p(2) g1(4) by (auto simp: Let_def split: if_splits)
qed simp

lemma fill_exec_ok:
  "cmd_ok Q c \<Longrightarrow> length args < MAXARGS \<Longrightarrow> list_all Q args \<Longrightarrow> cmd_ok Q (fill_exec args c)"
  by (induction args c rule: fill_exec.induct) auto

lemma exec_args_ok:
  assumes "line_buf b es"
  shows "exec_args n b es args ret s = POk c' s' \<Longrightarrow> s \<le> es \<Longrightarrow> cmd_ok (word_at b es) ret \<Longrightarrow> length args < MAXARGS \<Longrightarrow>
    list_all (word_at b es) args \<Longrightarrow> cmd_ok (word_at b es) c' \<and> s' \<le> es"
proof (induction n arbitrary: args ret s)
  case (Suc n)
  obtain p s1 where pk: "peek b es s [124, 41, 38, 59, 0] = (p, s1)" by fastforce
  obtain tok q eq s2 where t1: "gettoken b es s1 = (tok, q, eq, s2)" by (metis prod_cases4)
  note p = peek_pos [OF assms Suc.prems(2) pk]
  note g1 = gettoken_pos [OF assms p(2) t1]
  show ?case
  proof (cases "\<not> p \<and> tok \<noteq> 0")
    case True
    then have t: "tok = 97" "length args + 1 < MAXARGS" "pbind (parseredirs (Suc n) b es ret s2) (exec_args n b es (args @ [(q, eq)])) = POk c' s'"
      using Suc.prems(1) pk t1 by (auto simp: Let_def simp del: parseredirs.simps split: if_splits)
    then obtain ret' s3 where r: "parseredirs (Suc n) b es ret s2 = POk ret' s3" "exec_args n b es (args @ [(q, eq)]) ret' s3 = POk c' s'"
      by (cases "parseredirs (Suc n) b es ret s2") (auto simp: pbind_def)
    note ok = parseredirs_ok [OF assms r(1) g1(4) Suc.prems(3)]
    show ?thesis by (rule Suc.IH [OF r(2)]) (use ok t gettoken_word [OF assms p(2) t1 [unfolded t(1)]] Suc.prems(5) in simp_all)
  next
    case False
    then show ?thesis using Suc.prems pk t1 p(2) g1(4) fill_exec_ok [of "word_at b es" ret args]
      by (auto simp: Let_def simp del: parseredirs.simps split: if_splits)
  qed
qed simp

lemma pbind_POk: "pbind m f = POk c s \<longleftrightarrow> (\<exists>a t. m = POk a t \<and> f a t = POk c s)"
  by (cases m) (auto simp: pbind_def)

lemma parse_ok:
  assumes b: "line_buf b es"
  shows "parseline n b es s = POk c s' \<Longrightarrow> s \<le> es \<Longrightarrow> cmd_ok (word_at b es) c \<and> s' \<le> es"
    and "parsepipe n b es s = POk c s' \<Longrightarrow> s \<le> es \<Longrightarrow> cmd_ok (word_at b es) c \<and> s' \<le> es"
    and "parseblock n b es s = POk c s' \<Longrightarrow> s \<le> es \<Longrightarrow> cmd_ok (word_at b es) c \<and> s' \<le> es"
    and "parseexec n b es s = POk c s' \<Longrightarrow> s \<le> es \<Longrightarrow> cmd_ok (word_at b es) c \<and> s' \<le> es"
proof (induction n arbitrary: s s' c)
  case 0
  { case 1 then show ?case by simp next case 2 then show ?case by simp next case 3 then show ?case by simp next case 4 then show ?case by simp }
next
  case (Suc n)
  have step: "s2 \<le> es \<and> tok_rest (gettoken b es s2) \<le> es" if "peek b es s1 ts = (p, s2)" "s1 \<le> es" for s1 s2 ts p
  proof -
    have "s2 \<le> es" by (rule peek_pos(2) [OF b that(2,1)])
    then show ?thesis using gettoken_pos(4) [OF b] by (metis prod.collapse)
  qed
  { case 1
    then obtain c1 s1 c2 s2 where h0: "parsepipe n b es s = POk c1 s1" "parsebacks n b es c1 s1 = POk c2 s2"
      "(let (p, s) = peek b es s2 [59, 0] in if p then pbind (parseline n b es (tok_rest (gettoken b es s))) (\<lambda>r s. POk (LIST c2 r) s) else POk c2 s) = POk c s'"
      by (simp add: pbind_POk) blast
    obtain p s3 where pk: "peek b es s2 [59, 0] = (p, s3)" by fastforce
    have h: "parsepipe n b es s = POk c1 s1" "parsebacks n b es c1 s1 = POk c2 s2" "peek b es s2 [59, 0] = (p, s3)"
      "(if p then pbind (parseline n b es (tok_rest (gettoken b es s3))) (\<lambda>r s. POk (LIST c2 r) s) else POk c2 s3) = POk c s'"
      using h0 pk by simp_all
    have 1: "cmd_ok (word_at b es) c1" "s1 \<le> es" using Suc.IH(2) [OF h(1) 1(2)] by simp_all
    have 2: "cmd_ok (word_at b es) c2" "s2 \<le> es" using parsebacks_ok [OF b h(2) 1(2,1)] by simp_all
    note st = step [OF h(3) 2(2)]
    show ?case
    proof (cases p)
      case True
      then obtain r where "parseline n b es (tok_rest (gettoken b es s3)) = POk r s'" "c = LIST c2 r" using h(4) by (auto simp: pbind_POk)
      then show ?thesis using Suc.IH(1) st 2(1) by simp
    qed (use h(4) 2(1) st in simp)
  next case 2
    then obtain c1 s1 where h0: "parseexec n b es s = POk c1 s1"
      "(let (p, s) = peek b es s1 [124, 0] in if p then pbind (parsepipe n b es (tok_rest (gettoken b es s))) (\<lambda>r s. POk (PIPE c1 r) s) else POk c1 s) = POk c s'"
      by (simp add: pbind_POk) blast
    obtain p s2 where pk: "peek b es s1 [124, 0] = (p, s2)" by fastforce
    have h: "parseexec n b es s = POk c1 s1" "peek b es s1 [124, 0] = (p, s2)"
      "(if p then pbind (parsepipe n b es (tok_rest (gettoken b es s2))) (\<lambda>r s. POk (PIPE c1 r) s) else POk c1 s2) = POk c s'"
      using h0 pk by simp_all
    have 1: "cmd_ok (word_at b es) c1" "s1 \<le> es" using Suc.IH(4) [OF h(1) 2(2)] by simp_all
    note st = step [OF h(2) 1(2)]
    show ?case
    proof (cases p)
      case True
      then obtain r where "parsepipe n b es (tok_rest (gettoken b es s2)) = POk r s'" "c = PIPE c1 r" using h(3) by (auto simp: pbind_POk)
      then show ?thesis using Suc.IH(2) st 1(1) by simp
    qed (use h(3) 1(1) st in simp)
  next case 3
    obtain p s1 where pk: "peek b es s [40, 0] = (p, s1)" by fastforce
    with 3 obtain c1 s2 where h0: "parseline n b es (tok_rest (gettoken b es s1)) = POk c1 s2"
      "(let (p, s) = peek b es s2 [41, 0] in if \<not> p then PPanic ''syntax - missing )'' else parseredirs n b es c1 (tok_rest (gettoken b es s))) = POk c s'"
      by (auto simp: pbind_POk split: if_splits)
    obtain p' s3 where pk': "peek b es s2 [41, 0] = (p', s3)" by fastforce
    have h: "peek b es s [40, 0] = (p, s1)" "parseline n b es (tok_rest (gettoken b es s1)) = POk c1 s2"
      "peek b es s2 [41, 0] = (p', s3)" "parseredirs n b es c1 (tok_rest (gettoken b es s3)) = POk c s'"
      using pk h0 pk' by (auto split: if_splits)
    have 1: "cmd_ok (word_at b es) c1" "s2 \<le> es" using Suc.IH(1) [OF h(2)] step [OF h(1) 3(2)] by simp_all
    show ?case using parseredirs_ok [OF b h(4)] step [OF h(3) 1(2)] 1(1) by simp
  next case 4
    obtain p s1 where pk: "peek b es s [40, 0] = (p, s1)" by fastforce
    note st = step [OF pk 4(2)]
    show ?case
    proof (cases p)
      case True
      then show ?thesis using 4(1) pk Suc.IH(3) st by simp
    next
      case False
      then obtain c1 s2 where h: "parseredirs n b es (EXEC []) s1 = POk c1 s2" "exec_args n b es [] c1 s2 = POk c s'"
        using 4(1) pk by (auto simp: pbind_POk)
      then show ?thesis using parseredirs_ok [OF b h(1)] exec_args_ok [OF b h(2)] st by simp
    qed }
qed

section \<open>The terminated strings\<close>

lemma nul_fold:
  "length (fold (\<lambda>(q, e) b. b[e := 0]) ws b) = length b"
  "i < length b \<Longrightarrow> fold (\<lambda>(q, e) b. b[e := 0]) ws b ! i = (if i \<in> snd ` set ws then 0 else b ! i)"
  by (induction ws arbitrary: b) (auto simp: nth_list_update image_iff Bex_def)

lemma nulterminate_length: "length (nulterminate c b) = length b"
  by (induction c arbitrary: b) (auto simp: nul_fold)

lemma nulterminate_nth: "i < length b \<Longrightarrow> nulterminate c b ! i = (if i \<in> snd ` set_cmd c then 0 else b ! i)"
proof (induction c arbitrary: b)
  case (REDIR c f m d)
  then show ?case by (cases "i = snd f") (auto simp: nulterminate_length)
qed (auto simp: nul_fold nulterminate_length)

lemma cmd_ok_words: "cmd_ok Q c \<Longrightarrow> w \<in> set_cmd c \<Longrightarrow> Q w"
  by (induction c) (auto simp: list_all_iff)

lemma cstr_drop:
  assumes "e < length b" "b ! e = 0" "\<And>i. q \<le> i \<Longrightarrow> i < e \<Longrightarrow> b ! i \<noteq> 0" "q \<le> e"
  shows "cstr (drop q b) = slice q (e - q) b"
  using assms
proof (induction "e - q" arbitrary: q)
  case 0
  then have "q = e" by simp
  then have "drop q b = 0 # drop (Suc q) b" using 0 Cons_nth_drop_Suc [of q b] by simp
  then show ?case using \<open>q = e\<close> by (simp add: slice_def)
next
  case (Suc k)
  then have q: "q < e" "b ! q \<noteq> 0" by simp_all
  have d: "drop q b = b ! q # drop (Suc q) b" using q(1) Suc.prems(1) Cons_nth_drop_Suc [of q b] by simp
  have "cstr (drop (Suc q) b) = slice (Suc q) (e - Suc q) b" using Suc by simp
  moreover have "e - q = Suc (e - Suc q)" using q(1) by simp
  ultimately show ?case using q(2) by (simp add: slice_def d)
qed

lemma nulterminate_word:
  assumes b: "line_buf b es" and c: "cmd_ok (word_at b es) c" and w: "(q, e) \<in> set_cmd c"
  shows "cstr (drop q (nulterminate c b)) = slice q (e - q) b"
proof -
  have at: "q < e" "e \<le> es" "\<And>i. q \<le> i \<Longrightarrow> i < e \<Longrightarrow> wordchar (b ! i)" using cmd_ok_words [OF c w] by (auto simp: word_at_def)
  have len: "es < length b" using b by (simp add: line_buf_def)
  have keep: "nulterminate c b ! i = b ! i" if "q \<le> i" "i < e" for i
  proof -
    have "\<not> wordchar (b ! i)" if "i \<in> snd ` set_cmd c" using that cmd_ok_words [OF c] by (auto simp: word_at_def)
    then have "i \<notin> snd ` set_cmd c" using at(3) [OF that] by blast
    then show ?thesis using nulterminate_nth [of i b c] that at(2) len by simp
  qed
  have "cstr (drop q (nulterminate c b)) = slice q (e - q) (nulterminate c b)"
  proof (rule cstr_drop)
    show "e < length (nulterminate c b)" using at(2) len by (simp add: nulterminate_length)
    have "e \<in> snd ` set_cmd c" using w by force
    then show "nulterminate c b ! e = 0" using nulterminate_nth [of e b c] at(2) len by simp
    show "nulterminate c b ! i \<noteq> 0" if "q \<le> i" "i < e" for i using keep [OF that] at(3) [OF that] by (simp add: wordchar_def)
  qed (use at in simp)
  also have "\<dots> = slice q (e - q) b"
    using at len keep by (intro nth_equalityI) (simp_all add: nulterminate_length)
  finally show ?thesis .
qed

section \<open>Properties\<close>

lemma strlen_line: "strlen b = Some es \<longleftrightarrow> line_buf b es"
proof
  assume "strlen b = Some es"
  then show "line_buf b es"
  proof (induction b arbitrary: es)
    case (Cons c b)
    show ?case
    proof (cases "c = 0")
      case False
      then obtain k where "strlen b = Some k" "es = Suc k" using Cons.prems by auto
      then show ?thesis using Cons.IH False by (auto simp: line_buf_def nth_Cons split: nat.splits)
    qed (use Cons.prems in \<open>simp add: line_buf_def\<close>)
  qed simp
next
  assume "line_buf b es"
  then show "strlen b = Some es"
  proof (induction b arbitrary: es)
    case (Cons c b)
    show ?case
    proof (cases es)
      case (Suc k)
      have "c \<noteq> 0" using Cons.prems Suc by (auto simp: line_buf_def)
      moreover have "line_buf b k" using Cons.prems Suc by (auto simp: line_buf_def)
      ultimately show ?thesis using Cons.IH Suc by simp
    qed (use Cons.prems in \<open>simp add: line_buf_def\<close>)
  qed (simp add: line_buf_def)
qed

text \<open>
  C29: Parsing ends. On every NUL-terminated line the parser either returns having read exactly the line, or panics; its
  loops and mutual recursion never run on.
\<close>

theorem parsecmd_terminates:
  assumes "0 \<in> set b"
  shows "(\<exists>c b'. parsecmd b = POk (c, b') (length (cstr b))) \<or> (\<exists>e. parsecmd b = PPanic e)"
proof -
  obtain es where es: "strlen b = Some es" "es = length (cstr b)" using assms by (simp add: strlen_eq)
  have lb: "line_buf b es" using es(1) strlen_line by blast
  have "within 0 es (parseline (4 * (es + 1)) b es 0)" by (rule parse_within(1) [OF lb]) simp_all
  then consider c s where "parseline (4 * (es + 1)) b es 0 = POk c s" | e where "parseline (4 * (es + 1)) b es 0 = PPanic e"
    by (cases "parseline (4 * (es + 1)) b es 0") auto
  then show ?thesis
    by cases (auto simp: parsecmd_def es(1) pbind_def es(2) [symmetric] simp del: parseline.simps split: prod.splits)
qed

theorem parsecmd_terminates_witness:
  "(\<exists>c b'. parsecmd [97, 0] = POk (c, b') 1) \<or> (\<exists>e. parsecmd [97, 0] = PPanic e)"
  using parsecmd_terminates [of "[97, 0]"] by simp

lemma parsecmd_ok:
  assumes "parsecmd b = POk (c, b') s"
  shows "\<exists>es. strlen b = Some es \<and> s = es \<and> cmd_ok (word_at b es) c \<and> length b' = length b \<and>
    (\<forall>(q, e) \<in> set_cmd c. cstr (drop q b') = slice q (e - q) b)"
proof -
  obtain es where es: "strlen b = Some es" using assms by (auto simp: parsecmd_def split: option.splits)
  have lb: "line_buf b es" using es strlen_line by blast
  obtain c1 s1 where h: "parseline (4 * (es + 1)) b es 0 = POk c1 s1"
      "(let (_, s) = peek b es s1 [0] in if s \<noteq> es then PPanic ''syntax'' else POk (c1, nulterminate c1 b) s) = POk (c, b') s"
    using assms by (auto simp: parsecmd_def es pbind_POk simp del: parseline.simps)
  then have p: "parseline (4 * (es + 1)) b es 0 = POk c s1" "b' = nulterminate c b" "s = es"
    by (cases "peek b es s1 [0]", auto simp del: parseline.simps split: if_splits)+
  have ok: "cmd_ok (word_at b es) c" using parse_ok(1) [OF lb p(1)] by simp
  then show ?thesis using es p nulterminate_word [OF lb ok] nulterminate_length [of c b] by auto
qed

text \<open>
  C30: What the parser returns is well formed: fewer than \<^verbatim>\<open>MAXARGS\<close> arguments, redirections of standard input for reading or
  standard output for writing and creating only, and every string a word of the line; after \<^verbatim>\<open>nulterminate\<close> the string at
  its pointer is exactly that word.
\<close>

theorem parsecmd_type:
  assumes "parsecmd b = POk (c, b') s"
  shows "\<exists>es. strlen b = Some es \<and> s = es \<and> cmd_ok (word_at b es) c \<and> length b' = length b \<and>
    (\<forall>(q, e) \<in> set_cmd c. cstr (drop q b') = slice q (e - q) b)"
  by (rule parsecmd_ok [OF assms])

section \<open>Printing commands\<close>

text \<open>
  A command printed with one blank before every token. The level says where it stands: in a line, before \<^verbatim>\<open>&\<close>, in a pipe,
  or as a simple command; a command that does not fit its level is put in parentheses.
\<close>

definition paren :: "bool \<Rightarrow> u8 list \<Rightarrow> u8 list" where
  "paren p t = (if p then [32, 40] @ t @ [32, 41] else t)"

definition show_word :: "u8 list \<Rightarrow> u8 list" where
  "show_word w = 32 # w"

definition show_redir :: "u8 list \<times> int \<times> int \<Rightarrow> u8 list" where
  "show_redir = (\<lambda>(w, m, d). (if m = O_RDONLY then [32, 60] else [32, 62]) @ show_word w)"

fun render :: "u8 list cmd \<Rightarrow> nat \<Rightarrow> u8 list" where
  "render (EXEC ws) l = concat (map show_word ws)"
| "render (REDIR c w m d) l = render c 3 @ show_redir (w, m, d)"
| "render (PIPE a r) l = paren (l > 2) (render a 3 @ [32, 124] @ render r 2)"
| "render (BACK c) l = paren (l > 1) (render c 1 @ [32, 38])"
| "render (LIST a r) l = paren (l > 0) (render a 1 @ [32, 59] @ render r 0)"

definition good_word :: "u8 list \<Rightarrow> bool" where
  "good_word w \<longleftrightarrow> w \<noteq> [] \<and> list_all wordchar w"

text \<open>The unread part of the line and its next character that is not a blank.\<close>

definition rest :: "u8 list \<Rightarrow> nat \<Rightarrow> nat \<Rightarrow> u8 list" where
  "rest b es s = drop s (take es b)"

definition nx :: "u8 list \<Rightarrow> nat \<Rightarrow> nat \<Rightarrow> u8" where
  "nx b es s = b ! skip_ws b es s"

lemma rest_Cons:
  assumes "line_buf b es" "rest b es s = c # t"
  shows "s < es" "b ! s = c" "rest b es (s + 1) = t"
proof -
  have "s < length (take es b)" using assms(2) by (cases "s < length (take es b)") (auto simp: rest_def)
  then show s: "s < es" by simp
  have "drop s (take es b) = take es b ! s # drop (Suc s) (take es b)"
    using s assms(1) by (intro Cons_nth_drop_Suc [symmetric]) (simp add: line_buf_def)
  then show "b ! s = c" "rest b es (s + 1) = t" using assms(2) s by (simp_all add: rest_def)
qed

lemma rest_append:
  assumes "rest b es s = u @ t"
  shows "rest b es (s + length u) = t"
proof -
  have "rest b es (s + length u) = drop (length u) (rest b es s)" by (simp add: rest_def add.commute)
  then show ?thesis using assms by simp
qed

lemma rest_le:
  assumes "line_buf b es" "rest b es s = u @ t" "s \<le> es"
  shows "s + length u \<le> es"
proof -
  have "length (rest b es s) = es - s" using assms(1) by (simp add: rest_def line_buf_def)
  then show ?thesis using assms(2,3) by simp
qed

lemma skip_blank: "line_buf b es \<Longrightarrow> rest b es s = 32 # t \<Longrightarrow> skip_ws b es s = skip_ws b es (s + 1)"
  using rest_Cons [of b es s 32 t] by (subst skip_ws.simps) (simp add: ws_iff)

lemma skip_stay: "line_buf b es \<Longrightarrow> rest b es s = c # t \<Longrightarrow> \<not> in_chars whitespace c \<Longrightarrow> skip_ws b es s = s"
  using rest_Cons [of b es s c t] by (subst skip_ws.simps) simp

lemma skip_token: "line_buf b es \<Longrightarrow> rest b es s = 32 # c # t \<Longrightarrow> \<not> in_chars whitespace c \<Longrightarrow> skip_ws b es s = s + 1 \<and> b ! (s + 1) = c \<and> rest b es (s + 1) = c # t"
  using skip_blank [of b es s "c # t"] rest_Cons(3) [of b es s 32 "c # t"] skip_stay [of b es "s + 1" c t] rest_Cons(2) [of b es "s + 1" c t] by simp

lemma gettoken_skip [simp]: "gettoken b es (skip_ws b es s) = gettoken b es s"
  by (simp add: gettoken_def)

lemma peek_skip [simp]: "peek b es (skip_ws b es s) ts = peek b es s ts"
  by (simp add: peek_def)

lemma nx_skip [simp]: "nx b es (skip_ws b es s) = nx b es s"
  by (simp add: nx_def)

lemma peek_nx: "peek b es s ts = (nx b es s \<noteq> 0 \<and> in_chars ts (nx b es s), skip_ws b es s)"
  by (simp add: peek_def nx_def Let_def)

lemma nx_token: "line_buf b es \<Longrightarrow> rest b es s = 32 # c # t \<Longrightarrow> \<not> in_chars whitespace c \<Longrightarrow> nx b es s = c"
  using skip_token [of b es s c t] by (simp add: nx_def)

lemma gettoken_symbol:
  assumes "line_buf b es" "rest b es s = 32 # c # t" "c \<in> {124, 40, 41, 59, 38, 60}"
  shows "gettoken b es s = (c, s + 1, s + 2, skip_ws b es (s + 2))"
  using skip_token [OF assms(1,2)] assms(3) by (auto simp: gettoken_def Let_def ws_iff)

lemma gettoken_gt:
  assumes "line_buf b es" "rest b es s = 32 # 62 # 32 # t"
  shows "gettoken b es s = (62, s + 1, s + 2, skip_ws b es (s + 2))"
proof -
  note k = skip_token [OF assms(1,2)]
  then have "rest b es (s + 1) = 62 # 32 # t" by (simp add: ws_iff)
  from rest_Cons(3) [OF assms(1) this] have "b ! (s + 2) = 32" using rest_Cons(2) [OF assms(1), of "s + 2" 32 t] by simp
  then show ?thesis using k by (auto simp: gettoken_def Let_def ws_iff)
qed

lemma tok_end_append:
  assumes "line_buf b es" "rest b es s = w @ t" "list_all wordchar w" "t = [] \<or> \<not> wordchar (hd t)" "s \<le> es"
  shows "tok_end b es s = s + length w"
  using assms(2,3,5)
proof (induction w arbitrary: s)
  case Nil
  show ?case
  proof (cases t)
    case Nil
    then have "s = es" using \<open>rest b es s = [] @ t\<close> \<open>s \<le> es\<close> assms(1) by (simp add: rest_def line_buf_def)
    then show ?thesis by (subst tok_end.simps) simp
  next
    case (Cons c u)
    then have "\<not> wordchar c" "b ! s = c" "s < es" using assms(4) rest_Cons [OF assms(1), of s c u] \<open>rest b es s = [] @ t\<close> by simp_all
    moreover have "c \<noteq> 0" using \<open>b ! s = c\<close> \<open>s < es\<close> assms(1) by (auto simp: line_buf_def)
    ultimately show ?thesis by (subst tok_end.simps) (auto simp: wordchar_def)
  qed
next
  case (Cons c w)
  then have c: "s < es" "b ! s = c" "rest b es (s + 1) = w @ t" using rest_Cons [OF assms(1), of s c "w @ t"] by simp_all
  then have "tok_end b es s = tok_end b es (s + 1)" using Cons.prems by (subst tok_end.simps) (simp add: wordchar_def)
  then show ?case using Cons.IH [OF c(3)] Cons.prems c(1) by simp
qed

lemma gettoken_word_at:
  assumes b: "line_buf b es" and r: "rest b es s = show_word w @ t" and w: "good_word w" and t: "t = [] \<or> \<not> wordchar (hd t)"
  shows "gettoken b es s = (97, s + 1, s + 1 + length w, skip_ws b es (s + length (show_word w)))"
    "slice (s + 1) (length w) b = w"
proof -
  obtain c v where cv: "w = c # v" "wordchar c" using w by (cases w) (auto simp: good_word_def)
  have k: "skip_ws b es s = s + 1" "b ! (s + 1) = c" "rest b es (s + 1) = w @ t"
    using skip_token [OF b, of s c "v @ t"] r cv by (auto simp: show_word_def wordchar_def)
  have "s + 1 \<le> es" using rest_Cons(1) [OF b, of s 32 "w @ t"] r by (simp add: show_word_def)
  then have "tok_end b es (s + 1) = s + 1 + length w" using tok_end_append [OF b k(3) _ t] w by (simp add: good_word_def)
  then show "gettoken b es s = (97, s + 1, s + 1 + length w, skip_ws b es (s + length (show_word w)))"
    using k cv(2) by (auto simp: gettoken_def Let_def wordchar_def sym_iff show_word_def)
  have "take (length w) (rest b es (s + 1)) = w" using k(3) by simp
  moreover have "take (length w) (drop (s + 1) (take es b)) = take (length w) (drop (s + 1) b)"
  proof -
    have "length w \<le> es - (s + 1)" using rest_le [OF b k(3) \<open>s + 1 \<le> es\<close>] by simp
    then show ?thesis by (simp add: drop_take min_def)
  qed
  ultimately show "slice (s + 1) (length w) b = w" by (simp add: rest_def slice_def)
qed

section \<open>Reading back\<close>

abbreviation (input) text_of :: "u8 list \<Rightarrow> nat \<times> nat \<Rightarrow> u8 list" where
  "text_of b \<equiv> \<lambda>(q, e). slice q (e - q) b"

definition blank_start :: "u8 list \<Rightarrow> bool" where
  "blank_start t \<longleftrightarrow> t = [] \<or> hd t = 32"

lemma blank_start_append: "blank_start t \<Longrightarrow> blank_start (concat (map show_word ws) @ t)" "blank_start t \<Longrightarrow> blank_start (concat (map show_redir rs) @ t)"
  by (cases ws; simp add: blank_start_def show_word_def) (cases rs; auto simp: blank_start_def show_redir_def split: if_splits)

lemma blank_start_word: "blank_start t \<Longrightarrow> t = [] \<or> \<not> wordchar (hd t)"
  by (auto simp: blank_start_def wordchar_def ws_iff)

text \<open>A simple command or block with its redirections.\<close>

definition wraps :: "('w \<times> int \<times> int) list \<Rightarrow> 'w cmd \<Rightarrow> 'w cmd" where
  "wraps rs c = fold (\<lambda>(w, m, d) c. REDIR c w m d) rs c"

lemma wraps_simps [simp]: "wraps [] c = c" "wraps ((w, m, d) # rs) c = wraps rs (REDIR c w m d)" "wraps (rs @ [(w, m, d)]) c = REDIR (wraps rs c) w m d"
  by (simp_all add: wraps_def)

lemma wraps_fill: "fill_exec args (wraps rs c) = wraps rs (fill_exec args c)"
  by (induction rs arbitrary: c) auto

lemma wraps_map: "map_cmd f (wraps rs c) = wraps (map (\<lambda>(w, m, d). (f w, m, d)) rs) (map_cmd f c)"
  by (induction rs arbitrary: c) auto

lemma wraps_append: "wraps (rs @ rs') c = wraps rs' (wraps rs c)"
  by (simp add: wraps_def)

definition redirs_ok :: "(u8 list \<times> int \<times> int) list \<Rightarrow> bool" where
  "redirs_ok rs \<longleftrightarrow> list_all (\<lambda>(w, m, d). good_word w \<and> redir_ok m d) rs"

lemma parse_skip [simp]:
  "parseredirs n b es c (skip_ws b es s) = parseredirs n b es c s" "parsebacks n b es c (skip_ws b es s) = parsebacks n b es c s"
  "exec_args n b es args c (skip_ws b es s) = exec_args n b es args c s"
  by (cases n; simp)+

lemma parseredirs_reads:
  assumes b: "line_buf b es"
  shows "rest b es s = concat (map show_redir rs) @ t \<Longrightarrow> blank_start t \<Longrightarrow> redirs_ok rs \<Longrightarrow>
    nx b es (s + length (concat (map show_redir rs))) \<notin> {60, 62} \<Longrightarrow> length rs < n \<Longrightarrow>
    \<exists>rs'. map (\<lambda>(p, m, d). (text_of b p, m, d)) rs' = rs \<and>
      (\<forall>c. parseredirs n b es c s = POk (wraps rs' c) (skip_ws b es (s + length (concat (map show_redir rs)))))"
proof (induction rs arbitrary: s n)
  case Nil
  obtain k where "n = Suc k" using Nil.prems(5) by (cases n) auto
  then show ?case using Nil.prems(4) in_chars_iff [of "[60, 62]" "nx b es s"] by (auto simp: peek_nx)
next
  case (Cons r rs)
  obtain w m d where r: "r = (w, m, d)" by (metis prod_cases3)
  have ok: "good_word w" "redir_ok m d" "redirs_ok rs" using Cons.prems(3) r by (simp_all add: redirs_ok_def)
  obtain k where n: "n = Suc k" "length rs < k" using Cons.prems(5) by (cases n) auto
  define op :: u8 where "op = (if m = O_RDONLY then 60 else 62)"
  let ?u = "concat (map show_redir rs) @ t"
  have sr: "show_redir r = [32, op] @ show_word w" by (simp add: r show_redir_def op_def)
  have r1: "rest b es s = 32 # op # 32 # w @ ?u" using Cons.prems(1) sr by (simp add: show_word_def)
  have r2: "rest b es (s + 2) = show_word w @ ?u" using rest_append [of b es s "[32, op]"] r1 by (simp add: show_word_def)
  have r3: "rest b es (s + length (show_redir r)) = ?u" using rest_append [of b es "s + 2" "show_word w"] r2 sr by simp
  have op: "op \<in> {60, 62}" by (simp add: op_def)
  have p: "peek b es s [60, 62, 0] = (True, skip_ws b es s)"
    using nx_token [OF b r1] op in_chars_iff [of "[60, 62]" op] by (auto simp: peek_nx ws_iff)
  have g1: "gettoken b es s = (op, s + 1, s + 2, skip_ws b es (s + 2))"
    using gettoken_symbol [OF b r1] gettoken_gt [OF b, of s "w @ ?u"] r1 op by auto
  have sl: "s + 2 + length (show_word w) = s + length (show_redir r)" by (simp add: sr)
  note g2 = gettoken_word_at [OF b r2 ok(1) blank_start_word [OF blank_start_append(2) [OF Cons.prems(2)]], unfolded sl]
  have len: "s + length (show_redir r) + length (concat (map show_redir rs)) = s + length (concat (map show_redir (r # rs)))" by simp
  obtain rs' where rs': "map (\<lambda>(p, m, d). (text_of b p, m, d)) rs' = rs"
      "\<And>c. parseredirs k b es c (s + length (show_redir r)) = POk (wraps rs' c) (skip_ws b es (s + length (concat (map show_redir (r # rs)))))"
    using Cons.IH [OF r3 Cons.prems(2) ok(3) _ n(2)] Cons.prems(4) unfolding len by blast
  let ?p = "(s + 2 + 1, s + 2 + 1 + length w)"
  have "parseredirs n b es c s = POk (wraps ((?p, m, d) # rs') c) (skip_ws b es (s + length (concat (map show_redir (r # rs)))))" for c
    using p g1 g2(1) rs'(2) ok(2) unfolding n(1) by (auto simp: redir_ok_def op_def Let_def)
  moreover have "map (\<lambda>(p, m, d). (text_of b p, m, d)) ((?p, m, d) # rs') = r # rs" using rs'(1) g2(2) r by simp
  ultimately show ?case by (intro exI [of _ "(?p, m, d) # rs'"] conjI allI)
qed

text \<open>The characters that may follow a simple command.\<close>

lemma exec_args_end:
  assumes "line_buf b es" "nx b es s \<in> {0, 124, 41, 38, 59}" "0 < n"
  shows "exec_args n b es args ret s = POk (fill_exec args ret) (skip_ws b es s)"
proof -
  obtain k where n: "n = Suc k" using assms(3) by (cases n) auto
  show ?thesis
  proof (cases "nx b es s = 0")
    case True
    then have "gettoken b es s = (0, skip_ws b es s, skip_ws b es s, skip_ws b es s)" by (simp add: gettoken_def nx_def Let_def)
    then show ?thesis using True n by (simp add: peek_nx Let_def)
  next
    case False
    then show ?thesis using assms(2) n in_chars_iff [of "[124, 41, 38, 59]" "nx b es s"] by (auto simp: peek_nx Let_def)
  qed
qed

lemma exec_args_reads:
  assumes b: "line_buf b es"
  shows "rest b es s = concat (map show_word ws) @ concat (map show_redir rs) @ t \<Longrightarrow> blank_start t \<Longrightarrow> list_all good_word ws \<Longrightarrow>
    redirs_ok rs \<Longrightarrow> nx b es (s + length (concat (map show_word ws) @ concat (map show_redir rs))) \<in> {0, 124, 41, 38, 59} \<Longrightarrow>
    length args + length ws < MAXARGS \<Longrightarrow> (ws = [] \<Longrightarrow> rs = []) \<Longrightarrow> length ws + length rs < n \<Longrightarrow>
    \<exists>ws' rs'. map (text_of b) ws' = ws \<and> map (\<lambda>(p, m, d). (text_of b p, m, d)) rs' = rs \<and>
      exec_args n b es args ret s = POk (fill_exec (args @ ws') (wraps rs' ret))
        (skip_ws b es (s + length (concat (map show_word ws) @ concat (map show_redir rs))))"
proof (induction ws arbitrary: s n args ret)
  case Nil
  then show ?case using exec_args_end [OF b, of s n args ret] by auto
next
  case (Cons w ws)
  obtain k where n: "n = Suc k" using Cons.prems(8) by (cases n) auto
  let ?R = "concat (map show_redir rs)" and ?W = "concat (map show_word ws)"
  define s1 where "s1 = s + length (show_word w)"
  have w: "good_word w" using Cons.prems(3) by simp
  have r: "rest b es s = show_word w @ (?W @ ?R @ t)" using Cons.prems(1) by simp
  have r1: "rest b es s1 = ?W @ ?R @ t" unfolding s1_def by (rule rest_append [OF r])
  have bs: "blank_start (?R @ t)" "blank_start (?W @ ?R @ t)" using blank_start_append Cons.prems(2) by blast+
  note g = gettoken_word_at [OF b r w blank_start_word [OF bs(2)], folded s1_def]
  obtain c v where cv: "w = c # v" "wordchar c" using w by (cases w) (auto simp: good_word_def)
  have "nx b es s = c" using nx_token [OF b, of s c "v @ ?W @ ?R @ t"] r cv by (simp add: show_word_def wordchar_def)
  then have p: "peek b es s [124, 41, 38, 59, 0] = (False, skip_ws b es s)"
    using cv(2) in_chars_iff [of "[124, 41, 38, 59]" c] by (auto simp: peek_nx wordchar_def sym_iff)
  let ?p = "(s + 1, s + 1 + length w)"
  have step: "exec_args n b es args ret s = pbind (parseredirs n b es ret s1) (exec_args k b es (args @ [?p]))"
    using p g(1) Cons.prems(6) unfolding n by (simp add: Let_def del: parseredirs.simps)
  have len: "s1 + length (?W @ ?R) = s + length (concat (map show_word (w # ws)) @ ?R)" by (simp add: s1_def)
  show ?case
  proof (cases "ws = []")
    case True
    have fin: "nx b es (s1 + length ?R) \<in> {0, 124, 41, 38, 59}" using Cons.prems(5) True by (simp add: s1_def add.assoc)
    then obtain rs' where rs': "map (\<lambda>(p, m, d). (text_of b p, m, d)) rs' = rs"
        "\<And>c. parseredirs n b es c s1 = POk (wraps rs' c) (skip_ws b es (s1 + length ?R))"
      using parseredirs_reads [OF b, of s1 rs t n] r1 True Cons.prems(2,4,8) by auto
    have "exec_args n b es args ret s = POk (fill_exec (args @ [?p]) (wraps rs' ret)) (skip_ws b es (s1 + length ?R))"
      unfolding step using rs'(2) exec_args_end [OF b fin, of k "args @ [?p]" "wraps rs' ret"] Cons.prems(8) n by (simp add: pbind_def)
    then show ?thesis using rs'(1) g(2) True len by (intro exI [of _ "[?p]"] exI [of _ rs']) (simp add: add.assoc)
  next
    case False
    then obtain w2 ws2 where ws: "ws = w2 # ws2" by (cases ws) auto
    have "good_word w2" using Cons.prems(3) ws by simp
    then obtain c2 v2 where "w2 = c2 # v2" "wordchar c2" by (cases w2) (auto simp: good_word_def)
    then have "nx b es s1 \<notin> {60, 62}"
      using nx_token [OF b, of s1 c2 "v2 @ concat (map show_word ws2) @ ?R @ t"] r1 ws by (auto simp: show_word_def wordchar_def sym_iff)
    then have "\<And>c. parseredirs n b es c s1 = POk c (skip_ws b es s1)"
      using parseredirs_reads [OF b, of s1 "[]" "?W @ ?R @ t" n] r1 bs(2) n by (auto simp: redirs_ok_def)
    then have "exec_args n b es args ret s = exec_args k b es (args @ [?p]) ret s1" unfolding step by (simp add: pbind_def)
    moreover obtain ws' rs' where IH: "map (text_of b) ws' = ws" "map (\<lambda>(p, m, d). (text_of b p, m, d)) rs' = rs"
        "exec_args k b es (args @ [?p]) ret s1 = POk (fill_exec ((args @ [?p]) @ ws') (wraps rs' ret)) (skip_ws b es (s1 + length (?W @ ?R)))"
      using Cons.IH [OF r1 Cons.prems(2), of "args @ [?p]" k ret] Cons.prems(3-8) False n unfolding len by auto
    ultimately show ?thesis using g(2) len by (intro exI [of _ "?p # ws'"] exI [of _ rs']) (simp add: add.assoc)
  qed
qed

text \<open>
  What it means that a routine reads a printed command back. \<open>reads3\<close> is for \<^verbatim>\<open>parseexec\<close>, \<open>reads2\<close> for \<^verbatim>\<open>parsepipe\<close>,
  \<open>reads0\<close> for \<^verbatim>\<open>parseline\<close>, and \<open>reads1\<close> for the part of \<^verbatim>\<open>parseline\<close> up to some of the \<^verbatim>\<open>&\<close>.
\<close>

definition reads :: "u8 list \<Rightarrow> nat \<Rightarrow> (nat \<Rightarrow> u8 list \<Rightarrow> nat \<Rightarrow> nat \<Rightarrow> pcmd pres) \<Rightarrow> nat \<Rightarrow> u8 set \<Rightarrow> u8 list \<Rightarrow> u8 list cmd \<Rightarrow> bool" where
  "reads b es f k F x c \<longleftrightarrow> (\<forall>s t n. rest b es s = x @ t \<longrightarrow> blank_start t \<longrightarrow> s \<le> es \<longrightarrow> nx b es (s + length x) \<in> F \<longrightarrow>
     4 * (es - s) + k \<le> n \<longrightarrow> (\<exists>c'. f n b es s = POk c' (skip_ws b es (s + length x)) \<and> map_cmd (text_of b) c' = c))"

abbreviation (input) reads3 :: "u8 list \<Rightarrow> nat \<Rightarrow> u8 list \<Rightarrow> u8 list cmd \<Rightarrow> bool" where
  "reads3 b es \<equiv> reads b es parseexec 2 {0, 124, 41, 38, 59}"

abbreviation (input) reads2 :: "u8 list \<Rightarrow> nat \<Rightarrow> u8 list \<Rightarrow> u8 list cmd \<Rightarrow> bool" where
  "reads2 b es \<equiv> reads b es parsepipe 3 {0, 41, 38, 59}"

abbreviation (input) reads0 :: "u8 list \<Rightarrow> nat \<Rightarrow> u8 list \<Rightarrow> u8 list cmd \<Rightarrow> bool" where
  "reads0 b es \<equiv> reads b es parseline 4 {0, 41}"

definition reads1 :: "u8 list \<Rightarrow> nat \<Rightarrow> u8 list \<Rightarrow> u8 list cmd \<Rightarrow> bool" where
  "reads1 b es x c \<longleftrightarrow> (\<forall>s t n. rest b es s = x @ t \<longrightarrow> blank_start t \<longrightarrow> s \<le> es \<longrightarrow> nx b es (s + length x) \<in> {0, 41, 38, 59} \<longrightarrow>
     4 * (es - s) + 3 \<le> n \<longrightarrow> (\<exists>c0 s0 k c'. parsepipe n b es s = POk c0 s0 \<and> k \<le> length x \<and>
       (\<forall>m. parsebacks (k + m) b es c0 s0 = parsebacks m b es c' (s + length x)) \<and> map_cmd (text_of b) c' = c))"

lemma readsD:
  assumes "reads b es f k F x c" "rest b es s = x @ t" "blank_start t" "s \<le> es" "nx b es (s + length x) \<in> F" "4 * (es - s) + k \<le> n"
  obtains c' where "f n b es s = POk c' (skip_ws b es (s + length x))" "map_cmd (text_of b) c' = c"
  using assms unfolding reads_def by blast

lemma reads1D:
  assumes "reads1 b es x c" "rest b es s = x @ t" "blank_start t" "s \<le> es" "nx b es (s + length x) \<in> {0, 41, 38, 59}" "4 * (es - s) + 3 \<le> n"
  obtains c0 s0 k c' where "parsepipe n b es s = POk c0 s0" "k \<le> length x"
    "\<And>m. parsebacks (k + m) b es c0 s0 = parsebacks m b es c' (s + length x)" "map_cmd (text_of b) c' = c"
  using assms unfolding reads1_def by blast

text \<open>A command of a tighter level.\<close>

lemma reads_3_2:
  assumes "reads3 b es x c"
  shows "reads2 b es x c"
  unfolding reads_def
proof (intro allI impI)
  fix s t n assume h: "rest b es s = x @ t" "blank_start t" "s \<le> es" "nx b es (s + length x) \<in> {0, 41, 38, 59}" "4 * (es - s) + 3 \<le> n"
  obtain m where n: "n = Suc m" "4 * (es - s) + 2 \<le> m" using h(5) by (cases n) auto
  obtain c' where c': "parseexec m b es s = POk c' (skip_ws b es (s + length x))" "map_cmd (text_of b) c' = c"
    using readsD [OF assms h(1-3) _ n(2)] h(4) by blast
  have "\<not> in_chars [124, 0] (nx b es (s + length x))" using h(4) in_chars_iff [of "[124]" "nx b es (s + length x)"] by auto
  then show "\<exists>c'. parsepipe n b es s = POk c' (skip_ws b es (s + length x)) \<and> map_cmd (text_of b) c' = c"
    using c' n(1) by (simp add: pbind_def peek_nx Let_def)
qed

lemma reads_2_1:
  assumes "reads2 b es x c"
  shows "reads1 b es x c"
  unfolding reads1_def
proof (intro allI impI)
  fix s t n assume h: "rest b es s = x @ t" "blank_start t" "s \<le> es" "nx b es (s + length x) \<in> {0, 41, 38, 59}" "4 * (es - s) + 3 \<le> n"
  obtain c' where c': "parsepipe n b es s = POk c' (skip_ws b es (s + length x))" "map_cmd (text_of b) c' = c"
    using readsD [OF assms h] by blast
  then show "\<exists>c0 s0 k c'. parsepipe n b es s = POk c0 s0 \<and> k \<le> length x \<and>
       (\<forall>m. parsebacks (k + m) b es c0 s0 = parsebacks m b es c' (s + length x)) \<and> map_cmd (text_of b) c' = c"
    by (intro exI [of _ c'] exI [of _ "skip_ws b es (s + length x)"] exI [of _ 0]) simp
qed

lemma reads_1_0:
  assumes b: "line_buf b es" and "reads1 b es x c"
  shows "reads0 b es x c"
  unfolding reads_def
proof (intro allI impI)
  fix s t n assume h: "rest b es s = x @ t" "blank_start t" "s \<le> es" "nx b es (s + length x) \<in> {0, 41}" "4 * (es - s) + 4 \<le> n"
  obtain m where n: "n = Suc m" "4 * (es - s) + 3 \<le> m" using h(5) by (cases n) auto
  obtain c0 s0 k c' where c': "parsepipe m b es s = POk c0 s0" "k \<le> length x"
      "\<And>m. parsebacks (k + m) b es c0 s0 = parsebacks m b es c' (s + length x)" "map_cmd (text_of b) c' = c"
    using reads1D [OF assms(2) h(1-3) _ n(2)] h(4) by blast
  have "k < m" using c'(2) rest_le [OF b h(1,3)] n(2) by linarith
  then obtain j where m: "m = k + Suc j" by (metis less_iff_Suc_add add_Suc_right)
  have "\<not> in_chars [38, 0] (nx b es (s + length x))" "\<not> in_chars [59, 0] (nx b es (s + length x))"
    using h(4) in_chars_iff [of "[38]" "nx b es (s + length x)"] in_chars_iff [of "[59]" "nx b es (s + length x)"] by auto
  then have "parsebacks m b es c0 s0 = POk c' (skip_ws b es (s + length x))" "peek b es (s + length x) [59, 0] = (False, skip_ws b es (s + length x))"
    using c'(3) [of "Suc j"] m by (simp_all add: peek_nx Let_def)
  then show "\<exists>c'. parseline n b es s = POk c' (skip_ws b es (s + length x)) \<and> map_cmd (text_of b) c' = c"
    using c'(1,4) n(1) by (simp add: pbind_def)
qed

text \<open>The cases of the grammar.\<close>

lemma nx_symbol:
  assumes "line_buf b es" "rest b es s = x @ 32 # c # t" "c \<in> {124, 40, 41, 59, 38}"
  shows "nx b es (s + length x) = c" "gettoken b es (s + length x) = (c, s + length x + 1, s + length x + 2, skip_ws b es (s + length x + 2))"
    "rest b es (s + length x + 2) = t" "peek b es (s + length x) [c, 0] = (True, skip_ws b es (s + length x))"
proof -
  have r: "rest b es (s + length x) = 32 # c # t" by (rule rest_append [OF assms(2)])
  show n: "nx b es (s + length x) = c" using nx_token [OF assms(1) r] assms(3) by (auto simp: ws_iff)
  show "gettoken b es (s + length x) = (c, s + length x + 1, s + length x + 2, skip_ws b es (s + length x + 2))"
    using gettoken_symbol [OF assms(1) r] assms(3) by auto
  show "rest b es (s + length x + 2) = t" using rest_append [of b es "s + length x" "[32, c]" t] r by simp
  show "peek b es (s + length x) [c, 0] = (True, skip_ws b es (s + length x))"
    using n assms(3) in_chars_iff [of "[c]" c] by (auto simp: peek_nx)
qed

lemma parse_skip2 [simp]:
  "parseexec n b es (skip_ws b es s) = parseexec n b es s" "parsepipe n b es (skip_ws b es s) = parsepipe n b es s"
  "parseline n b es (skip_ws b es s) = parseline n b es s" "parseblock n b es (skip_ws b es s) = parseblock n b es s"
proof -
  show x: "parseexec n b es (skip_ws b es s) = parseexec n b es s" for n by (cases n) simp_all
  show p: "parsepipe n b es (skip_ws b es s) = parsepipe n b es s" for n by (cases n) (simp_all add: x)
  show "parseline n b es (skip_ws b es s) = parseline n b es s" by (cases n) (simp_all add: p)
  show "parseblock n b es (skip_ws b es s) = parseblock n b es s" by (cases n) simp_all
qed

lemma reads_pipe:
  assumes b: "line_buf b es" and a: "reads3 b es xa a" and r: "reads2 b es xr r"
  shows "reads2 b es (xa @ [32, 124] @ xr) (PIPE a r)"
  unfolding reads_def
proof (intro allI impI)
  let ?x = "xa @ [32, 124] @ xr"
  fix s t n assume h: "rest b es s = ?x @ t" "blank_start t" "s \<le> es" "nx b es (s + length ?x) \<in> {0, 41, 38, 59}" "4 * (es - s) + 3 \<le> n"
  obtain m where n: "n = Suc m" "4 * (es - s) + 2 \<le> m" using h(5) by (cases n) auto
  have ra: "rest b es s = xa @ 32 # 124 # xr @ t" using h(1) by simp
  note sym = nx_symbol [OF b ra]
  obtain a' where a': "parseexec m b es s = POk a' (skip_ws b es (s + length xa))" "map_cmd (text_of b) a' = a"
  proof (rule readsD [OF a ra _ h(3) _ n(2)])
    show "blank_start (32 # 124 # xr @ t)" by (simp add: blank_start_def)
    show "nx b es (s + length xa) \<in> {0, 124, 41, 38, 59}" using sym(1) by simp
  qed blast
  let ?s = "s + length xa + 2"
  have le: "?s \<le> es" using rest_le [OF b, of s "xa @ [32, 124]" "xr @ t"] h(1,3) by simp
  have len: "?s + length xr = s + length ?x" by simp
  have f: "4 * (es - ?s) + 3 \<le> m" using n(2) le by linarith
  have rr: "rest b es ?s = xr @ t" using sym(3) by simp
  obtain r' where r': "parsepipe m b es ?s = POk r' (skip_ws b es (s + length ?x))" "map_cmd (text_of b) r' = r"
    by (rule readsD [OF r rr h(2) le _ f, unfolded len, OF h(4)])
  have "parsepipe n b es s = POk (PIPE a' r') (skip_ws b es (s + length ?x))"
    using a'(1) r'(1) sym n(1) by (simp add: pbind_def Let_def)
  then show "\<exists>c'. parsepipe n b es s = POk c' (skip_ws b es (s + length ?x)) \<and> map_cmd (text_of b) c' = PIPE a r"
    using a'(2) r'(2) by (intro exI [of _ "PIPE a' r'"]) simp
qed

lemma reads_back:
  assumes b: "line_buf b es" and a: "reads1 b es x c"
  shows "reads1 b es (x @ [32, 38]) (BACK c)"
  unfolding reads1_def
proof (intro allI impI)
  let ?x = "x @ [32, 38]"
  fix s t n assume h: "rest b es s = ?x @ t" "blank_start t" "s \<le> es" "nx b es (s + length ?x) \<in> {0, 41, 38, 59}" "4 * (es - s) + 3 \<le> n"
  have ra: "rest b es s = x @ 32 # 38 # t" using h(1) by simp
  note sym = nx_symbol [OF b ra]
  obtain c0 s0 k c' where c': "parsepipe n b es s = POk c0 s0" "k \<le> length x"
      "\<And>m. parsebacks (k + m) b es c0 s0 = parsebacks m b es c' (s + length x)" "map_cmd (text_of b) c' = c"
  proof (rule reads1D [OF a ra _ h(3) _ h(5)])
    show "blank_start (32 # 38 # t)" by (simp add: blank_start_def)
    show "nx b es (s + length x) \<in> {0, 41, 38, 59}" using sym(1) by simp
  qed blast
  have "parsebacks (Suc k + m) b es c0 s0 = parsebacks m b es (BACK c') (s + length ?x)" for m
    using c'(3) [of "Suc m"] sym by (simp add: Let_def)
  then show "\<exists>c0 s0 k c'. parsepipe n b es s = POk c0 s0 \<and> k \<le> length ?x \<and>
       (\<forall>m. parsebacks (k + m) b es c0 s0 = parsebacks m b es c' (s + length ?x)) \<and> map_cmd (text_of b) c' = BACK c"
    using c' by (intro exI [of _ c0] exI [of _ s0] exI [of _ "Suc k"] exI [of _ "BACK c'"]) simp
qed

lemma reads_list:
  assumes b: "line_buf b es" and a: "reads1 b es xa a" and r: "reads0 b es xr r"
  shows "reads0 b es (xa @ [32, 59] @ xr) (LIST a r)"
  unfolding reads_def
proof (intro allI impI)
  let ?x = "xa @ [32, 59] @ xr"
  fix s t n assume h: "rest b es s = ?x @ t" "blank_start t" "s \<le> es" "nx b es (s + length ?x) \<in> {0, 41}" "4 * (es - s) + 4 \<le> n"
  obtain m where n: "n = Suc m" "4 * (es - s) + 3 \<le> m" using h(5) by (cases n) auto
  have ra: "rest b es s = xa @ 32 # 59 # xr @ t" using h(1) by simp
  note sym = nx_symbol [OF b ra]
  obtain c0 s0 k a' where a': "parsepipe m b es s = POk c0 s0" "k \<le> length xa"
      "\<And>m. parsebacks (k + m) b es c0 s0 = parsebacks m b es a' (s + length xa)" "map_cmd (text_of b) a' = a"
  proof (rule reads1D [OF a ra _ h(3) _ n(2)])
    show "blank_start (32 # 59 # xr @ t)" by (simp add: blank_start_def)
    show "nx b es (s + length xa) \<in> {0, 41, 38, 59}" using sym(1) by simp
  qed blast
  let ?s = "s + length xa + 2"
  have le: "?s \<le> es" using rest_le [OF b, of s "xa @ [32, 59]" "xr @ t"] h(1,3) by simp
  have len: "?s + length xr = s + length ?x" by simp
  have "k < m" using a'(2) le n(2) by linarith
  then obtain j where m: "m = k + Suc j" by (metis less_iff_Suc_add add_Suc_right)
  have "\<not> in_chars [38, 0] 59" using in_chars_iff [of "[38]" 59] by simp
  then have bk: "parsebacks m b es c0 s0 = POk a' (skip_ws b es (s + length xa))" using a'(3) [of "Suc j"] m sym by (simp add: peek_nx Let_def)
  have f: "4 * (es - ?s) + 4 \<le> m" using n(2) le by linarith
  have rr: "rest b es ?s = xr @ t" using sym(3) by simp
  obtain r' where r': "parseline m b es ?s = POk r' (skip_ws b es (s + length ?x))" "map_cmd (text_of b) r' = r"
    by (rule readsD [OF r rr h(2) le _ f, unfolded len, OF h(4)])
  have "parseline n b es s = POk (LIST a' r') (skip_ws b es (s + length ?x))"
    using a'(1) bk r'(1) sym n(1) by (simp add: pbind_def Let_def)
  then show "\<exists>c'. parseline n b es s = POk c' (skip_ws b es (s + length ?x)) \<and> map_cmd (text_of b) c' = LIST a r"
    using a'(4) r'(2) by (intro exI [of _ "LIST a' r'"]) simp
qed

lemma show_lengths: "length ws \<le> length (concat (map show_word ws))" "length rs \<le> length (concat (map show_redir rs))"
  by (induction ws, auto simp: show_word_def) (induction rs, auto simp: show_redir_def show_word_def)

lemma nx_word:
  assumes "line_buf b es" "rest b es s = show_word w @ t" "good_word w"
  shows "wordchar (nx b es s)"
proof -
  obtain c v where "w = c # v" "wordchar c" using assms(3) by (cases w) (auto simp: good_word_def)
  then show ?thesis using nx_token [OF assms(1), of s c "v @ t"] assms(2) by (simp add: show_word_def wordchar_def)
qed

lemma nx_redir:
  assumes "line_buf b es" "rest b es s = show_redir r @ t"
  shows "nx b es s \<in> {60, 62}"
proof -
  obtain w m d where "r = (w, m, d)" by (metis prod_cases3)
  then have "rest b es s = 32 # (if m = 0 then 60 else 62) # show_word w @ t" using assms(2) by (simp add: show_redir_def)
  from nx_token [OF assms(1) this] show ?thesis by (auto simp: ws_iff)
qed

lemma reads_simple:
  assumes b: "line_buf b es" and ws: "length ws < MAXARGS" "list_all good_word ws" and rs: "redirs_ok rs"
  shows "reads3 b es (concat (map show_word ws) @ concat (map show_redir rs)) (wraps rs (EXEC ws))"
  unfolding reads_def
proof (intro allI impI)
  let ?x = "concat (map show_word ws) @ concat (map show_redir rs)"
  fix s t n assume h: "rest b es s = ?x @ t" "blank_start t" "s \<le> es" "nx b es (s + length ?x) \<in> {0, 124, 41, 38, 59}" "4 * (es - s) + 2 \<le> n"
  obtain m where n: "n = Suc m" "4 * (es - s) + 1 \<le> m" using h(5) by (cases n) auto
  have fuel: "length ws + length rs < m" using rest_le [OF b h(1,3)] show_lengths(1) [of ws] show_lengths(2) [of rs] n(2) by simp
  have nx: "if ws \<noteq> [] then wordchar (nx b es s) else if rs \<noteq> [] then nx b es s \<in> {60, 62} else nx b es s \<in> {0, 124, 41, 38, 59}"
  proof (cases ws)
    case (Cons w v)
    then show ?thesis using nx_word [OF b, of s w "concat (map show_word v) @ concat (map show_redir rs) @ t"] h(1) ws(2) by simp
  next
    case Nil
    then show ?thesis using nx_redir [OF b, of s "hd rs" "concat (map show_redir (tl rs)) @ t"] h(1,4) by (cases rs) auto
  qed
  then have "nx b es s \<noteq> 40" by (auto simp: wordchar_def sym_iff split: if_splits)
  then have pk: "peek b es s [40, 0] = (False, skip_ws b es s)" using in_chars_iff [of "[40]" "nx b es s"] by (auto simp: peek_nx)
  have "\<exists>c'. pbind (parseredirs m b es (EXEC []) s) (exec_args m b es []) = POk c' (skip_ws b es (s + length ?x)) \<and>
      map_cmd (text_of b) c' = wraps rs (EXEC ws)"
  proof (cases "ws = []")
    case True
    then obtain rs' where rs': "map (\<lambda>(p, m, d). (text_of b p, m, d)) rs' = rs"
        "\<And>c. parseredirs m b es c s = POk (wraps rs' c) (skip_ws b es (s + length ?x))"
      using parseredirs_reads [OF b, of s rs t m] h rs fuel by auto
    have "exec_args m b es [] (wraps rs' (EXEC [])) (s + length ?x) = POk (fill_exec [] (wraps rs' (EXEC []))) (skip_ws b es (s + length ?x))"
      using exec_args_end [OF b h(4)] fuel by simp
    then show ?thesis using rs' True by (intro exI [of _ "fill_exec [] (wraps rs' (EXEC []))"]) (simp add: pbind_def wraps_fill wraps_map)
  next
    case False
    then have "nx b es s \<notin> {60, 62}" using nx by (auto simp: wordchar_def sym_iff)
    then have "\<And>c. parseredirs m b es c s = POk c (skip_ws b es s)"
      using parseredirs_reads [OF b, of s "[]" "?x @ t" m] h(1) blank_start_append [OF blank_start_append(2) [OF h(2)]] fuel by (auto simp: redirs_ok_def)
    moreover obtain ws' rs' where "map (text_of b) ws' = ws" "map (\<lambda>(p, m, d). (text_of b p, m, d)) rs' = rs"
        "exec_args m b es [] (EXEC []) s = POk (fill_exec ([] @ ws') (wraps rs' (EXEC []))) (skip_ws b es (s + length ?x))"
      using exec_args_reads [OF b, of s ws rs t "[]" m "EXEC []"] h(1,2,4) ws rs False fuel by auto
    ultimately show ?thesis by (intro exI [of _ "fill_exec ws' (wraps rs' (EXEC []))"]) (simp add: pbind_def wraps_fill wraps_map)
  qed
  then show "\<exists>c'. parseexec n b es s = POk c' (skip_ws b es (s + length ?x)) \<and> map_cmd (text_of b) c' = wraps rs (EXEC ws)"
    using pk n(1) by simp
qed

lemma reads_block:
  assumes b: "line_buf b es" and x: "reads0 b es x c" and rs: "redirs_ok rs"
  shows "reads3 b es ([32, 40] @ x @ [32, 41] @ concat (map show_redir rs)) (wraps rs c)"
  unfolding reads_def
proof (intro allI impI)
  let ?R = "concat (map show_redir rs)"
  let ?x = "[32, 40] @ x @ [32, 41] @ ?R"
  fix s t n assume h: "rest b es s = ?x @ t" "blank_start t" "s \<le> es" "nx b es (s + length ?x) \<in> {0, 124, 41, 38, 59}" "4 * (es - s) + 2 \<le> n"
  have r0: "rest b es s = [] @ 32 # 40 # x @ 32 # 41 # ?R @ t" using h(1) by simp
  note sym = nx_symbol [OF b r0]
  have le: "s + length ?x \<le> es" by (rule rest_le [OF b h(1,3)])
  obtain m where n: "n = Suc (Suc m)" "4 * (es - s) \<le> m" using h(5) by (cases n; cases "n - 1") auto
  have r1: "rest b es (s + 2) = x @ 32 # 41 # ?R @ t" using sym(3) by simp
  note sym1 = nx_symbol [OF b r1]
  have f: "4 * (es - (s + 2)) + 4 \<le> m" using n(2) le by simp
  obtain c' where c': "parseline m b es (s + 2) = POk c' (skip_ws b es (s + 2 + length x))" "map_cmd (text_of b) c' = c"
  proof (rule readsD [OF x r1 _ _ _ f])
    show "blank_start (32 # 41 # ?R @ t)" by (simp add: blank_start_def)
    show "nx b es (s + 2 + length x) \<in> {0, 41}" using sym1(1) by simp
  qed (use le in simp_all)
  have r2: "rest b es (s + 2 + length x + 2) = ?R @ t" using sym1(3) by simp
  have len: "s + 2 + length x + 2 + length ?R = s + length ?x" by simp
  have rm: "length rs < m" using show_lengths(2) [of rs] le f by simp
  have "nx b es (s + length ?x) \<notin> {60, 62}" using h(4) by auto
  from parseredirs_reads [OF b r2 h(2) rs _ rm, unfolded len, OF this]
  obtain rs' where rs': "map (\<lambda>(p, m, d). (text_of b p, m, d)) rs' = rs"
      "\<And>c. parseredirs m b es c (s + 2 + length x + 2) = POk (wraps rs' c) (skip_ws b es (s + length ?x))" by blast
  have "parseexec n b es s = POk (wraps rs' c') (skip_ws b es (s + length ?x))"
    using sym sym1 c'(1) rs'(2) n(1) by (simp add: Let_def pbind_def)
  then show "\<exists>c'. parseexec n b es s = POk c' (skip_ws b es (s + length ?x)) \<and> map_cmd (text_of b) c' = wraps rs c"
    using rs'(1) c'(2) by (intro exI [of _ "wraps rs' c'"]) (simp add: wraps_map)
qed

text \<open>All commands.\<close>

definition reads_all :: "u8 list \<Rightarrow> nat \<Rightarrow> u8 list cmd \<Rightarrow> bool" where
  "reads_all b es c \<longleftrightarrow> reads3 b es (render c 3) c \<and> reads2 b es (render c 2) c \<and> reads1 b es (render c 1) c \<and> reads0 b es (render c 0) c"

lemma reads_all_simple:
  assumes "line_buf b es" "reads3 b es (render c 3) c" "\<And>l. render c l = render c 3"
  shows "reads_all b es c"
  unfolding reads_all_def assms(3) [of 0] assms(3) [of 1] assms(3) [of 2]
  using assms(2) reads_3_2 [OF assms(2)] reads_2_1 reads_1_0 [OF assms(1)] by blast

lemma unwrap:
  "\<exists>rs core. c = wraps rs core \<and> (\<forall>a w m d. core \<noteq> REDIR a w m d) \<and> (rs \<noteq> [] \<longrightarrow> size core < size c) \<and> (cmd_ok good_word c \<longrightarrow> redirs_ok rs \<and> cmd_ok good_word core)"
proof (induction c)
  case (REDIR c w m d)
  then obtain rs core where c: "c = wraps rs core" "\<forall>a w m d. core \<noteq> REDIR a w m d" "rs \<noteq> [] \<longrightarrow> size core < size c"
    "cmd_ok good_word c \<longrightarrow> redirs_ok rs \<and> cmd_ok good_word core" by blast
  have "size core < size (REDIR c w m d)" using c(1,3) by (cases "rs = []") auto
  then show ?case using c by (intro exI [of _ "rs @ [(w, m, d)]"] exI [of _ core]) (auto simp: redirs_ok_def)
qed (rule exI [of _ "[]"], simp add: redirs_ok_def)+

lemma render_wraps: "render (wraps rs c) 3 = render c 3 @ concat (map show_redir rs)" "rs \<noteq> [] \<Longrightarrow> render (wraps rs c) l = render (wraps rs c) 3"
  by (induction rs rule: rev_induct) auto

lemma render_paren:
  "render (PIPE a r) 3 = [32, 40] @ render (PIPE a r) 0 @ [32, 41]" "render (BACK a) 3 = [32, 40] @ render (BACK a) 0 @ [32, 41]"
  "render (LIST a r) 3 = [32, 40] @ render (LIST a r) 0 @ [32, 41]"
  by (simp_all add: paren_def)

lemma reads_render:
  assumes b: "line_buf b es"
  shows "cmd_ok good_word c \<Longrightarrow> reads_all b es c"
proof (induction c rule: measure_induct_rule [of size])
  case (less c)
  obtain rs core where c: "c = wraps rs core" "\<And>a w m d. core \<noteq> REDIR a w m d" "rs \<noteq> [] \<Longrightarrow> size core < size c" "redirs_ok rs" "cmd_ok good_word core"
    using unwrap [of c] less.prems by blast
  have block: "reads3 b es ([32, 40] @ x @ [32, 41]) d" if "reads0 b es x d" for x d
    using reads_block [OF b that, of "[]"] by (simp add: redirs_ok_def)
  show ?case
  proof (cases core)
    case (EXEC ws)
    have r: "render c 3 = concat (map show_word ws) @ concat (map show_redir rs)" unfolding c(1) render_wraps(1) EXEC by simp
    have "reads3 b es (render c 3) c" unfolding r using reads_simple [OF b _ _ c(4), of ws] c(1,5) EXEC by simp
    moreover have "render c l = render c 3" for l using render_wraps(2) [of rs core l] c(1) EXEC by (cases "rs = []") simp_all
    ultimately show ?thesis by (intro reads_all_simple [OF b])
  next
    case (REDIR a w m d)
    then show ?thesis using c(2) by blast
  next
    case (PIPE a r)
    show ?thesis
    proof (cases "rs = []")
      case True
      then have c': "c = PIPE a r" using c(1) PIPE by simp
      have "reads_all b es a" "reads_all b es r" using less c' by simp_all
      then have 2: "reads2 b es (render c 2) c" using reads_pipe [OF b] by (simp add: c' paren_def reads_all_def)
      moreover have e: "render c 0 = render c 2" "render c 1 = render c 2" by (simp_all add: c' paren_def)
      ultimately have 1: "reads1 b es (render c 1) c" "reads0 b es (render c 0) c" unfolding e using reads_2_1 reads_1_0 [OF b] by blast+
      have "reads3 b es (render c 3) c" using block [OF 1(2)] unfolding c' render_paren .
      then show ?thesis using 1 2 by (simp add: reads_all_def)
    next
      case False
      have "reads0 b es (render core 0) core" using less.IH [OF c(3) [OF False] c(5)] by (simp add: reads_all_def)
      then have "reads3 b es (render c 3) c" using reads_block [OF b _ c(4)] PIPE unfolding c(1) render_wraps(1) PIPE render_paren by simp
      then show ?thesis using render_wraps(2) [OF False] c(1) by (intro reads_all_simple [OF b]) simp_all
    qed
  next
    case (LIST a r)
    show ?thesis
    proof (cases "rs = []")
      case True
      then have c': "c = LIST a r" using c(1) LIST by simp
      have "reads_all b es a" "reads_all b es r" using less c' by simp_all
      then have 0: "reads0 b es (render c 0) c" using reads_list [OF b] by (simp add: c' paren_def reads_all_def)
      have 3: "reads3 b es (render c 3) c" using block [OF 0] unfolding c' render_paren .
      moreover have "render c 2 = render c 3" "render c 1 = render c 3" by (simp_all add: c' paren_def)
      ultimately show ?thesis using 0 reads_3_2 [OF 3] reads_2_1 by (simp add: reads_all_def)
    next
      case False
      have "reads0 b es (render core 0) core" using less.IH [OF c(3) [OF False] c(5)] by (simp add: reads_all_def)
      then have "reads3 b es (render c 3) c" using reads_block [OF b _ c(4)] LIST unfolding c(1) render_wraps(1) LIST render_paren by simp
      then show ?thesis using render_wraps(2) [OF False] c(1) by (intro reads_all_simple [OF b]) simp_all
    qed
  next
    case (BACK a)
    show ?thesis
    proof (cases "rs = []")
      case True
      then have c': "c = BACK a" using c(1) BACK by simp
      have "reads_all b es a" using less c' by simp
      then have 1: "reads1 b es (render c 1) c" using reads_back [OF b] by (simp add: c' paren_def reads_all_def)
      have "render c 0 = render c 1" by (simp add: c' paren_def)
      then have 0: "reads0 b es (render c 0) c" using reads_1_0 [OF b 1] by simp
      have 3: "reads3 b es (render c 3) c" using block [OF 0] unfolding c' render_paren .
      moreover have "render c 2 = render c 3" by (simp add: c' paren_def)
      ultimately show ?thesis using 0 1 reads_3_2 [OF 3] by (simp add: reads_all_def)
    next
      case False
      have "reads0 b es (render core 0) core" using less.IH [OF c(3) [OF False] c(5)] by (simp add: reads_all_def)
      then have "reads3 b es (render c 3) c" using reads_block [OF b _ c(4)] BACK unfolding c(1) render_wraps(1) BACK render_paren by simp
      then show ?thesis using render_wraps(2) [OF False] c(1) by (intro reads_all_simple [OF b]) simp_all
    qed
  qed
qed

lemma show_nonzero: "list_all good_word ws \<Longrightarrow> 0 \<notin> set (concat (map show_word ws))" "good_word w \<Longrightarrow> 0 \<notin> set (show_redir (w, m, d))"
  by (auto simp: show_word_def show_redir_def good_word_def wordchar_def list_all_iff)

lemma render_nonzero: "cmd_ok good_word c \<Longrightarrow> 0 \<notin> set (render c l)"
proof (induction c arbitrary: l)
  case (EXEC ws)
  then show ?case using show_nonzero(1) [of ws] by simp
next
  case (REDIR c w m d)
  then show ?case using show_nonzero(2) [of w m d] by simp
qed (auto simp: paren_def)

text \<open>
  C26: The parser reads every command back from its printed form: whatever the nesting of lists, pipes, background commands,
  redirections and blocks, parsing the printed command gives a command of the same structure whose strings, in the
  buffer the parser leaves, are the words of the original.
\<close>

theorem parse_render:
  assumes "cmd_ok good_word c"
  shows "\<exists>c' b' s. parsecmd (render c 0 @ [0]) = POk (c', b') s \<and> map_cmd (\<lambda>(q, e). cstr (drop q b')) c' = c"
proof -
  let ?x = "render c 0" and ?b = "render c 0 @ [0]"
  let ?es = "length ?x"
  have b: "line_buf ?b ?es" using render_nonzero [OF assms, of 0] by (auto simp: line_buf_def nth_append in_set_conv_nth)
  have rest: "rest ?b ?es 0 = ?x @ []" by (simp add: rest_def)
  have e: "skip_ws ?b ?es ?es = ?es" by (subst skip_ws.simps) simp
  have r0: "reads0 ?b ?es ?x c" using reads_render [OF b assms] by (simp add: reads_all_def)
  obtain c' where c': "parseline (4 * (?es + 1)) ?b ?es 0 = POk c' ?es" "map_cmd (text_of ?b) c' = c"
    by (rule readsD [OF r0 rest, of "4 * (?es + 1)"]) (use e in \<open>simp_all add: blank_start_def nx_def del: parseline.simps\<close>)
  have p: "parsecmd ?b = POk (c', nulterminate c' ?b) ?es"
    using c'(1) e strlen_line [of ?b ?es] b by (simp add: parsecmd_def pbind_def peek_nx del: parseline.simps)
  have ok: "cmd_ok (word_at ?b ?es) c'" using parse_ok(1) [OF b c'(1)] by simp
  have "map_cmd (\<lambda>(q, e). cstr (drop q (nulterminate c' ?b))) c' = map_cmd (text_of ?b) c'"
    using nulterminate_word [OF b ok] by (intro cmd.map_cong) auto
  also have "\<dots> = c" by (rule c'(2))
  finally show ?thesis using p by (intro exI conjI)
qed

text \<open>\<^verbatim>\<open>(a | b) & ; c > d\<close>\<close>

theorem parse_render_witness:
  "cmd_ok good_word (LIST (BACK (PIPE (EXEC [[97]]) (EXEC [[98]]))) (REDIR (EXEC [[99]]) [100] 513 1)) \<and>
   (\<exists>c' b' s. parsecmd (render (LIST (BACK (PIPE (EXEC [[97]]) (EXEC [[98]]))) (REDIR (EXEC [[99]]) [100] 513 1)) 0 @ [0]) = POk (c', b') s \<and>
     map_cmd (\<lambda>(q, e). cstr (drop q b')) c' = LIST (BACK (PIPE (EXEC [[97]]) (EXEC [[98]]))) (REDIR (EXEC [[99]]) [100] 513 1))"
proof -
  have "cmd_ok good_word (LIST (BACK (PIPE (EXEC [[97]]) (EXEC [[98]]))) (REDIR (EXEC [[99]]) [100] 513 1))"
    by (simp add: good_word_def wordchar_def ws_iff sym_iff redir_ok_def)
  then show ?thesis using parse_render by blast
qed

theorem parsecmd_type_witness:
  "\<exists>c b' s es. parsecmd [97, 32, 98, 0] = POk (c, b') s \<and> cmd_ok (word_at [97, 32, 98, 0] es) c"
proof -
  have "parsecmd [97, 32, 98, 0] = POk (EXEC [(0, 1), (2, 3)], [97, 0, 98, 0]) 3"
    by code_simp
  then show ?thesis using parsecmd_type by blast
qed

end
