(* ===== verification/Shell.thy ===== *)
theory Shell
  imports Sh
begin

text \<open>
  Running commands (\<^verbatim>\<open>runcmd\<close>, \<^verbatim>\<open>fork1\<close>, \<^verbatim>\<open>panic\<close> and the loop of \<^verbatim>\<open>main\<close> in \<^verbatim>\<open>sh.c\<close>). A process is given by the system
  calls it makes, each with what it does on the result; the kernel's side of the calls that matter here is a table of
  descriptors in which \<^verbatim>\<open>open\<close>, \<^verbatim>\<open>dup\<close> and \<^verbatim>\<open>pipe\<close> take the lowest free ones.
\<close>

section \<open>System calls of a process\<close>

abbreviation (input) O_RDWR :: int where "O_RDWR \<equiv> 2"

datatype parg = P_str "u8 list option" | P_int int

datatype sprog =
    S_exit
  | S_exec "u8 list" "u8 list list" "int \<Rightarrow> sprog"
  | S_close nat sprog
  | S_open "u8 list" int "int \<Rightarrow> sprog"
  | S_dup nat sprog
  | S_pipe "int \<Rightarrow> nat \<Rightarrow> nat \<Rightarrow> sprog"
  | S_fork sprog "int \<Rightarrow> sprog"
  | S_wait sprog
  | S_chdir "u8 list" "int \<Rightarrow> sprog"
  | S_printf string "parg list" sprog

definition sh_panic :: "string \<Rightarrow> sprog" where
  "sh_panic msg = S_printf ''%s\<newline>'' [P_str (Some (map of_char msg))] S_exit"

text \<open>\<^verbatim>\<open>if(fork1() == 0) child;\<close> followed by the parent's part. A child never returns from \<^verbatim>\<open>runcmd\<close>.\<close>

definition fork1 :: "sprog \<Rightarrow> sprog \<Rightarrow> sprog" where
  "fork1 child parent = S_fork child (\<lambda>pid. if pid = -1 then sh_panic ''fork'' else parent)"

primrec runcmd :: "u8 list cmd \<Rightarrow> sprog" where
  "runcmd (EXEC argv) =
     (if argv = [] then S_exit
      else S_printf ''argv:%s %s\<newline>'' [P_str (Some (hd argv)), P_str (if 1 < length argv then Some (argv ! 1) else None)]
        (S_exec (hd argv) argv (\<lambda>ret. S_printf ''exec %s failed here:%d\<newline>'' [P_str (Some (hd argv)), P_int ret] S_exit)))"
| "runcmd (REDIR c f mode fd) =
     S_close (nat fd) (S_open f mode (\<lambda>r. if r < 0 then S_printf ''open %s failed\<newline>'' [P_str (Some f)] S_exit else runcmd c))"
| "runcmd (LIST l r) = fork1 (runcmd l) (S_wait (runcmd r))"
| "runcmd (PIPE l r) = S_pipe (\<lambda>res p0 p1.
     if res < 0 then sh_panic ''pipe''
     else fork1 (S_close 1 (S_dup p1 (S_close p0 (S_close p1 (runcmd l)))))
         (fork1 (S_close 0 (S_dup p0 (S_close p0 (S_close p1 (runcmd r)))))
         (S_close p0 (S_close p1 (S_wait (S_wait S_exit))))))"
| "runcmd (BACK c) = fork1 (runcmd c) S_exit"

text \<open>One line of input: \<^verbatim>\<open>cd\<close> is done by the shell itself; anything else is run by a child. The continuation is the next line.\<close>

definition run_line :: "u8 list \<Rightarrow> sprog \<Rightarrow> sprog" where
  "run_line buf k =
     (if take 3 buf = [99, 100, 32]
      then let dir = drop 3 (butlast (cstr buf)) in
        S_chdir dir (\<lambda>r. if r < 0 then S_printf ''cannot cd %s\<newline>'' [P_str (Some dir)] k else k)
      else fork1 (case parsecmd buf of POk (c, b) _ \<Rightarrow> runcmd (map_cmd (\<lambda>(q, e). cstr (drop q b)) c)
                   | PPanic msg \<Rightarrow> sh_panic msg | PFuel \<Rightarrow> S_exit)
             (S_wait k))"

text \<open>
  \<^verbatim>\<open>main\<close>: descriptors up to 2 are filled with the console - every round that goes on fills one more, so four rounds are
  enough - and then lines are read and run. A line is the buffer as \<^verbatim>\<open>getcmd\<close> leaves it; at the end of the input it is empty.
\<close>

primrec sh_open :: "nat \<Rightarrow> sprog \<Rightarrow> sprog" where
  "sh_open 0 k = S_exit"
| "sh_open (Suc n) k = S_open (map of_char ''console'') O_RDWR
     (\<lambda>fd. if fd < 0 then k else if fd \<ge> 3 then S_close (nat fd) k else sh_open n k)"

definition getcmd :: "u8 list \<Rightarrow> (int \<Rightarrow> sprog) \<Rightarrow> sprog" where
  "getcmd buf k = S_printf ''$ '' [] (k (if hd buf = 0 then -1 else 0))"

primrec sh_loop :: "u8 list list \<Rightarrow> sprog" where
  "sh_loop [] = getcmd (replicate 100 0) (\<lambda>r. S_exit)"
| "sh_loop (buf # bufs) = getcmd buf (\<lambda>r. if r \<ge> 0 then run_line buf (sh_loop bufs) else S_exit)"

definition sh_main :: "u8 list list \<Rightarrow> sprog" where
  "sh_main bufs = sh_open 4 (sh_loop bufs)"

section \<open>Descriptors\<close>

datatype endpoint = Tty | Opened "u8 list" int | Pipe_read nat | Pipe_write nat

type_synonym fdtable = "nat \<Rightarrow> endpoint option"

definition lowest :: "fdtable \<Rightarrow> nat" where
  "lowest fds = (case find (\<lambda>i. fds i = None) [0..<NOFILE] of Some i \<Rightarrow> i | None \<Rightarrow> NOFILE)"

text \<open>
  The programs executed, each with the descriptors it starts with, when every call succeeds; \<open>k\<close> numbers the pipes. A
  parent goes on after its child.
\<close>

primrec execs :: "sprog \<Rightarrow> nat \<Rightarrow> fdtable \<Rightarrow> (u8 list list \<times> fdtable) list \<times> nat" where
  "execs S_exit k fds = ([], k)"
| "execs (S_exec path argv f) k fds = ([(argv, fds)], k)"
| "execs (S_close d p) k fds = execs p k (fds(d := None))"
| "execs (S_open f m p) k fds = (let d = lowest fds in execs (p (int d)) k (fds(d \<mapsto> Opened f m)))"
| "execs (S_dup d p) k fds = execs p k (fds(lowest fds := fds d))"
| "execs (S_pipe p) k fds = (let r = lowest fds; fds1 = fds(r \<mapsto> Pipe_read k); w = lowest fds1 in
     execs (p 0 r w) (k + 1) (fds1(w \<mapsto> Pipe_write k)))"
| "execs (S_fork c p) k fds = (let (xs, k) = execs c k fds; (ys, k) = execs (p 1) k fds in (xs @ ys, k))"
| "execs (S_wait p) k fds = execs p k fds"
| "execs (S_chdir d p) k fds = execs (p 0) k fds"
| "execs (S_printf s as p) k fds = execs p k fds"

text \<open>What a command means: the programs it names with their standard input and output.\<close>

primrec meaning :: "u8 list cmd \<Rightarrow> nat \<Rightarrow> fdtable \<Rightarrow> (u8 list list \<times> fdtable) list \<times> nat" where
  "meaning (EXEC argv) k fds = (if argv = [] then [] else [(argv, fds)], k)"
| "meaning (REDIR c f m d) k fds = meaning c k (fds(nat d \<mapsto> Opened f m))"
| "meaning (LIST l r) k fds = (let (xs, k) = meaning l k fds; (ys, k) = meaning r k fds in (xs @ ys, k))"
| "meaning (PIPE l r) k fds = (let (xs, k') = meaning l (k + 1) (fds(1 \<mapsto> Pipe_write k)); (ys, k') = meaning r k' (fds(0 \<mapsto> Pipe_read k))
     in (xs @ ys, k'))"
| "meaning (BACK c) k fds = meaning c k fds"

text \<open>The standard descriptors are open, and no other.\<close>

definition std_table :: "fdtable \<Rightarrow> bool" where
  "std_table fds \<longleftrightarrow> (\<forall>i. fds i = None \<longleftrightarrow> 3 \<le> i)"

lemma std_upd: "std_table fds \<Longrightarrow> i < 3 \<Longrightarrow> std_table (fds(i \<mapsto> x))"
  by (simp add: std_table_def)

lemma upt_NOFILE: "[0..<NOFILE] = [0, Suc 0, 2, 3, 4] @ [5..<NOFILE]"
  by (simp add: upt_rec)

lemma std_fds:
  assumes "std_table fds"
  shows "lowest fds = 3" "lowest (fds(3 \<mapsto> a)) = 4" "lowest (fds(0 := None)) = 0" "lowest (fds(1 := None)) = 1"
    "lowest (fds(3 \<mapsto> a, 4 \<mapsto> c, 1 := None)) = 1" "lowest (fds(3 \<mapsto> a, 4 \<mapsto> c, 0 := None)) = 0" "fds 3 = None" "fds 4 = None"
proof -
  have n: "(fds i = None) = (3 \<le> i)" for i using assms by (simp add: std_table_def)
  have f: "(fds 0 = None) = False" "(fds (Suc 0) = None) = False" "(fds 2 = None) = False" "fds 3 = None" "fds 4 = None"
    by (simp_all add: n)
  show "fds 3 = None" "fds 4 = None" by (rule f)+
  show "lowest fds = 3" "lowest (fds(3 \<mapsto> a)) = 4" "lowest (fds(0 := None)) = 0" "lowest (fds(1 := None)) = 1"
    "lowest (fds(3 \<mapsto> a, 4 \<mapsto> c, 1 := None)) = 1" "lowest (fds(3 \<mapsto> a, 4 \<mapsto> c, 0 := None)) = 0"
    unfolding lowest_def upt_NOFILE by (simp_all add: f)
qed

lemma runcmd_execs:
  assumes "cmd_ok Q c" "std_table fds"
  shows "execs (runcmd c) k fds = meaning c k fds"
  using assms
proof (induction c arbitrary: k fds)
  case (EXEC argv)
  then show ?case by simp
next
  case (REDIR c f m d)
  from REDIR.prems have d: "d = 0 \<or> d = 1" by (auto simp: redir_ok_def)
  then have l: "lowest (fds(nat d := None)) = nat d" using std_fds [OF REDIR.prems(2)] by auto
  have "std_table (fds(nat d \<mapsto> Opened f m))" using std_upd [OF REDIR.prems(2), of "nat d"] d by auto
  then have "execs (runcmd c) k (fds(nat d \<mapsto> Opened f m)) = meaning c k (fds(nat d \<mapsto> Opened f m))"
    using REDIR.IH REDIR.prems(1) by simp
  then show ?case using l by (simp add: Let_def)
next
  case (PIPE a r)
  note s = std_fds [OF PIPE.prems(2)]
  have t: "(fds(3 \<mapsto> x, 4 \<mapsto> y, 1 := None, 1 := Some y, 3 := None, 4 := None)) = fds(1 \<mapsto> y)"
    "(fds(3 \<mapsto> x, 4 \<mapsto> y, 0 := None, 0 := Some x, 3 := None, 4 := None)) = fds(0 \<mapsto> x)" for x y
    by (rule ext, simp add: s(7,8))+
  have "execs (runcmd a) k1 (fds(1 \<mapsto> x)) = meaning a k1 (fds(1 \<mapsto> x))" "execs (runcmd r) k1 (fds(0 \<mapsto> x)) = meaning r k1 (fds(0 \<mapsto> x))" for k1 x
    using PIPE.IH PIPE.prems(1) std_upd [OF PIPE.prems(2)] by simp_all
  then show ?case
    using s t by (simp add: Let_def fork1_def split: prod.splits)
next
  case (LIST a r)
  then show ?case by (simp add: Let_def fork1_def split: prod.splits)
next
  case (BACK c)
  then show ?case by (simp add: Let_def fork1_def split: prod.splits)
qed

lemma meaning_std:
  "cmd_ok Q c \<Longrightarrow> std_table fds \<Longrightarrow> list_all (\<lambda>(argv, fds'). std_table fds' \<and> argv \<noteq> []) (fst (meaning c k fds))"
proof (induction c arbitrary: k fds)
  case (REDIR c f m d)
  then show ?case using std_upd [of fds "nat d"] by (auto simp: redir_ok_def)
next
  case (PIPE a r)
  obtain xs k1 where 1: "meaning a (k + 1) (fds(1 \<mapsto> Pipe_write k)) = (xs, k1)" by fastforce
  obtain ys k2 where 2: "meaning r k1 (fds(0 \<mapsto> Pipe_read k)) = (ys, k2)" by fastforce
  have "std_table (fds(1 \<mapsto> Pipe_write k))" "std_table (fds(0 \<mapsto> Pipe_read k))" using std_upd [OF PIPE.prems(2)] by simp_all
  then show ?case
    using PIPE.IH(1) [of "fds(1 \<mapsto> Pipe_write k)" "k + 1"] PIPE.IH(2) [of "fds(0 \<mapsto> Pipe_read k)" k1] PIPE.prems(1) 1 2 by (simp del: fun_upd_apply)
next
  case (LIST a r)
  obtain xs k1 where 1: "meaning a k fds = (xs, k1)" by fastforce
  obtain ys k2 where 2: "meaning r k1 fds = (ys, k2)" by fastforce
  show ?case using LIST.IH(1) [of fds k] LIST.IH(2) [of fds k1] LIST.prems 1 2 by simp
qed simp_all



section \<open>A session\<close>

text \<open>What the lines of a session mean, up to the first empty one: a line the parser rejects and a \<^verbatim>\<open>cd\<close> run nothing.\<close>

definition line_meaning :: "u8 list \<Rightarrow> nat \<Rightarrow> fdtable \<Rightarrow> (u8 list list \<times> fdtable) list \<times> nat" where
  "line_meaning buf k fds = (if take 3 buf = [99, 100, 32] then ([], k)
     else case parsecmd buf of POk (c, b) _ \<Rightarrow> meaning (map_cmd (\<lambda>(q, e). cstr (drop q b)) c) k fds | _ \<Rightarrow> ([], k))"

primrec session :: "u8 list list \<Rightarrow> nat \<Rightarrow> fdtable \<Rightarrow> (u8 list list \<times> fdtable) list \<times> nat" where
  "session [] k fds = ([], k)"
| "session (buf # bufs) k fds = (if hd buf = 0 then ([], k)
     else let (xs, k) = line_meaning buf k fds; (ys, k) = session bufs k fds in (xs @ ys, k))"

text \<open>The descriptors the shell goes on with: the missing ones among the first three are opened on the console.\<close>

definition fill_std :: "fdtable \<Rightarrow> fdtable" where
  "fill_std fds i = (if i < 3 \<and> fds i = None then Some (Opened (map of_char ''console'') O_RDWR) else fds i)"

lemma cmd_ok_map: "cmd_ok Q c \<Longrightarrow> cmd_ok (\<lambda>_. True) (map_cmd f c)"
  by (induction c) (auto simp: list_all_iff)

lemma run_line_execs:
  assumes "std_table fds"
  shows "execs (run_line buf p) k fds = (let (xs, k) = line_meaning buf k fds; (ys, k) = execs p k fds in (xs @ ys, k))"
proof (cases "take 3 buf = [99, 100, 32]")
  case True
  then show ?thesis by (simp add: run_line_def line_meaning_def Let_def split: prod.splits)
next
  case False
  show ?thesis
  proof (cases "parsecmd buf")
    case (POk x s)
    obtain c b where x: "x = (c, b)" by fastforce
    obtain es where "cmd_ok (word_at buf es) c" using parsecmd_ok POk x by blast
    then have "execs (runcmd (map_cmd (\<lambda>(q, e). cstr (drop q b)) c)) k fds = meaning (map_cmd (\<lambda>(q, e). cstr (drop q b)) c) k fds"
      using runcmd_execs [OF cmd_ok_map assms] by blast
    then show ?thesis using False POk x by (simp add: run_line_def line_meaning_def fork1_def Let_def split: prod.splits)
  qed (use False in \<open>simp_all add: run_line_def line_meaning_def fork1_def sh_panic_def Let_def split: prod.splits\<close>)
qed

lemma sh_loop_execs: "std_table fds \<Longrightarrow> execs (sh_loop bufs) k fds = session bufs k fds"
  by (induction bufs arbitrary: k) (simp_all add: getcmd_def run_line_execs Let_def split: prod.splits)

lemma all_lt_3: "(\<forall>i < 3. P i) \<longleftrightarrow> P 0 \<and> P (Suc 0) \<and> P (2 :: nat)"
  by (auto simp: numeral_3_eq_3 numeral_2_eq_2 less_Suc_eq)

lemma lowest_free: "\<not> (\<forall>i < 3. fds i \<noteq> None) \<Longrightarrow> lowest fds < 3 \<and> fds (lowest fds) = None"
  unfolding lowest_def upt_NOFILE all_lt_3 by (cases "fds 0"; cases "fds (Suc 0)"; cases "fds 2"; simp)

lemma lowest_full: "\<forall>i < 3. fds i \<noteq> None \<Longrightarrow> fds 3 = None \<Longrightarrow> lowest fds = 3"
  unfolding lowest_def upt_NOFILE all_lt_3 by (cases "fds 0"; cases "fds (Suc 0)"; cases "fds 2"; simp)

lemma sh_open_execs:
  assumes "\<And>i. 3 \<le> i \<Longrightarrow> fds i = None" "card {i \<in> {0, 1, 2}. fds i = None} < n"
  shows "execs (sh_open n p) k fds = execs p k (fill_std fds)"
  using assms
proof (induction n arbitrary: fds)
  case (Suc n)
  let ?o = "Opened (map of_char ''console'') O_RDWR"
  have f3: "fds 3 = None" using Suc.prems(1) by simp
  show ?case
  proof (cases "\<forall>i < 3. fds i \<noteq> None")
    case False
    define i where "i = lowest fds"
    have i: "i < 3" "fds i = None" unfolding i_def using lowest_free [OF False] by simp_all
    have e: "{j \<in> {0, 1, 2}. (fds(i \<mapsto> ?o)) j = None} = {j \<in> {0, 1, 2}. fds j = None} - {i}" by auto
    have "i \<in> {j \<in> {0, 1, 2}. fds j = None}" using i by auto
    then have "card {j \<in> {0, 1, 2}. (fds(i \<mapsto> ?o)) j = None} < card {j \<in> {0, 1, 2}. fds j = None}"
      unfolding e by (intro card_Diff1_less) simp_all
    then have "execs (sh_open n p) k (fds(i \<mapsto> ?o)) = execs p k (fill_std (fds(i \<mapsto> ?o)))"
      using Suc.prems i by (intro Suc.IH) simp_all
    moreover have "fill_std (fds(i \<mapsto> ?o)) = fill_std fds" using i by (auto simp: fill_std_def fun_eq_iff)
    ultimately show ?thesis using i by (simp add: Let_def flip: i_def)
  next
    case True
    then have "lowest fds = 3" using f3 by (rule lowest_full)
    moreover have "fill_std fds = fds(3 := None)" using True f3 by (auto simp: fill_std_def fun_eq_iff)
    ultimately show ?thesis by (simp add: Let_def del: fun_upd_apply)
  qed
qed simp



end
