(* ===== verification/Pipes.thy ===== *)
theory Pipes
  imports File
begin

text \<open>
  Pipes as bounded queues. The ring buffers of the kernel (\<^verbatim>\<open>pipe.c\<close>, and the input buffer of \<^verbatim>\<open>console.c\<close>) are seen
  through one interface, a bounded first-in first-out queue; \<^verbatim>\<open>pipewrite\<close> and \<^verbatim>\<open>piperead\<close> are then specified on the queue.
\<close>

section \<open>Bounded queues\<close>

locale bounded_queue =
  fixes ok :: "'q \<Rightarrow> bool" and contents :: "'q \<Rightarrow> 'a list" and capacity :: nat
    and full :: "'q \<Rightarrow> bool" and empty :: "'q \<Rightarrow> bool"
    and put :: "'a \<Rightarrow> 'q \<Rightarrow> 'q" and get :: "'q \<Rightarrow> 'a" and advance :: "'q \<Rightarrow> 'q"
  assumes full_iff: "ok q \<Longrightarrow> full q \<longleftrightarrow> length (contents q) = capacity"
    and bounded: "ok q \<Longrightarrow> length (contents q) \<le> capacity"
    and empty_iff: "ok q \<Longrightarrow> empty q \<longleftrightarrow> contents q = []"
    and put_ok: "ok q \<Longrightarrow> \<not> full q \<Longrightarrow> ok (put c q)"
    and put_contents: "ok q \<Longrightarrow> \<not> full q \<Longrightarrow> contents (put c q) = contents q @ [c]"
    and advance_ok: "ok q \<Longrightarrow> \<not> empty q \<Longrightarrow> ok (advance q)"
    and advance_contents: "ok q \<Longrightarrow> \<not> empty q \<Longrightarrow> contents q = get q # contents (advance q)"
begin

fun puts :: "'a list \<Rightarrow> 'q \<Rightarrow> 'q" where
  "puts [] q = q"
| "puts (c # cs) q = (if full q then q else puts cs (put c q))"

fun takes :: "nat \<Rightarrow> 'q \<Rightarrow> 'a list \<times> 'q" where
  "takes 0 q = ([], q)"
| "takes (Suc n) q = (if empty q then ([], q) else let (cs, q') = takes n (advance q) in (get q # cs, q'))"

lemma puts_ok: "ok q \<Longrightarrow> ok (puts cs q) \<and> contents (puts cs q) = contents q @ take (capacity - length (contents q)) cs"
proof (induction cs arbitrary: q)
  case (Cons c cs)
  show ?case
  proof (cases "full q")
    case True
    then show ?thesis using Cons.prems full_iff by simp
  next
    case False
    then have "length (contents q) < capacity" using Cons.prems full_iff bounded by fastforce
    then obtain m where m: "capacity - length (contents q) = Suc m" "capacity - Suc (length (contents q)) = m" by (metis Suc_diff_Suc)
    show ?thesis using Cons.IH [OF put_ok [OF Cons.prems False]] False m by (simp add: put_contents [OF Cons.prems])
  qed
qed simp

lemma takes_ok:
  "ok q \<Longrightarrow> takes n q = (cs, q') \<Longrightarrow> cs = take n (contents q) \<and> contents q' = drop n (contents q) \<and> ok q'"
proof (induction n arbitrary: q cs)
  case (Suc n)
  show ?case
  proof (cases "empty q")
    case True
    then show ?thesis using Suc.prems empty_iff by simp
  next
    case False
    obtain ds where ds: "takes n (advance q) = (ds, q')" "cs = get q # ds" using Suc.prems(2) False by (auto split: prod.splits)
    show ?thesis using Suc.IH [OF advance_ok [OF Suc.prems(1) False] ds(1)] ds(2) advance_contents [OF Suc.prems(1) False]
      by (metis drop_Suc_Cons take_Suc_Cons)
  qed
qed simp

end

section \<open>The ring of a pipe\<close>

definition pipe_ok :: "pipe \<Rightarrow> bool" where
  "pipe_ok x \<longleftrightarrow> length (p_data x) = PIPESIZE \<and> unat (nwrite x - nread x) \<le> PIPESIZE"

definition pipe_contents :: "pipe \<Rightarrow> u8 list" where
  "pipe_contents x = map (\<lambda>i. p_data x ! ((unat (nread x) + i) mod PIPESIZE)) [0..<unat (nwrite x - nread x)]"

abbreviation pipe_full :: "pipe \<Rightarrow> bool" where
  "pipe_full x \<equiv> nwrite x = nread x + 512"

abbreviation pipe_empty :: "pipe \<Rightarrow> bool" where
  "pipe_empty x \<equiv> nread x = nwrite x"

abbreviation pipe_next :: "pipe \<Rightarrow> u8" where
  "pipe_next x \<equiv> p_data x ! (unat (nread x) mod PIPESIZE)"

abbreviation pipe_advance :: "pipe \<Rightarrow> pipe" where
  "pipe_advance x \<equiv> x\<lparr>nread := nread x + 1\<rparr>"

text \<open>The counters run freely through the 32-bit numbers; the size of the ring divides their range.\<close>

lemma unat_mod_ring: "unat (a + b :: u32) mod PIPESIZE = (unat a + unat b) mod PIPESIZE"
  by (simp add: unat_word_ariths mod_mod_cancel)

lemma unat_plus_one: "unat (d :: u32) \<le> PIPESIZE \<Longrightarrow> unat (d + 1) = Suc (unat d)"
  by (simp add: unat_word_ariths)

lemma unat_less_one: "d \<noteq> (0 :: u32) \<Longrightarrow> unat d = Suc (unat (d - 1))"
  using unat_minus_one [of d] unat_gt_0 [of d] by simp

lemma pipe_full_iff: "pipe_ok x \<Longrightarrow> pipe_full x \<longleftrightarrow> unat (nwrite x - nread x) = PIPESIZE"
proof -
  have "pipe_full x \<longleftrightarrow> nwrite x - nread x = 512" by (auto simp: algebra_simps)
  also have "\<dots> \<longleftrightarrow> unat (nwrite x - nread x) = PIPESIZE" by (simp add: word_unat_eq_iff)
  finally show ?thesis .
qed

lemma pipe_contents_put:
  assumes "pipe_ok x" "\<not> pipe_full x"
  shows "pipe_contents (pipe_put c x) = pipe_contents x @ [c]" "pipe_ok (pipe_put c x)"
proof -
  define n r where "n = unat (nwrite x - nread x)" and "r = unat (nread x)"
  have n: "n < PIPESIZE" using assms pipe_full_iff [OF assms(1)] unfolding pipe_ok_def n_def by (simp add: le_less)
  have l: "length (p_data x) = PIPESIZE" using assms(1) by (simp add: pipe_ok_def)
  have e: "nwrite x + 1 - nread x = (nwrite x - nread x) + 1" by simp
  have n1: "unat (nwrite x + 1 - nread x) = Suc n" unfolding e using unat_plus_one [of "nwrite x - nread x"] n by (simp add: n_def)
  have w: "unat (nwrite x) mod PIPESIZE = (r + n) mod PIPESIZE"
    using unat_mod_ring [of "nread x" "nwrite x - nread x"] by (simp add: n_def r_def)
  have d: "(r + i) mod PIPESIZE \<noteq> (r + n) mod PIPESIZE" if "i < n" for i
  proof
    assume "(r + i) mod PIPESIZE = (r + n) mod PIPESIZE"
    then have "PIPESIZE dvd n - i" using that mod_eq_dvd_iff_nat [of "r + i" "r + n" PIPESIZE] by simp
    then show False using that n nat_dvd_not_less [of "n - i" PIPESIZE] by simp
  qed
  show "pipe_contents (pipe_put c x) = pipe_contents x @ [c]"
    using l by (simp add: pipe_contents_def pipe_put_def n1 w nth_list_update_neq [OF d [symmetric]] flip: n_def r_def)
  show "pipe_ok (pipe_put c x)" using l n by (simp add: pipe_ok_def pipe_put_def n1)
qed

lemma pipe_contents_advance:
  assumes "pipe_ok x" "\<not> pipe_empty x"
  shows "pipe_contents x = pipe_next x # pipe_contents (pipe_advance x)" "pipe_ok (pipe_advance x)"
proof -
  let ?d = "nwrite x - nread x"
  have n: "unat ?d = Suc (unat (?d - 1))" using assms(2) by (intro unat_less_one) simp
  have e: "nwrite x - (nread x + 1) = ?d - 1" by simp
  have "(unat (nread x + 1) + i) mod PIPESIZE = (unat (nread x) + Suc i) mod PIPESIZE" for i
    using unat_mod_ring [of "nread x" 1] by (simp add: mod_add_left_eq [symmetric, of "unat (nread x + 1)"] mod_simps)
  then show "pipe_contents x = pipe_next x # pipe_contents (pipe_advance x)"
    by (simp add: pipe_contents_def n e upt_conv_Cons map_Suc_upt [symmetric] comp_def del: upt_Suc)
  show "pipe_ok (pipe_advance x)" using assms(1) n by (simp add: pipe_ok_def e)
qed

interpretation pq: bounded_queue pipe_ok pipe_contents PIPESIZE pipe_full pipe_empty pipe_put pipe_next pipe_advance
proof unfold_locales
  show "pipe_full q \<longleftrightarrow> length (pipe_contents q) = PIPESIZE" if "pipe_ok q" for q
    using pipe_full_iff [OF that] by (simp add: pipe_contents_def)
  show "length (pipe_contents q) \<le> PIPESIZE" if "pipe_ok q" for q using that by (simp add: pipe_contents_def pipe_ok_def)
  show "pipe_empty q \<longleftrightarrow> pipe_contents q = []" for q by (auto simp: pipe_contents_def unat_eq_0)
qed (fact pipe_contents_put pipe_contents_advance)+

section \<open>Writing\<close>

text \<open>What a process needs for a call on a pipe that may sleep: both locks free, no other lock held, and a current process.\<close>

definition pipe_ready :: "u32 \<Rightarrow> nat \<Rightarrow> 'a file_state_scheme \<Rightarrow> bool" where
  "pipe_ready p q s \<longleftrightarrow> lockable (L_pipe p) s \<and> lockable L_ptable s \<and> ncli (this_cpu s) = 0 \<and> cur s = Some q \<and> q < length (ptable s)"

text \<open>Going to sleep on \<open>c\<close>: the process is marked, only the lock of the process table is held.\<close>

definition asleep :: "nat \<Rightarrow> Proc.chan \<Rightarrow> 'a file_state_scheme \<Rightarrow> 'a file_state_scheme" where
  "asleep q c s = acq L_ptable (upd_proc q (\<lambda>r. r\<lparr>pchan := Some c, pstate := SLEEPING\<rparr>) s)"

abbreviation put_pipe :: "u32 \<Rightarrow> pipe \<Rightarrow> 'a file_state_scheme \<Rightarrow> 'a file_state_scheme" where
  "put_pipe p x s \<equiv> s\<lparr>pipes := (pipes s)(p := x)\<rparr>"

abbreviation woken :: "Proc.chan \<Rightarrow> 'a file_state_scheme \<Rightarrow> 'a file_state_scheme" where
  "woken c s \<equiv> s\<lparr>ptable := map (wake1 c) (ptable s)\<rparr>"

lemma pipe_ready_frame [simp]:
  "pipe_ready p q (put_pipe p' x s) = pipe_ready p q s" "pipe_ready p q (woken c s) = pipe_ready p q s"
  by (simp_all add: pipe_ready_def)

lemma puts_open [simp]: "readopen (pq.puts cs x) = readopen x" "writeopen (pq.puts cs x) = writeopen x"
  by (induction cs arbitrary: x) (simp_all add: pipe_put_def)

lemma pipewrite_blocks:
  assumes "pipe_ready p q s" "pipe_full (pipes s p)"
  shows "pipewrite_loop p n (c # cs) (acq (L_pipe p) s) =
    (if \<not> readopen (pipes s p) \<or> killed (ptable s ! q) then Ret (-1) s else Switch (asleep q (Ch_nwrite p) (woken (Ch_nread p) s)))"
proof -
  have k: "cur_killed (acq (L_pipe p) s) = Ret (killed (ptable s ! q)) (acq (L_pipe p) s)"
    using assms(1) by (simp add: cur_killed_def pipe_ready_def)
  have w: "wakeup (Ch_nread p) (acq (L_pipe p) s) = Ret () (acq (L_pipe p) (woken (Ch_nread p) s))"
    using assms(1) by (simp add: pipe_ready_def)
  have "sleep (Ch_nwrite p) (L_pipe p) (acq (L_pipe p) (woken (Ch_nread p) s)) = Switch (asleep q (Ch_nwrite p) (woken (Ch_nread p) s))"
    unfolding asleep_def using assms(1) by (intro sleep_switch) (simp_all add: pipe_ready_def)
  then have sl: "(sleep_retry (Ch_nwrite p) (L_pipe p) (acq (L_pipe p) (woken (Ch_nread p) s)) :: (_, int) outcome) = Switch (asleep q (Ch_nwrite p) (woken (Ch_nread p) s))"
    by (simp add: sleep_retry_def kop_simps)
  have "lockable (L_pipe p) s" using assms(1) by (simp add: pipe_ready_def)
  then show ?thesis using assms(2) k w sl by (simp add: kop_simps)
qed

lemma pipewrite_loop_eq:
  assumes "pipe_ready p q s" "pipe_ok (pipes s p)"
  shows "pipewrite_loop p n cs (acq (L_pipe p) s) =
    (let x = pq.puts cs (pipes s p) in
     if length cs \<le> PIPESIZE - length (pipe_contents (pipes s p)) then Ret n (woken (Ch_nread p) (put_pipe p x s))
     else if \<not> readopen x \<or> killed (ptable s ! q) then Ret (-1) (put_pipe p x s)
     else Switch (asleep q (Ch_nwrite p) (woken (Ch_nread p) (put_pipe p x s))))"
  using assms
proof (induction cs arbitrary: s)
  case Nil
  then have "lockable (L_pipe p) s" "lockable L_ptable s" by (simp_all add: pipe_ready_def)
  then show ?case by (simp add: kop_simps)
next
  case (Cons c cs)
  show ?case
  proof (cases "pipe_full (pipes s p)")
    case True
    then have "length (pipe_contents (pipes s p)) = PIPESIZE" using pq.full_iff Cons.prems(2) by blast
    then show ?thesis using pipewrite_blocks [OF Cons.prems(1) True] True by simp
  next
    case False
    let ?s = "put_pipe p (pipe_put c (pipes s p)) s"
    note pc = pipe_contents_put [OF Cons.prems(2) False, of c]
    have "length (pipe_contents (pipes s p)) < PIPESIZE"
      using False pq.full_iff [OF Cons.prems(2)] pq.bounded [OF Cons.prems(2)] by simp
    then have l: "length (c # cs) \<le> PIPESIZE - length (pipe_contents (pipes s p)) \<longleftrightarrow>
        length cs \<le> PIPESIZE - length (pipe_contents (pipes ?s p))" using pc(1) by auto
    have "pipewrite_loop p n (c # cs) (acq (L_pipe p) s) = pipewrite_loop p n cs (acq (L_pipe p) ?s)"
      using False by (simp add: upd_pipe_def kop_simps)
    also have "\<dots> = (let x = pq.puts cs (pipes ?s p) in
       if length cs \<le> PIPESIZE - length (pipe_contents (pipes ?s p)) then Ret n (woken (Ch_nread p) (put_pipe p x ?s))
       else if \<not> readopen x \<or> killed (ptable ?s ! q) then Ret (-1) (put_pipe p x ?s)
       else Switch (asleep q (Ch_nwrite p) (woken (Ch_nread p) (put_pipe p x ?s))))"
      using pc(2) Cons.prems(1) by (intro Cons.IH) simp_all
    finally show ?thesis unfolding l using False by (simp add: Let_def)
  qed
qed

text \<open>
  C10: Writing to a pipe appends to the queue of its bytes: as many bytes as there is room for are appended in order; if
  that is all of them, the readers are woken and the count is returned; otherwise the call fails when no reader is left or
  the process has been killed, and else wakes the readers and goes to sleep with the pipe's lock given up. Nothing else changes.
\<close>

theorem pipewrite_correct:
  assumes "pipe_ready p q s" "pipe_ok (pipes s p)"
  shows "\<exists>x. pipe_ok x \<and> pipe_contents x = pipe_contents (pipes s p) @ take (PIPESIZE - length (pipe_contents (pipes s p))) cs \<and>
      readopen x = readopen (pipes s p) \<and> writeopen x = writeopen (pipes s p) \<and>
      pipewrite p cs n s =
       (if length cs \<le> PIPESIZE - length (pipe_contents (pipes s p)) then Ret n (woken (Ch_nread p) (put_pipe p x s))
        else if \<not> readopen x \<or> killed (ptable s ! q) then Ret (-1) (put_pipe p x s)
        else Switch (asleep q (Ch_nwrite p) (woken (Ch_nread p) (put_pipe p x s))))"
proof -
  have "lockable (L_pipe p) s" using assms(1) by (simp add: pipe_ready_def)
  then have "pipewrite p cs n s = pipewrite_loop p n cs (acq (L_pipe p) s)" by (simp add: pipewrite_def kop_simps)
  then show ?thesis
    using pipewrite_loop_eq [OF assms, of n cs] pq.puts_ok [OF assms(2), of cs]
    by (intro exI [of _ "pq.puts cs (pipes s p)"]) (simp add: Let_def)
qed

section \<open>Reading\<close>

lemma pipe_take_takes: "pipe_take n x = pq.takes n x"
  by (induction n arbitrary: x) simp_all

lemma takes_open: "pq.takes n x = (cs, y) \<Longrightarrow> readopen y = readopen x \<and> writeopen y = writeopen x"
  by (induction n arbitrary: x cs) (fastforce split: if_splits prod.splits)+

text \<open>
  C11: Reading from a pipe takes from the front of the queue: when there are bytes, or no writer is left, the first \<open>n\<close>
  of them are returned and removed and the writers are woken, so that at the end of a closed pipe 0 is returned; on an empty pipe with a
  writer the call fails when the process has been killed and else goes to sleep. Nothing else changes.
\<close>

theorem piperead_correct:
  assumes "pipe_ready p q s" "pipe_ok (pipes s p)"
  shows "\<exists>x. pipe_ok x \<and> pipe_contents x = drop n (pipe_contents (pipes s p)) \<and>
      readopen x = readopen (pipes s p) \<and> writeopen x = writeopen (pipes s p) \<and>
      piperead p n s =
       (if pipe_contents (pipes s p) = [] \<and> writeopen (pipes s p)
        then if killed (ptable s ! q) then Ret (-1, []) s else Switch (asleep q (Ch_nread p) s)
        else Ret (int (min n (length (pipe_contents (pipes s p)))), take n (pipe_contents (pipes s p))) (woken (Ch_nwrite p) (put_pipe p x s)))"
proof -
  obtain cs x where t: "pipe_take n (pipes s p) = (cs, x)" by fastforce
  have x: "cs = take n (pipe_contents (pipes s p))" "pipe_contents x = drop n (pipe_contents (pipes s p))" "pipe_ok x"
    using pq.takes_ok [OF assms(2) t [unfolded pipe_take_takes]] by simp_all
  have e: "pipe_empty (pipes s p) \<longleftrightarrow> pipe_contents (pipes s p) = []" by (rule pq.empty_iff [OF assms(2)])
  have lk: "lockable (L_pipe p) s" "lockable L_ptable s" using assms(1) by (simp_all add: pipe_ready_def)
  have k: "cur_killed (acq (L_pipe p) s) = Ret (killed (ptable s ! q)) (acq (L_pipe p) s)"
    using assms(1) by (simp add: cur_killed_def pipe_ready_def)
  have "sleep (Ch_nread p) (L_pipe p) (acq (L_pipe p) s) = Switch (asleep q (Ch_nread p) s)"
    unfolding asleep_def using assms(1) by (intro sleep_switch) (simp_all add: pipe_ready_def)
  then have sl: "(sleep_retry (Ch_nread p) (L_pipe p) (acq (L_pipe p) s) :: (_, int \<times> u8 list) outcome) = Switch (asleep q (Ch_nread p) s)"
    by (simp add: sleep_retry_def kop_simps)
  have c: "piperead_copy p n (acq (L_pipe p) s) = Ret (int (length cs), cs) (woken (Ch_nwrite p) (put_pipe p x s))"
    using lk t by (simp add: piperead_copy_def upd_pipe_def kop_simps)
  show ?thesis
    using x takes_open [OF t [unfolded pipe_take_takes]] e k sl c lk
    by (intro exI [of _ x]) (simp add: piperead_def piperead_loop_def kop_simps min.commute)
qed

section \<open>A machine with one process\<close>

definition idle_machine :: "proc list \<Rightarrow> file_struct list \<Rightarrow> (u32 \<Rightarrow> pipe) \<Rightarrow> 'a \<Rightarrow> 'a file_state_scheme" where
  "idle_machine ps fs pp m = (bio_zero [] (log_state_ext 100 10 False 1 0 (replicate LOGSIZE 0) (icache_state_ext []
     (dev_state_ext [] 0xFFFB False 0 (\<lambda>_. 0) None (cons_state_ext True False (replicate 2000 0) 0 False [] [] [] 0 0
       \<lparr>in_buf = replicate 128 0, in_r = 0, in_w = 0, in_e = 0\<rparr> (replicate NDEV \<lparr>dev_read = None, dev_write = None\<rparr>)
       (file_state_ext fs pp m))))))\<lparr>cpus := (\<lambda>_. boot_cpu\<lparr>cproc := Some 0\<rparr>), ptable := ps\<rparr>"

lemma idle_machine_simps [simp]:
  "lockable lk (idle_machine ps fs pp m)" "cur (idle_machine ps fs pp m) = Some 0" "ptable (idle_machine ps fs pp m) = ps"
  "ncli (this_cpu (idle_machine ps fs pp m)) = 0" "ftable (idle_machine ps fs pp m) = fs" "pipes (idle_machine ps fs pp m) = pp"
  by (simp_all add: idle_machine_def bio_zero_def lockable_def boot_cpu_def)

text \<open>A pipe whose counters are about to wrap, with one byte in it.\<close>

definition wrap_pipe :: pipe where
  "wrap_pipe = \<lparr>p_data = (replicate 512 0)[511 := 65], nread = 0xFFFFFFFF, nwrite = 0, readopen = True, writeopen = True\<rparr>"

lemma wrap_pipe_contents: "pipe_ok wrap_pipe" "pipe_contents wrap_pipe = [65]" "readopen wrap_pipe" "writeopen wrap_pipe"
  by (simp_all add: wrap_pipe_def pipe_ok_def pipe_contents_def)

abbreviation wrap_machine :: file_state where
  "wrap_machine \<equiv> idle_machine [proc_zero\<lparr>pstate := RUNNING\<rparr>] [] (\<lambda>_. wrap_pipe) ()"

theorem pipewrite_correct_witness:
  "\<exists>t. pipewrite 0 [66, 67] 2 wrap_machine = Ret 2 t \<and> pipe_contents (pipes t 0) = [65, 66, 67]"
proof -
  have "pipe_ready 0 0 wrap_machine" by (simp add: pipe_ready_def)
  then show ?thesis using pipewrite_correct [of 0 0 wrap_machine "[66, 67]" 2] wrap_pipe_contents by auto
qed

theorem piperead_correct_witness:
  "\<exists>t. piperead 0 5 wrap_machine = Ret (1, [65]) t \<and> pipe_contents (pipes t 0) = []"
proof -
  have "pipe_ready 0 0 wrap_machine" by (simp add: pipe_ready_def)
  then show ?thesis using piperead_correct [of 0 0 wrap_machine 5] wrap_pipe_contents by auto
qed

end
