(* ===== verification/Frames.thy ===== *)
theory Frames
  imports Trap Pipes
begin

text \<open>
  What the routines of the kernel leave alone. The view of a state is the current process, the reference counts of the
  open files, the next process number and, of every process, its descriptors, its number and the stage of its life. All
  routines but the few that manage exactly these keep the view when they return (\<open>frame\<close>).
\<close>

section \<open>The view\<close>

datatype stage = Free | Embryo | Alive | Dead

fun stage_of :: "procstate \<Rightarrow> stage" where
  "stage_of UNUSED = Free"
| "stage_of EMBRYO = Embryo"
| "stage_of ZOMBIE = Dead"
| "stage_of SLEEPING = Alive"
| "stage_of RUNNABLE = Alive"
| "stage_of RUNNING = Alive"

record pview =
  v_files :: "nat option list"
  v_pid :: int
  v_stage :: stage

record view =
  v_cur :: "nat option"
  v_refs :: "int list"
  v_next :: int
  v_procs :: "pview list"

definition pkey :: "proc \<Rightarrow> pview" where
  "pkey p = \<lparr>v_files = ofile p, v_pid = pid p, v_stage = stage_of (pstate p)\<rparr>"

definition kview :: "'a file_state_scheme \<Rightarrow> view" where
  "kview s = \<lparr>v_cur = cur s, v_refs = map f_ref (ftable s), v_next = nextpid s, v_procs = map pkey (ptable s)\<rparr>"

text \<open>An outcome that, if it is a return, has view \<open>v\<close>.\<close>

definition ret_in :: "view \<Rightarrow> ('a file_state_scheme, 'b) outcome \<Rightarrow> bool" where
  "ret_in v r \<longleftrightarrow> (\<forall>a t. r = Ret a t \<longrightarrow> kview t = v)"

named_theorems frame "routines keep the view"

declare Let_def [simp] option.split [split] prod.split [split]

lemma ret_in_simps [frame]:
  "ret_in v (Ret a t) \<longleftrightarrow> kview t = v" "ret_in v (Panic e)" "ret_in v (Switch t)" "ret_in v Hang" "ret_in v Fault"
  by (simp_all add: ret_in_def)

lemma ret_inD: "ret_in v (m s) \<Longrightarrow> m s = Ret a t \<Longrightarrow> kview t = v"
  by (simp add: ret_in_def)

lemma ret_in_kbind [frame]:
  "(\<And>s. ret_in (kview s) (m s)) \<Longrightarrow> (\<And>a t. ret_in (kview t) (f a t)) \<Longrightarrow> ret_in (kview s) (kbind m f s)"
  unfolding ret_in_def by (metis kbind_RetD)

lemma ret_in_kseq [frame]:
  "(\<And>s. ret_in (kview s) (m s)) \<Longrightarrow> (\<And>t. ret_in (kview t) (n t)) \<Longrightarrow> ret_in (kview s) (kseq m n s)"
  unfolding kseq_def by (rule ret_in_kbind)

lemma ret_in_basic [frame]:
  "ret_in (kview s) (kret a s)" "ret_in (kview s) (kget f s)" "ret_in (kview s) (kpanic e s)" "ret_in (kview s) (kfault s)"
  "ret_in (kview s) (kassert P e s)"
  by (simp_all add: kop_simps ret_in_simps)

lemma ret_in_kmod [frame]: "kview (f s) = kview s \<Longrightarrow> ret_in (kview s) (kmod f s)"
  by (simp add: kmod_def ret_in_simps)

lemma ret_in_kfor [frame]: "(\<And>i s. ret_in (kview s) (f i s)) \<Longrightarrow> ret_in (kview s) (kfor is f s)"
  by (induction "is" arbitrary: s) (simp_all add: frame)

lemma ret_in_kforeach [frame]: "(\<And>i s. ret_in (kview s) (f i s)) \<Longrightarrow> ret_in (kview s) (kforeach is f s)"
  by (induction "is" arbitrary: s) (simp_all add: frame)

lemma kview_upd [frame]:
  "kview (s\<lparr>locks := a2\<rparr>) = kview s"
  "kview (s\<lparr>initproc := a3\<rparr>) = kview s" "kview (s\<lparr>mem := a4\<rparr>) = kview s" "kview (s\<lparr>use_lock := a5\<rparr>) = kview s"
  "kview (s\<lparr>freelist := a6\<rparr>) = kview s" "kview (s\<lparr>bcache := a7\<rparr>) = kview s" "kview (s\<lparr>memdisk := a8\<rparr>) = kview s"
  "kview (s\<lparr>lh_n := a9\<rparr>) = kview s" "kview (s\<lparr>lh_sector := b0\<rparr>) = kview s" "kview (s\<lparr>log_busy := b1\<rparr>) = kview s"
  "kview (s\<lparr>icache := b2\<rparr>) = kview s" "kview (s\<lparr>ports := b3\<rparr>) = kview s" "kview (s\<lparr>irqmask := b4\<rparr>) = kview s"
  "kview (s\<lparr>ioapic_reg := b5\<rparr>) = kview s" "kview (s\<lparr>lapic := b6\<rparr>) = kview s" "kview (s\<lparr>crt := c0\<rparr>) = kview s"
  "kview (s\<lparr>crt_pos := c1\<rparr>) = kview s" "kview (s\<lparr>serial_out := c2\<rparr>) = kview s" "kview (s\<lparr>uart_in := c3\<rparr>) = kview s"
  "kview (s\<lparr>kbd_in := c4\<rparr>) = kview s" "kview (s\<lparr>kbd_shift := c5\<rparr>) = kview s" "kview (s\<lparr>cpunum_n := c6\<rparr>) = kview s"
  "kview (s\<lparr>input := c7\<rparr>) = kview s" "kview (s\<lparr>pipes := c8\<rparr>) = kview s" "kview (s\<lparr>log_start := c9\<rparr>) = kview s"
  "kview (s\<lparr>log_size := d0\<rparr>) = kview s" "kview (s\<lparr>log_dev := d1\<rparr>) = kview s"
  by (simp_all add: kview_def)

lemma kview_upd_vm [frame]:
  "kview (s\<lparr>kpgdir := a0\<rparr>) = kview s" "kview (s\<lparr>cr3 := a1\<rparr>) = kview s" "kview (s\<lparr>gdt := a2\<rparr>) = kview s"
  "kview (s\<lparr>ts_ss0 := a3\<rparr>) = kview s" "kview (s\<lparr>ts_esp0 := a4\<rparr>) = kview s" "kview (s\<lparr>reg_tr := a5\<rparr>) = kview s"
  by (simp_all add: kview_def)

lemma kview_upd_sys [frame]:
  "kview (s\<lparr>ticks := a0\<rparr>) = kview s" "kview (s\<lparr>forkret_first := a1\<rparr>) = kview s"
  by (simp_all add: kview_def)

lemma kview_set_cpu [frame]: "cproc c = cur s \<Longrightarrow> kview (set_cpu c s) = kview s"
  by (simp add: set_cpu_def kview_def)

lemma pkey_upd [frame]:
  "pkey (p\<lparr>sz := a0\<rparr>) = pkey p" "pkey (p\<lparr>pgdir := a1\<rparr>) = pkey p" "pkey (p\<lparr>kstack := a2\<rparr>) = pkey p"
  "pkey (p\<lparr>parent := a3\<rparr>) = pkey p" "pkey (p\<lparr>tf := a4\<rparr>) = pkey p" "pkey (p\<lparr>ctx := a5\<rparr>) = pkey p"
  "pkey (p\<lparr>pchan := a6\<rparr>) = pkey p" "pkey (p\<lparr>killed := a7\<rparr>) = pkey p" "pkey (p\<lparr>cwd := a8\<rparr>) = pkey p"
  "pkey (p\<lparr>pname := a9\<rparr>) = pkey p" "pkey (p\<lparr>alarmticks := b0\<rparr>) = pkey p" "pkey (p\<lparr>alarmticked := b1\<rparr>) = pkey p"
  "pkey (p\<lparr>alarmhandler := b2\<rparr>) = pkey p"
  by (simp_all add: pkey_def)

lemma kview_upd_proc [frame]: "(\<And>q. pkey (f q) = pkey q) \<Longrightarrow> kview (upd_proc p f s) = kview s"
  by (simp add: kview_def upd_proc_def map_update list_update_same_conv)
    (metis list_update_beyond list_update_id map_update not_less)

section \<open>Locks, processes, pages\<close>

lemma frame_locks [frame]:
  "ret_in (kview s) (initlock lk nm s)" "ret_in (kview s) (pushcli s)" "ret_in (kview s) (popcli s)"
  "ret_in (kview s) (acquire lk s)" "ret_in (kview s) (release lk s)"
  by (simp_all add: initlock_def pushcli_def popcli_def acquire_def release_def frame)

lemma sleep_frame [frame]: "ret_in (kview s) (sleep c lk s)" "ret_in (kview s) (sleep_retry c lk s)"
  using sleep_no_return [of c lk s] by (auto simp: ret_in_def sleep_retry_def kseq_def kfault_def dest!: kbind_RetD)

lemma map_pkey_wake1 [frame]: "map pkey (map (wake1 c) ps) = map pkey ps" "pkey (wake1 c p) = pkey p"
  by (auto simp: wake1_def pkey_def)

lemma frame_wakeup1 [frame]: "ret_in (kview s) (wakeup1 c s)"
  by (simp add: wakeup1_def kmod_def ret_in_simps) (simp add: kview_def frame comp_def)

lemma frame_wakeup [frame]: "ret_in (kview s) (wakeup c s)"
  by (simp add: wakeup_def frame)

lemma pkey_kill [frame]: "pkey (p\<lparr>killed := k, pstate := if pstate p = SLEEPING then RUNNABLE else pstate p\<rparr>) = pkey p"
  by (simp add: pkey_def)

lemma frame_kill [frame]: "ret_in (kview s) (kill n s)"
  by (simp add: kill_def frame del: if_split)

lemma frame_with_cur [frame]: "(\<And>p. ret_in (kview s) (f p s)) \<Longrightarrow> ret_in (kview s) (with_cur f s)"
  by (simp add: with_cur_def frame)

lemma frame_need [frame]:
  "(\<And>s. ret_in (kview s) (m s)) \<Longrightarrow> (\<And>x s. ret_in (kview s) (f x s)) \<Longrightarrow> ret_in (kview s) (need m f s)"
  by (simp add: need_def frame)

lemma frame_when_lock [frame]: "(\<And>s. ret_in (kview s) (m s)) \<Longrightarrow> ret_in (kview s) (when_lock m s)"
  by (simp add: when_lock_def frame)

section \<open>Pages\<close>

lemma frame_kfree [frame]: "ret_in (kview s) (kfree x0 s)"
  by (simp add: kfree_def frame)

lemma frame_kalloc [frame]: "ret_in (kview s) (kalloc s)"
  by (simp add: kalloc_def frame)

section \<open>Blocks\<close>

lemma frame_upd_buf [frame]: "ret_in (kview s) (upd_buf x0 x1 s)"
  by (simp add: upd_buf_def frame)

lemma frame_ideintr [frame]: "ret_in (kview s) (ideintr s)"
  by (simp add: ideintr_def frame)

lemma frame_iderw [frame]: "ret_in (kview s) (iderw x0 s)"
  by (simp add: iderw_def frame)

lemma frame_unlink_prev [frame]: "ret_in (kview s) (unlink_prev x0 s)"
  by (simp add: unlink_prev_def frame)

lemma frame_unlink_next [frame]: "ret_in (kview s) (unlink_next x0 s)"
  by (simp add: unlink_next_def frame)

lemma frame_link_next [frame]: "ret_in (kview s) (link_next x0 x1 s)"
  by (simp add: link_next_def frame)

lemma frame_push_front [frame]: "ret_in (kview s) (push_front x0 s)"
  by (simp add: push_front_def frame)

lemma frame_bget_loop [frame]: "ret_in (kview s) (bget_loop x0 x1 s)"
  by (simp add: bget_loop_def frame)

lemma frame_bget [frame]: "ret_in (kview s) (bget x0 x1 s)"
  by (simp add: bget_def frame)

lemma frame_bread [frame]: "ret_in (kview s) (bread x0 x1 s)"
  by (simp add: bread_def frame)

lemma frame_bwrite [frame]: "ret_in (kview s) (bwrite x0 s)"
  by (simp add: bwrite_def frame)

lemma frame_brelse [frame]: "ret_in (kview s) (brelse x0 s)"
  by (simp add: brelse_def frame)

lemma frame_set_data [frame]: "ret_in (kview s) (set_data x0 x1 s)"
  by (simp add: set_data_def frame)

section \<open>The log\<close>

lemma frame_readsb [frame]: "ret_in (kview s) (readsb x0 s)"
  by (simp add: readsb_def frame)

lemma frame_install_one [frame]: "ret_in (kview s) (install_one x0 s)"
  by (simp add: install_one_def frame)

lemma frame_install_trans [frame]: "ret_in (kview s) (install_trans s)"
  by (simp add: install_trans_def frame)

lemma frame_write_head [frame]: "ret_in (kview s) (write_head s)"
  by (simp add: write_head_def frame)

lemma frame_begin_trans_loop [frame]: "ret_in (kview s) (begin_trans_loop s)"
  by (simp add: begin_trans_loop_def frame)

lemma frame_begin_trans [frame]: "ret_in (kview s) (begin_trans s)"
  by (simp add: begin_trans_def frame)

lemma frame_commit_write [frame]: "ret_in (kview s) (commit_write s)"
  by (simp add: commit_write_def frame)

lemma frame_commit_trans [frame]: "ret_in (kview s) (commit_trans s)"
  by (simp add: commit_trans_def frame)

lemma frame_log_write [frame]: "ret_in (kview s) (log_write x0 s)"
  by (simp add: log_write_def frame)

section \<open>Inodes\<close>

lemma frame_upd_inode [frame]: "ret_in (kview s) (upd_inode x0 x1 s)"
  by (simp add: upd_inode_def frame)

lemma frame_bzero [frame]: "ret_in (kview s) (bzero x0 x1 s)"
  by (simp add: bzero_def frame)

lemma frame_balloc [frame]: "ret_in (kview s) (balloc x0 s)"
  by (simp add: balloc_def frame)

lemma frame_bfree [frame]: "ret_in (kview s) (bfree x0 x1 s)"
  by (simp add: bfree_def frame)

lemma frame_iupdate [frame]: "ret_in (kview s) (iupdate x0 s)"
  by (simp add: iupdate_def frame)

lemma frame_iget [frame]: "ret_in (kview s) (iget x0 x1 s)"
  by (simp add: iget_def frame)

lemma frame_ialloc [frame]: "ret_in (kview s) (ialloc x0 x1 s)"
  by (simp add: ialloc_def frame)

lemma frame_idup [frame]: "ret_in (kview s) (idup x0 s)"
  by (simp add: idup_def frame)

lemma frame_ilock_load [frame]: "ret_in (kview s) (ilock_load x0 s)"
  by (simp add: ilock_load_def frame)

lemma frame_ilock_loop [frame]: "ret_in (kview s) (ilock_loop x0 s)"
  by (simp add: ilock_loop_def frame)

lemma frame_ilock [frame]: "ret_in (kview s) (ilock x0 s)"
  by (simp add: ilock_def frame)

lemma frame_iunlock [frame]: "ret_in (kview s) (iunlock x0 s)"
  by (simp add: iunlock_def frame)

lemma frame_trunc_direct [frame]: "ret_in (kview s) (trunc_direct x0 x1 s)"
  by (simp add: trunc_direct_def frame)

lemma frame_trunc_entry [frame]: "ret_in (kview s) (trunc_entry x0 x1 x2 s)"
  by (simp add: trunc_entry_def frame)

lemma frame_itrunc [frame]: "ret_in (kview s) (itrunc x0 s)"
  by (simp add: itrunc_def frame)

lemma frame_iput [frame]: "ret_in (kview s) (iput x0 s)"
  by (simp add: iput_def frame)

lemma frame_iunlockput [frame]: "ret_in (kview s) (iunlockput x0 s)"
  by (simp add: iunlockput_def frame)

lemma frame_bmap_addr [frame]: "ret_in (kview s) (bmap_addr x0 x1 s)"
  by (simp add: bmap_addr_def frame)

lemma frame_bmap_entry [frame]: "ret_in (kview s) (bmap_entry x0 x1 x2 s)"
  by (simp add: bmap_entry_def frame)

lemma frame_bmap [frame]: "ret_in (kview s) (bmap x0 x1 s)"
  by (simp add: bmap_def frame)

section \<open>Devices\<close>

lemma frame_outb [frame]: "ret_in (kview s) (outb x0 x1 s)"
  by (simp add: outb_def frame)

section \<open>The console\<close>

lemma frame_uartputc [frame]: "ret_in (kview s) (uartputc x0 s)"
  by (simp add: uartputc_def frame)

lemma frame_cgaputc [frame]: "ret_in (kview s) (cgaputc x0 s)"
  by (simp add: cgaputc_def frame)

lemma frame_consputc [frame]: "ret_in (kview s) (consputc x0 s)"
  by (simp add: consputc_def frame)

lemma frame_printint [frame]: "ret_in (kview s) (printint x0 x1 x2 s)"
  by (simp add: printint_def frame)

lemma frame_putstr [frame]: "ret_in (kview s) (putstr x0 s)"
  by (simp add: putstr_def frame)

lemma frame_cprintf_loop [frame]: "ret_in (kview s) (cprintf_loop x0 x1 s)"
proof (induction x0 arbitrary: x1 s rule: induct_list012)
  case (3 c d fmt)
  show ?case
    by (subst cprintf_loop.simps) (simp add: frame "3.IH" del: cprintf_loop.simps split: list.split carg.split)
qed (simp_all add: frame)

lemma frame_cprintf [frame]: "ret_in (kview s) (cprintf x0 x1 s)"
  by (simp add: cprintf_def frame)

lemma frame_consoleread_done [frame]: "ret_in (kview s) (consoleread_done x0 x1 x2 s)"
  by (simp add: consoleread_done_def frame)

lemma frame_consoleread_loop [frame]: "ret_in (kview s) (consoleread_loop x0 x1 x2 x3 s)"
  by (induction x2 arbitrary: x3 s) (simp_all add: frame)

lemma frame_consoleread [frame]: "ret_in (kview s) (consoleread x0 x1 s)"
  by (simp add: consoleread_def frame)

lemma frame_consolewrite [frame]: "ret_in (kview s) (consolewrite x0 x1 s)"
  by (simp add: consolewrite_def frame)

section \<open>Files and directories\<close>

lemma frame_readi_loop [frame]: "ret_in (kview s) (readi_loop x0 x1 x2 s)"
  by (induction x0 x1 x2 arbitrary: s rule: readi_loop.induct) ((subst readi_loop.simps)?, simp add: frame)+

lemma frame_readi [frame]: "ret_in (kview s) (readi x0 x1 x2 s)"
  by (simp add: readi_def frame split: devfn.split)

lemma frame_writei_loop [frame]: "ret_in (kview s) (writei_loop x0 x1 x2 s)"
  by (induction x0 x1 x2 arbitrary: s rule: writei_loop.induct) ((subst writei_loop.simps)?, simp add: frame)+

lemma frame_writei [frame]: "ret_in (kview s) (writei x0 x1 x2 s)"
  by (simp add: writei_def frame split: devfn.split)

lemma frame_read_dirent [frame]: "ret_in (kview s) (read_dirent x0 x1 s)"
  by (simp add: read_dirent_def frame)

lemma frame_dirlookup_entry [frame]: "ret_in (kview s) (dirlookup_entry x0 x1 x2 s)"
  by (simp add: dirlookup_entry_def frame)

lemma frame_dirlookup [frame]: "ret_in (kview s) (dirlookup x0 x1 s)"
  by (simp add: dirlookup_def frame)

lemma frame_dir_free_entry [frame]: "ret_in (kview s) (dir_free_entry x0 x1 s)"
  by (simp add: dir_free_entry_def frame)

lemma frame_dirlink [frame]: "ret_in (kview s) (dirlink x0 x1 x2 s)"
  by (simp add: dirlink_def frame)

lemma frame_namex_loop [frame]: "ret_in (kview s) (namex_loop x0 x1 x2 x3 s)"
  by (induction x0 x1 x2 x3 arbitrary: s rule: namex_loop.induct) ((subst namex_loop.simps)?, simp add: frame)+

lemma frame_namex [frame]: "ret_in (kview s) (namex x0 x1 x2 s)"
  by (simp add: namex_def frame split: list.split)

lemma frame_namei [frame]: "ret_in (kview s) (namei x0 s)"
  by (simp add: namei_def frame)

lemma frame_nameiparent [frame]: "ret_in (kview s) (nameiparent x0 x1 s)"
  by (simp add: nameiparent_def frame)

section \<open>Pipes and open files\<close>

lemma frame_upd_pipe [frame]: "ret_in (kview s) (upd_pipe x0 x1 s)"
  by (simp add: upd_pipe_def frame)

lemma frame_pipeclose [frame]: "ret_in (kview s) (pipeclose x0 x1 s)"
  by (simp add: pipeclose_def frame)

lemma frame_cur_killed [frame]: "ret_in (kview s) (cur_killed s)"
  by (simp add: cur_killed_def frame)

lemma frame_pipewrite_loop [frame]: "ret_in (kview s) (pipewrite_loop x0 x1 x2 s)"
  by (induction x2 arbitrary: s) (simp_all add: frame)

lemma frame_pipewrite [frame]: "ret_in (kview s) (pipewrite x0 x1 x2 s)"
  by (simp add: pipewrite_def frame)

lemma frame_piperead_copy [frame]: "ret_in (kview s) (piperead_copy x0 x1 s)"
  by (simp add: piperead_copy_def frame)

lemma frame_piperead_loop [frame]: "ret_in (kview s) (piperead_loop x0 x1 s)"
  by (simp add: piperead_loop_def frame)

lemma frame_piperead [frame]: "ret_in (kview s) (piperead x0 x1 s)"
  by (simp add: piperead_def frame)

lemma frame_filestat [frame]: "ret_in (kview s) (filestat x0 s)"
  by (simp add: filestat_def frame)

section \<open>Virtual memory\<close>

lemma frame_get32 [frame]: "ret_in (kview s) (get32 x0 s)"
  by (simp add: get32_def frame)

lemma frame_put32 [frame]: "ret_in (kview s) (put32 x0 x1 s)"
  by (simp add: put32_def frame)

lemma frame_clear_page [frame]: "ret_in (kview s) (clear_page x0 s)"
  by (simp add: clear_page_def frame)

lemma frame_walkpgdir [frame]: "ret_in (kview s) (walkpgdir x0 x1 x2 s)"
  by (simp add: walkpgdir_def frame)

lemma frame_map_one [frame]: "ret_in (kview s) (map_one x0 x1 x2 x3 s)"
  by (simp add: map_one_def frame)

lemma frame_mappages [frame]: "ret_in (kview s) (mappages x0 x1 x2 x3 x4 s)"
  by (simp add: mappages_def frame)

lemma frame_setupkvm [frame]: "ret_in (kview s) (setupkvm s)"
  by (simp add: setupkvm_def frame)

lemma frame_lcr3 [frame]: "ret_in (kview s) (lcr3 x0 s)"
  by (simp add: lcr3_def frame)

lemma frame_switchkvm [frame]: "ret_in (kview s) (switchkvm s)"
  by (simp add: switchkvm_def frame)

lemma frame_switchuvm [frame]: "ret_in (kview s) (switchuvm x0 s)"
  by (simp add: switchuvm_def frame)

lemma frame_put_bytes [frame]: "ret_in (kview s) (put_bytes x0 x1 s)"
  by (simp add: put_bytes_def frame)

lemma frame_loaduvm [frame]: "ret_in (kview s) (loaduvm x0 x1 x2 x3 x4 s)"
  by (simp add: loaduvm_def frame)

lemma frame_dealloc_page [frame]: "ret_in (kview s) (dealloc_page x0 s)"
  by (simp add: dealloc_page_def frame)

lemma frame_dealloc_loop [frame]: "ret_in (kview s) (dealloc_loop x0 x1 x2 s)"
  by (induction x0 x1 x2 arbitrary: s rule: dealloc_loop.induct) ((subst dealloc_loop.simps)?, simp add: frame)+

lemma frame_deallocuvm [frame]: "ret_in (kview s) (deallocuvm x0 x1 x2 s)"
  by (simp add: deallocuvm_def frame)

lemma frame_alloc_page [frame]: "ret_in (kview s) (alloc_page x0 x1 x2 x3 s)"
  by (simp add: alloc_page_def frame)

lemma frame_allocuvm [frame]: "ret_in (kview s) (allocuvm x0 x1 x2 s)"
  by (simp add: allocuvm_def frame)

lemma frame_freevm_entry [frame]: "ret_in (kview s) (freevm_entry x0 x1 s)"
  by (simp add: freevm_entry_def frame)

lemma frame_freevm [frame]: "ret_in (kview s) (freevm x0 s)"
  by (simp add: freevm_def frame)

lemma frame_clearpteu [frame]: "ret_in (kview s) (clearpteu x0 x1 s)"
  by (simp add: clearpteu_def frame)

lemma frame_copy_page [frame]: "ret_in (kview s) (copy_page x0 x1 x2 s)"
  by (simp add: copy_page_def frame)

lemma frame_copyuvm [frame]: "ret_in (kview s) (copyuvm x0 x1 s)"
  by (simp add: copyuvm_def frame)

lemma frame_uva2ka [frame]: "ret_in (kview s) (uva2ka x0 x1 s)"
  by (simp add: uva2ka_def frame)

lemma frame_copyout [frame]: "ret_in (kview s) (copyout x0 x1 x2 s)"
  by (induction x0 x1 x2 arbitrary: s rule: copyout.induct) ((subst copyout.simps)?, simp add: frame)+

section \<open>Processes\<close>

lemma frame_set_pname [frame]: "ret_in (kview s) (set_pname x0 x1 s)"
  by (simp add: set_pname_def frame)

lemma frame_growproc [frame]: "ret_in (kview s) (growproc x0 s)"
  by (simp add: growproc_def frame)

lemma frame_wake_opt [frame]: "ret_in (kview s) (wake_opt x0 s)"
  by (simp add: wake_opt_def frame)

section \<open>Arguments and process system calls\<close>

lemma frame_hw_page [frame]: "ret_in (kview s) (hw_page x0 s)"
  by (simp add: hw_page_def frame)

lemma frame_page_fault [frame]: "ret_in (kview s) (page_fault x0 s)"
  by (simp add: page_fault_def frame)

lemma frame_user_addr [frame]: "ret_in (kview s) (user_addr x0 s)"
  by (simp add: user_addr_def frame)

lemma frame_uload8 [frame]: "ret_in (kview s) (uload8 x0 s)"
  by (simp add: uload8_def frame)

lemma frame_ustore8 [frame]: "ret_in (kview s) (ustore8 x0 x1 s)"
  by (simp add: ustore8_def frame)

lemma frame_uload [frame]: "ret_in (kview s) (uload x0 x1 s)"
  by (induction x0 x1 arbitrary: s rule: uload.induct) ((subst uload.simps)?, simp add: frame)+

lemma frame_ustore [frame]: "ret_in (kview s) (ustore x0 x1 s)"
  by (induction x0 x1 arbitrary: s rule: ustore.induct) ((subst ustore.simps)?, simp add: frame)+

lemma frame_fetchint [frame]: "ret_in (kview s) (fetchint x0 s)"
  by (simp add: fetchint_def frame)

lemma frame_fetch_loop [frame]: "ret_in (kview s) (fetch_loop x0 x1 s)"
  by (induction x0 x1 arbitrary: s rule: fetch_loop.induct) ((subst fetch_loop.simps)?, simp add: frame)+

lemma frame_fetchstr [frame]: "ret_in (kview s) (fetchstr x0 s)"
  by (simp add: fetchstr_def frame)

lemma frame_argint [frame]: "ret_in (kview s) (argint x0 s)"
  by (simp add: argint_def frame)

lemma frame_argptr [frame]: "ret_in (kview s) (argptr x0 x1 s)"
  by (simp add: argptr_def frame)

lemma frame_argstr [frame]: "ret_in (kview s) (argstr x0 s)"
  by (simp add: argstr_def frame)

lemma frame_sys_kill [frame]: "ret_in (kview s) (sys_kill s)"
  by (simp add: sys_kill_def frame)

lemma frame_sys_getpid [frame]: "ret_in (kview s) (sys_getpid s)"
  by (simp add: sys_getpid_def frame)

lemma frame_sys_sbrk [frame]: "ret_in (kview s) (sys_sbrk s)"
  by (simp add: sys_sbrk_def frame)

lemma frame_sys_sleep_loop [frame]: "ret_in (kview s) (sys_sleep_loop x0 x1 s)"
  by (simp add: sys_sleep_loop_def frame)

lemma frame_sys_sleep [frame]: "ret_in (kview s) (sys_sleep s)"
  by (simp add: sys_sleep_def frame)

lemma frame_sys_uptime [frame]: "ret_in (kview s) (sys_uptime s)"
  by (simp add: sys_uptime_def frame)

lemma frame_sys_halt [frame]: "ret_in (kview s) (sys_halt s)"
  by (simp add: sys_halt_def frame)

lemma frame_sys_alarm [frame]: "ret_in (kview s) (sys_alarm s)"
  by (simp add: sys_alarm_def frame)

section \<open>exec\<close>

lemma frame_exec_bad [frame]: "ret_in (kview s) (exec_bad x0 x1 s)"
  by (simp add: exec_bad_def frame)

lemma frame_load_segment [frame]: "ret_in (kview s) (load_segment x0 x1 x2 x3 s)"
  by (simp add: load_segment_def frame)

lemma frame_load_segments [frame]: "ret_in (kview s) (load_segments x0 x1 x2 x3 x4 s)"
  by (induction x0 x1 x2 x3 x4 arbitrary: s rule: load_segments.induct) ((subst load_segments.simps)?, simp add: frame)+

lemma frame_push_args [frame]: "ret_in (kview s) (push_args x0 x1 x2 x3 s)"
  by (induction x0 x1 x2 x3 arbitrary: s rule: push_args.induct) ((subst push_args.simps)?, simp add: frame)+

lemma frame_exec_commit [frame]: "ret_in (kview s) (exec_commit x0 x1 x2 x3 x4 s)"
  by (simp add: exec_commit_def frame)

lemma frame_exec_stack [frame]: "ret_in (kview s) (exec_stack x0 x1 x2 x3 x4 s)"
  by (simp add: exec_stack_def frame)

lemma frame_exec [frame]: "ret_in (kview s) (exec x0 x1 s)"
  by (simp add: exec_def frame)

section \<open>File system calls\<close>

lemma frame_argfd [frame]: "ret_in (kview s) (argfd x0 s)"
  by (simp add: argfd_def frame)

lemma frame_store_stat [frame]: "ret_in (kview s) (store_stat x0 x1 s)"
  by (simp add: store_stat_def frame)

lemma frame_sys_fstat [frame]: "ret_in (kview s) (sys_fstat s)"
  by (simp add: sys_fstat_def frame)

lemma frame_link_bad [frame]: "ret_in (kview s) (link_bad x0 s)"
  by (simp add: link_bad_def frame)

lemma frame_sys_link [frame]: "ret_in (kview s) (sys_link s)"
  by (simp add: sys_link_def frame)

lemma frame_isdirempty_entry [frame]: "ret_in (kview s) (isdirempty_entry x0 x1 s)"
  by (simp add: isdirempty_entry_def frame)

lemma frame_isdirempty [frame]: "ret_in (kview s) (isdirempty x0 s)"
  by (simp add: isdirempty_def frame)

lemma frame_unlink_bad [frame]: "ret_in (kview s) (unlink_bad x0 s)"
  by (simp add: unlink_bad_def frame)

lemma frame_unlink_entry [frame]: "ret_in (kview s) (unlink_entry x0 x1 x2 s)"
  by (simp add: unlink_entry_def frame)

lemma frame_sys_unlink [frame]: "ret_in (kview s) (sys_unlink s)"
  by (simp add: sys_unlink_def frame)

lemma frame_create_new [frame]: "ret_in (kview s) (create_new x0 x1 x2 x3 x4 s)"
  by (simp add: create_new_def frame)

lemma frame_create [frame]: "ret_in (kview s) (create x0 x1 x2 x3 s)"
  by (simp add: create_def frame)

lemma frame_make_node [frame]: "ret_in (kview s) (make_node x0 s)"
  by (simp add: make_node_def frame)

lemma frame_sys_mkdir [frame]: "ret_in (kview s) (sys_mkdir s)"
  by (simp add: sys_mkdir_def frame)

lemma frame_sys_mknod [frame]: "ret_in (kview s) (sys_mknod s)"
  by (simp add: sys_mknod_def frame)

lemma frame_sys_chdir [frame]: "ret_in (kview s) (sys_chdir s)"
  by (simp add: sys_chdir_def frame)

lemma frame_fetch_argv [frame]: "ret_in (kview s) (fetch_argv x0 x1 s)"
  by (induction x0 x1 arbitrary: s rule: fetch_argv.induct) ((subst fetch_argv.simps)?, simp add: frame)+

lemma frame_sys_exec [frame]: "ret_in (kview s) (sys_exec s)"
  by (simp add: sys_exec_def frame)

section \<open>Reading and writing open files\<close>

lemma kview_upd_file [frame]: "(\<And>x. f_ref (f x) = f_ref x) \<Longrightarrow> ret_in (kview s) (upd_file i f s)"
  by (simp add: upd_file_def frame) (simp add: kview_def map_update list_update_same_conv)

lemma frame_fileread [frame]: "ret_in (kview s) (fileread f n s)"
  by (simp add: fileread_def frame split: filetype.split)

lemma frame_filewrite_chunk [frame]: "ret_in (kview s) (filewrite_chunk f ip cs s)"
  by (simp add: filewrite_chunk_def frame)

lemma frame_filewrite_loop [frame]: "ret_in (kview s) (filewrite_loop f ip cs i s)"
  by (induction f ip cs i arbitrary: s rule: filewrite_loop.induct) (subst filewrite_loop.simps, simp add: frame)

lemma frame_filewrite [frame]: "ret_in (kview s) (filewrite f cs n s)"
  by (simp add: filewrite_def frame split: filetype.split)

lemma frame_sys_read [frame]: "ret_in (kview s) (sys_read s)"
  by (simp add: sys_read_def frame)

lemma frame_sys_write [frame]: "ret_in (kview s) (sys_write s)"
  by (simp add: sys_write_def frame)

lemma frame_reparent [frame]: "ret_in (kview s) (reparent p i s)"
  by (simp add: reparent_def frame)

declare Let_def [simp del] option.split [split del] prod.split [split del]

end
