(* ===== verification/Descriptors.thy ===== *)
theory Descriptors
  imports Frames
begin

text \<open>
  An invariant of the whole kernel: the reference count of every open file is the number of descriptors, over all
  processes, that refer to it; and the numbers of the processes in use are distinct. It is kept by every system call.
\<close>

section \<open>The invariant\<close>

definition fd_count :: "nat \<Rightarrow> pview list \<Rightarrow> nat" where
  "fd_count f ks = sum_list (map (\<lambda>k. count_list (v_files k) (Some f)) ks)"

text \<open>\<open>X f\<close> is the number of references to \<open>f\<close> that the running routine holds besides the descriptors.\<close>

definition refs_ok :: "(nat \<Rightarrow> int) \<Rightarrow> int list \<Rightarrow> pview list \<Rightarrow> bool" where
  "refs_ok X rs ks \<longleftrightarrow> (\<forall>f < length rs. rs ! f = int (fd_count f ks) + X f)"

definition pview_ok :: "nat \<Rightarrow> int \<Rightarrow> pview \<Rightarrow> bool" where
  "pview_ok n np k \<longleftrightarrow> length (v_files k) = NOFILE \<and> (\<forall>f. Some f \<in> set (v_files k) \<longrightarrow> f < n) \<and>
     (v_stage k = Free \<or> v_stage k = Dead \<longrightarrow> v_files k = replicate NOFILE None) \<and>
     (v_stage k \<noteq> Free \<longrightarrow> 0 < v_pid k \<and> v_pid k < np)"

definition pids :: "pview list \<Rightarrow> int list" where
  "pids ks = map v_pid (filter (\<lambda>k. v_stage k \<noteq> Free) ks)"

definition cur_ok :: "view \<Rightarrow> bool" where
  "cur_ok v \<longleftrightarrow> (\<forall>p. v_cur v = Some p \<longrightarrow> p < length (v_procs v) \<and> v_stage (v_procs v ! p) = Alive)"

definition table_ok :: "(nat \<Rightarrow> int) \<Rightarrow> view \<Rightarrow> bool" where
  "table_ok X v \<longleftrightarrow> refs_ok X (v_refs v) (v_procs v) \<and> (\<forall>k \<in> set (v_procs v). pview_ok (length (v_refs v)) (v_next v) k) \<and>
     distinct (pids (v_procs v)) \<and> 0 < v_next v"

definition kinv :: "nat \<Rightarrow> (nat \<Rightarrow> int) \<Rightarrow> view \<Rightarrow> bool" where
  "kinv n X v \<longleftrightarrow> table_ok X v \<and> cur_ok v \<and> length (v_refs v) = n"

definition bump :: "nat \<Rightarrow> int \<Rightarrow> (nat \<Rightarrow> int) \<Rightarrow> nat \<Rightarrow> int" where
  "bump f d X = X(f := X f + d)"

lemma bump_bump [simp]: "bump f d (bump f e X) = bump f (e + d) X" "bump f 0 X = X"
  by (simp_all add: bump_def fun_eq_iff)

lemma bump_commute: "bump f d (bump g e X) = bump g e (bump f d X)"
  by (auto simp: bump_def fun_eq_iff)

section \<open>Counting descriptors\<close>

lemma fd_count_update:
  "p < length ks \<Longrightarrow> int (fd_count f (ks[p := k])) =
     int (fd_count f ks) - int (count_list (v_files (ks ! p)) (Some f)) + int (count_list (v_files k) (Some f))"
proof (induction ks arbitrary: p)
  case (Cons a ks)
  then show ?case by (cases p) (auto simp: fd_count_def)
qed simp

lemma count_list_update:
  "i < length xs \<Longrightarrow> int (count_list (xs[i := y]) z) =
     int (count_list xs z) - (if xs ! i = z then 1 else 0) + (if y = z then 1 else 0)"
proof (induction xs arbitrary: i)
  case (Cons a xs)
  show ?case
  proof (cases i)
    case 0
    then show ?thesis by simp
  next
    case (Suc j)
    then show ?thesis using Cons.IH [of j] Cons.prems by (cases "xs ! j = z"; cases "y = z"; simp)
  qed
qed simp

text \<open>Changing descriptor \<open>i\<close> of process \<open>p\<close> from \<open>x\<close> to \<open>y\<close>.\<close>

definition lose :: "nat option \<Rightarrow> (nat \<Rightarrow> int) \<Rightarrow> nat \<Rightarrow> int" where
  "lose x X = (case x of None \<Rightarrow> X | Some f \<Rightarrow> bump f 1 X)"

definition gain :: "nat option \<Rightarrow> (nat \<Rightarrow> int) \<Rightarrow> nat \<Rightarrow> int" where
  "gain y X = (case y of None \<Rightarrow> X | Some f \<Rightarrow> bump f (-1) X)"

lemmas move_simps = lose_def gain_def

lemma refs_ok_fd:
  assumes "refs_ok X rs ks" "p < length ks" "i < length (v_files (ks ! p))" "v_files k = (v_files (ks ! p))[i := y]"
  shows "refs_ok (gain y (lose (v_files (ks ! p) ! i) X)) rs (ks[p := k])"
  using assms unfolding refs_ok_def
  by (auto simp: fd_count_update [OF assms(2)] count_list_update [OF assms(3)] move_simps bump_def split: option.splits if_splits)

lemma refs_ok_ref:
  "refs_ok X rs ks \<Longrightarrow> f < length rs \<Longrightarrow> refs_ok (bump f d X) (rs[f := rs ! f + d]) ks"
  unfolding refs_ok_def by (auto simp: bump_def nth_list_update)

lemma refs_ok_same:
  "refs_ok X rs ks \<Longrightarrow> p < length ks \<Longrightarrow> v_files k = v_files (ks ! p) \<Longrightarrow> refs_ok X rs (ks[p := k])"
  unfolding refs_ok_def by (simp add: fd_count_update)

lemma pids_Cons: "pids (k # ks) = (if v_stage k = Free then pids ks else v_pid k # pids ks)"
  by (simp add: pids_def)

lemma pids_same:
  "p < length ks \<Longrightarrow> v_pid k = v_pid (ks ! p) \<Longrightarrow> v_stage k = Free \<longleftrightarrow> v_stage (ks ! p) = Free \<Longrightarrow> pids (ks[p := k]) = pids ks"
proof (induction ks arbitrary: p)
  case (Cons a ks)
  then show ?case by (cases p) (auto simp: pids_def)
qed simp

lemma pids_free:
  "p < length ks \<Longrightarrow> v_stage k = Free \<Longrightarrow> distinct (pids ks) \<Longrightarrow> distinct (pids (ks[p := k])) \<and> set (pids (ks[p := k])) \<subseteq> set (pids ks)"
proof (induction ks arbitrary: p)
  case (Cons a ks)
  then show ?case by (cases p) (fastforce simp: pids_def split: if_splits)+
qed simp

lemma pids_new:
  "p < length ks \<Longrightarrow> v_stage (ks ! p) = Free \<Longrightarrow> distinct (pids ks) \<Longrightarrow> v_pid k \<notin> set (pids ks) \<Longrightarrow> distinct (pids (ks[p := k])) "
proof (induction ks arbitrary: p)
  case (Cons a ks)
  have *: "set (pids (ks[q := k])) \<subseteq> insert (v_pid k) (set (pids ks))" for q
    using set_update_subset_insert [of ks q k] by (auto simp: pids_def)
  show ?case
  proof (cases p)
    case 0
    then show ?thesis using Cons.prems by (simp add: pids_Cons)
  next
    case (Suc q)
    then show ?thesis using Cons.IH [of q] Cons.prems * [of q] by (auto simp: pids_Cons split: if_splits)
  qed
qed simp

section \<open>Updates of the view\<close>

lemma table_ok_proc:
  assumes "table_ok X v" "p < length (v_procs v)" "v_pid k = v_pid (v_procs v ! p)" "v_stage k = Free \<longleftrightarrow> v_stage (v_procs v ! p) = Free"
    and "refs_ok Y (v_refs v) ((v_procs v)[p := k])" "pview_ok (length (v_refs v)) (v_next v) k"
  shows "table_ok Y (v\<lparr>v_procs := (v_procs v)[p := k]\<rparr>)"
  using assms set_update_subset_insert [of "v_procs v" p k] pids_same [OF assms(2-4)] by (auto simp: table_ok_def)

lemma table_ok_nth: "table_ok X v \<Longrightarrow> p < length (v_procs v) \<Longrightarrow> pview_ok (length (v_refs v)) (v_next v) (v_procs v ! p)"
  by (simp add: table_ok_def)

lemma table_ok_refs: "table_ok X v \<Longrightarrow> refs_ok X (v_refs v) (v_procs v)"
  by (simp add: table_ok_def)

lemma table_ok_stage:
  assumes "table_ok X v" "p < length (v_procs v)" "v_stage (v_procs v ! p) \<noteq> Free" "st \<noteq> Free" "st \<noteq> Dead"
  shows "table_ok X (v\<lparr>v_procs := (v_procs v)[p := (v_procs v ! p)\<lparr>v_stage := st\<rparr>]\<rparr>)"
  using assms table_ok_nth [OF assms(1,2)]
  by (intro table_ok_proc [OF assms(1,2)] refs_ok_same table_ok_refs) (simp_all add: pview_ok_def)

lemma table_ok_dead:
  assumes "table_ok X v" "p < length (v_procs v)" "v_stage (v_procs v ! p) \<noteq> Free" "v_files (v_procs v ! p) = replicate NOFILE None"
  shows "table_ok X (v\<lparr>v_procs := (v_procs v)[p := (v_procs v ! p)\<lparr>v_stage := Dead\<rparr>]\<rparr>)"
  using assms table_ok_nth [OF assms(1,2)]
  by (intro table_ok_proc [OF assms(1,2)] refs_ok_same table_ok_refs) (simp_all add: pview_ok_def)

lemma table_ok_free:
  assumes "table_ok X v" "p < length (v_procs v)" "v_files (v_procs v ! p) = replicate NOFILE None"
    "v_files k = replicate NOFILE None" "v_stage k = Free"
  shows "table_ok X (v\<lparr>v_procs := (v_procs v)[p := k]\<rparr>)"
proof -
  have "pview_ok (length (v_refs v)) (v_next v) k" using assms(4,5) by (auto simp: pview_ok_def)
  moreover have "refs_ok X (v_refs v) ((v_procs v)[p := k])" using assms by (intro refs_ok_same table_ok_refs) simp_all
  moreover have "distinct (pids ((v_procs v)[p := k]))" using pids_free [OF assms(2,5)] assms(1) by (simp add: table_ok_def)
  ultimately show ?thesis using assms(1) set_update_subset_insert [of "v_procs v" p k] by (auto simp: table_ok_def)
qed

lemma table_ok_alloc:
  assumes "table_ok X v" "p < length (v_procs v)" "v_stage (v_procs v ! p) = Free"
  shows "table_ok X (v\<lparr>v_next := v_next v + 1, v_procs := (v_procs v)[p := (v_procs v ! p)\<lparr>v_pid := v_next v, v_stage := Embryo\<rparr>]\<rparr>)"
proof -
  let ?k = "(v_procs v ! p)\<lparr>v_pid := v_next v, v_stage := Embryo\<rparr>"
  have k: "\<forall>k \<in> set (v_procs v). pview_ok (length (v_refs v)) (v_next v) k" using assms(1) by (simp add: table_ok_def)
  then have lt: "\<forall>n \<in> set (pids (v_procs v)). n < v_next v" by (auto simp: pids_def pview_ok_def)
  have "pview_ok (length (v_refs v)) (v_next v + 1) ?k" using table_ok_nth [OF assms(1,2)] assms(1) by (simp add: pview_ok_def table_ok_def)
  moreover have "\<forall>k \<in> set (v_procs v). pview_ok (length (v_refs v)) (v_next v + 1) k" using k by (auto simp: pview_ok_def)
  moreover have "refs_ok X (v_refs v) ((v_procs v)[p := ?k])" using assms by (intro refs_ok_same table_ok_refs) simp_all
  moreover have "distinct (pids ((v_procs v)[p := ?k]))" using pids_new [OF assms(2,3), of ?k] assms(1) lt by (auto simp: table_ok_def)
  ultimately show ?thesis using assms(1) set_update_subset_insert [of "v_procs v" p ?k] by (auto simp: table_ok_def)
qed

lemma table_ok_fd:
  assumes "table_ok X v" "p < length (v_procs v)" "i < NOFILE" "v_stage (v_procs v ! p) \<noteq> Free" "v_stage (v_procs v ! p) \<noteq> Dead"
    and "\<And>f. y = Some f \<Longrightarrow> f < length (v_refs v)"
  shows "table_ok (gain y (lose (v_files (v_procs v ! p) ! i) X))
    (v\<lparr>v_procs := (v_procs v)[p := (v_procs v ! p)\<lparr>v_files := (v_files (v_procs v ! p))[i := y]\<rparr>]\<rparr>)"
proof -
  let ?k = "v_procs v ! p"
  have k: "pview_ok (length (v_refs v)) (v_next v) ?k" using assms(1,2) by (simp add: table_ok_def)
  then have i: "i < length (v_files ?k)" using assms(3) by (simp add: pview_ok_def)
  have "refs_ok (gain y (lose (v_files ?k ! i) X)) (v_refs v) ((v_procs v)[p := ?k\<lparr>v_files := (v_files ?k)[i := y]\<rparr>])"
    using assms(1) by (intro refs_ok_fd [OF _ assms(2) i]) (simp_all add: table_ok_def)
  moreover have "pview_ok (length (v_refs v)) (v_next v) (?k\<lparr>v_files := (v_files ?k)[i := y]\<rparr>)"
    using k assms(4-6) set_update_subset_insert [of "v_files ?k" i y] by (auto simp: pview_ok_def)
  ultimately show ?thesis using assms by (intro table_ok_proc) simp_all
qed

lemma table_ok_ref:
  "table_ok X v \<Longrightarrow> f < length (v_refs v) \<Longrightarrow> table_ok (bump f d X) (v\<lparr>v_refs := (v_refs v)[f := v_refs v ! f + d]\<rparr>)"
  by (auto simp: table_ok_def refs_ok_ref)

section \<open>Routines that return\<close>

lemma kview_simps [simp]:
  "v_cur (kview s) = cur s" "v_refs (kview s) = map f_ref (ftable s)" "v_next (kview s) = nextpid s" "v_procs (kview s) = map pkey (ptable s)"
  by (simp_all add: kview_def)

definition rets :: "(view \<Rightarrow> bool) \<Rightarrow> ('a file_state_scheme, 'b) kop \<Rightarrow> ('b \<Rightarrow> view \<Rightarrow> bool) \<Rightarrow> bool" where
  "rets P m Q \<longleftrightarrow> (\<forall>s a t. P (kview s) \<longrightarrow> m s = Ret a t \<longrightarrow> Q a (kview t))"

lemma retsI: "(\<And>s a t. P (kview s) \<Longrightarrow> m s = Ret a t \<Longrightarrow> Q a (kview t)) \<Longrightarrow> rets P m Q"
  by (simp add: rets_def)

lemma retsD: "rets P m Q \<Longrightarrow> P (kview s) \<Longrightarrow> m s = Ret a t \<Longrightarrow> Q a (kview t)"
  by (simp add: rets_def)

lemma rets_bind: "rets P m R \<Longrightarrow> (\<And>a. rets (R a) (f a) Q) \<Longrightarrow> rets P (kbind m f) Q"
  unfolding rets_def by (metis kbind_RetD)

lemma rets_seq: "rets P m (\<lambda>_. R) \<Longrightarrow> rets R n Q \<Longrightarrow> rets P (kseq m n) Q"
  unfolding kseq_def by (rule rets_bind)

lemma rets_ret: "(\<And>v. P v \<Longrightarrow> Q a v) \<Longrightarrow> rets P (kret a) Q"
  by (simp add: rets_def kret_def)

lemma rets_none: "rets P kfault Q" "rets P (kpanic e) Q"
  by (simp_all add: rets_def kfault_def kpanic_def)

lemma rets_frame: "(\<And>s. ret_in (kview s) (m s)) \<Longrightarrow> (\<And>v a. P v \<Longrightarrow> Q a v) \<Longrightarrow> rets P m Q"
  unfolding rets_def ret_in_def by metis

lemma rets_pre: "rets P' m Q \<Longrightarrow> (\<And>v. P v \<Longrightarrow> P' v) \<Longrightarrow> rets P m Q"
  unfolding rets_def by blast

lemma rets_post: "rets P m Q' \<Longrightarrow> (\<And>a v. Q' a v \<Longrightarrow> Q a v) \<Longrightarrow> rets P m Q"
  unfolding rets_def by blast

lemma rets_seq_frame: "(\<And>s. ret_in (kview s) (m s)) \<Longrightarrow> rets P n Q \<Longrightarrow> rets P (kseq m n) Q"
  by (rule rets_seq [OF rets_frame])

lemma rets_bind_frame: "(\<And>s. ret_in (kview s) (m s)) \<Longrightarrow> (\<And>a. rets P (f a) Q) \<Longrightarrow> rets P (kbind m f) Q"
  by (rule rets_bind [OF rets_frame])

lemma rets_kmod: "(\<And>s. P (kview s) \<Longrightarrow> Q () (kview (f s))) \<Longrightarrow> rets P (kmod f) Q"
  by (simp add: rets_def kmod_def)

lemma rets_get: "(\<And>s. P (kview s) \<Longrightarrow> Q (f s) (kview s)) \<Longrightarrow> rets P (kget f) Q"
  by (simp add: rets_def kget_def)

lemma rets_assert: "(\<And>s. P (kview s) \<Longrightarrow> C s \<Longrightarrow> Q () (kview s)) \<Longrightarrow> rets P (kassert C e) Q"
  by (auto simp: rets_def kassert_def split: if_splits)

lemma rets_with_cur: "(\<And>p. rets (\<lambda>v. P v \<and> v_cur v = Some p) (f p) Q) \<Longrightarrow> rets P (with_cur f) Q"
proof (rule retsI)
  fix s a t
  assume f: "\<And>p. rets (\<lambda>v. P v \<and> v_cur v = Some p) (f p) Q" and s: "P (kview s)" "with_cur f s = Ret a t"
  then obtain p where "cur s = Some p" "f p s = Ret a t" by (auto simp: with_cur_def split: option.splits)
  then show "Q a (kview t)" using retsD [OF f, of s p a t] s by simp
qed

lemma rets_pure: "(A \<Longrightarrow> rets P m Q) \<Longrightarrow> rets (\<lambda>v. P v \<and> A) m Q"
  by (auto simp: rets_def)

lemma rets_need: "rets P m R \<Longrightarrow> (\<And>v. R None v \<Longrightarrow> Q (-1) v) \<Longrightarrow> (\<And>x. rets (R (Some x)) (f x) Q) \<Longrightarrow> rets P (need m f) Q"
  unfolding need_def by (erule rets_bind) (auto intro: rets_ret split: option.split)

lemma rets_fact: "(\<And>v. P v \<Longrightarrow> A) \<Longrightarrow> (A \<Longrightarrow> rets P m Q) \<Longrightarrow> rets P m Q"
  unfolding rets_def by blast

lemma rets_bind_option:
  "rets P m R \<Longrightarrow> rets (R None) a Q \<Longrightarrow> (\<And>x. rets (R (Some x)) (f x) Q) \<Longrightarrow> rets P (kbind m (\<lambda>r. case r of None \<Rightarrow> a | Some x \<Rightarrow> f x)) Q"
  by (erule rets_bind) (auto split: option.split)

lemma rets_bind_option_frame:
  "(\<And>s. ret_in (kview s) (m s)) \<Longrightarrow> rets P a Q \<Longrightarrow> (\<And>x. rets P (f x) Q) \<Longrightarrow> rets P (kbind m (\<lambda>r. case r of None \<Rightarrow> a | Some x \<Rightarrow> f x)) Q"
  by (rule rets_bind_option [OF rets_frame])

lemma rets_conj: "rets P m Q \<Longrightarrow> rets P' m Q' \<Longrightarrow> rets (\<lambda>v. P v \<and> P' v) m (\<lambda>a v. Q a v \<and> Q' a v)"
  by (auto simp: rets_def)

lemma rets_foreach:
  "(\<And>i. i < n \<Longrightarrow> rets (J i) (f i) (\<lambda>_. J (Suc i))) \<Longrightarrow> k \<le> n \<Longrightarrow> rets (J k) (kforeach [k..<n] f) (\<lambda>_. J n)"
proof (induction "n - k" arbitrary: k)
  case 0
  then show ?case by (simp add: rets_ret)
next
  case (Suc m)
  then have "[k..<n] = k # [Suc k..<n]" by (simp add: upt_conv_Cons)
  then show ?case using Suc by (auto intro!: rets_seq [of "J k" "f k" "J (Suc k)"])
qed

lemma kview_proc:
  "kview (upd_proc p f s) = (kview s)\<lparr>v_procs := (v_procs (kview s))[p := pkey (f (ptable s ! p))]\<rparr>"
  by (simp add: kview_def upd_proc_def map_update)

lemma pkey_simps [simp]: "v_files (pkey q) = ofile q" "v_pid (pkey q) = pid q" "v_stage (pkey q) = stage_of (pstate q)"
  by (simp_all add: pkey_def)

lemma kinv_refs: "kinv n X v \<Longrightarrow> f < length (v_refs v) \<Longrightarrow> kinv n (bump f d X) (v\<lparr>v_refs := (v_refs v)[f := v_refs v ! f + d]\<rparr>)"
  by (auto simp: kinv_def table_ok_ref cur_ok_def)

section \<open>Open files\<close>

interpretation ft: slot_table "\<lambda>f. f_ref f = 0" "\<lambda>f. f\<lparr>f_ref := 1\<rparr>"
  by unfold_locales simp

interpretation fdt: slot_table "\<lambda>x. x = None" "\<lambda>_. Some (f :: nat)"
  by unfold_locales simp

interpretation pt: slot_table "\<lambda>p. pstate p = UNUSED" "\<lambda>p. p\<lparr>pstate := EMBRYO, pid := n\<rparr>"
  by unfold_locales simp

lemma upd_file_rets:
  assumes "\<And>x. f_ref (h x) = f_ref x + d"
  shows "rets (kinv n X) (upd_file f h) (\<lambda>_ v. kinv n (bump f d X) v \<and> f < length (v_refs v))"
proof (rule retsI)
  fix s a t assume a: "kinv n X (kview s)" "upd_file f h s = Ret a t"
  then have f: "f < length (ftable s)" "t = s\<lparr>ftable := (ftable s)[f := h (ftable s ! f)]\<rparr>" by (auto simp: upd_file_def split: if_splits)
  then have "kview t = (kview s)\<lparr>v_refs := (v_refs (kview s))[f := v_refs (kview s) ! f + d]\<rparr>"
    using assms by (simp add: kview_def map_update)
  then show "kinv n (bump f d X) (kview t) \<and> f < length (v_refs (kview t))" using kinv_refs [OF a(1), of f d] f by simp
qed

lemma filealloc_rets:
  "rets (kinv n X) filealloc (\<lambda>r v. case r of None \<Rightarrow> kinv n X v | Some f \<Rightarrow> kinv n (bump f 1 X) v \<and> f < length (v_refs v))"
  unfolding filealloc_def
proof (rule rets_seq_frame, simp add: frame, rule retsI)
  fix s a t
  assume i: "kinv n X (kview s)" and r: "(case slot_alloc (\<lambda>f. f_ref f = 0) (\<lambda>f. f\<lparr>f_ref := 1\<rparr>) (ftable s) of
      None \<Rightarrow> kseq (release L_ftable) (kret None) s
    | Some (i, fs) \<Rightarrow> kseq (kmod (\<lambda>s. s\<lparr>ftable := fs\<rparr>)) (kseq (release L_ftable) (kret (Some i))) s) = Ret a t"
  show "case a of None \<Rightarrow> kinv n X (kview t) | Some f \<Rightarrow> kinv n (bump f 1 X) (kview t) \<and> f < length (v_refs (kview t))"
  proof (cases "slot_alloc (\<lambda>f. f_ref f = 0) (\<lambda>f. f\<lparr>f_ref := 1\<rparr>) (ftable s)")
    case None
    have "rets (kinv n X) (kseq (release L_ftable) (kret None)) (\<lambda>r v. r = None \<and> kinv n X v)"
      by (intro rets_seq_frame rets_ret) (simp_all add: frame)
    from retsD [OF this, of s a t] show ?thesis using i r None by simp
  next
    case (Some p)
    obtain f fs where p: "p = (f, fs)" by fastforce
    have f: "f < length (ftable s)" "f_ref (ftable s ! f) = 0" "fs = (ftable s)[f := (ftable s ! f)\<lparr>f_ref := 1\<rparr>]"
      using ft.slot_alloc_Some [OF Some [unfolded p]] by simp_all
    let ?s = "s\<lparr>ftable := fs\<rparr>"
    have "kview ?s = (kview s)\<lparr>v_refs := (v_refs (kview s))[f := v_refs (kview s) ! f + 1]\<rparr>"
      using f by (simp add: kview_def map_update)
    then have i': "kinv n (bump f 1 X) (kview ?s) \<and> f < length (v_refs (kview ?s))" using kinv_refs [OF i, of f 1] f by simp
    have "rets (\<lambda>v. kinv n (bump f 1 X) v \<and> f < length (v_refs v)) (kseq (release L_ftable) (kret (Some f)))
        (\<lambda>r v. r = Some f \<and> kinv n (bump f 1 X) v \<and> f < length (v_refs v))"
      by (intro rets_seq_frame rets_ret) (simp_all add: frame)
    from retsD [OF this, of ?s a t] show ?thesis using i' r Some p by (simp add: kseq_eq kmod_def)
  qed
qed

lemma filedup_rets: "rets (kinv n X) (filedup f) (\<lambda>r v. r = f \<and> kinv n (bump f 1 X) v \<and> f < length (v_refs v))"
  unfolding filedup_def
  by (intro rets_seq_frame rets_seq [OF upd_file_rets] rets_ret) (simp_all add: frame)

lemma frame_last_close [frame]:
  "ret_in (kview s) ((case f_type ff of FD_NONE \<Rightarrow> kret () | FD_PIPE \<Rightarrow> pipeclose (f_pipe ff) (f_writable ff)
    | FD_INODE \<Rightarrow> (case f_ip ff of None \<Rightarrow> kfault | Some ip \<Rightarrow> kseq begin_trans (kseq (iput ip) commit_trans))) s)"
  by (simp add: frame split: filetype.split option.split)

text \<open>Closing gives one reference back; the last one empties the slot, whose count is then 0 already.\<close>

lemma fileclose_rets: "rets (kinv n X) (fileclose f) (\<lambda>_. kinv n (bump f (-1) X))"
proof -
  let ?Q = "\<lambda>v. kinv n (bump f (-1) X) v \<and> f < length (v_refs v) \<and> 0 \<le> v_refs v ! f"
  have a: "rets (kinv n X) (kassert (\<lambda>s. f_ref (ftable s ! f) \<ge> 1) ''fileclose'') (\<lambda>_ v. kinv n X v \<and> (f < length (v_refs v) \<longrightarrow> 1 \<le> v_refs v ! f))"
    by (rule rets_assert) simp
  have u: "rets (\<lambda>v. kinv n X v \<and> (f < length (v_refs v) \<longrightarrow> 1 \<le> v_refs v ! f)) (upd_file f (\<lambda>x. x\<lparr>f_ref := f_ref x - 1\<rparr>)) (\<lambda>_. ?Q)"
  proof (rule retsI)
    fix s a t
    assume i: "kinv n X (kview s) \<and> (f < length (v_refs (kview s)) \<longrightarrow> 1 \<le> v_refs (kview s) ! f)"
      and r: "upd_file f (\<lambda>x. x\<lparr>f_ref := f_ref x - 1\<rparr>) s = Ret a t"
    have "0 \<le> v_refs (kview t) ! f" using i r by (auto simp: upd_file_def split: if_splits)
    then show "?Q (kview t)" using retsD [OF upd_file_rets, of "\<lambda>x. x\<lparr>f_ref := f_ref x - 1\<rparr>" "-1" n X s f a t] i r by simp
  qed
  have g: "rets ?Q (kget (\<lambda>s. ftable s ! f)) (\<lambda>ff v. kinv n (bump f (-1) X) v \<and> (\<not> f_ref ff > 0 \<longrightarrow> f < length (v_refs v) \<and> v_refs v ! f = 0))"
    by (rule rets_get) auto
  have z: "rets (\<lambda>v. kinv n (bump f (-1) X) v \<and> f < length (v_refs v) \<and> v_refs v ! f = 0)
      (upd_file f (\<lambda>x. x\<lparr>f_ref := 0, f_type := FD_NONE\<rparr>)) (\<lambda>_. kinv n (bump f (-1) X))"
  proof (rule retsI)
    fix s a t
    assume i: "kinv n (bump f (-1) X) (kview s) \<and> f < length (v_refs (kview s)) \<and> v_refs (kview s) ! f = 0"
      and r: "upd_file f (\<lambda>x. x\<lparr>f_ref := 0, f_type := FD_NONE\<rparr>) s = Ret a t"
    have "kview t = kview s" using i r by (auto simp: upd_file_def kview_def map_update list_update_same_conv)
    then show "kinv n (bump f (-1) X) (kview t)" using i by simp
  qed
  show ?thesis unfolding fileclose_def
  proof (rule rets_seq_frame, simp add: frame, rule rets_seq [OF a], rule rets_seq [OF u], rule rets_bind [OF g])
    fix ff
    show "rets (\<lambda>v. kinv n (bump f (-1) X) v \<and> (\<not> f_ref ff > 0 \<longrightarrow> f < length (v_refs v) \<and> v_refs v ! f = 0))
      (if f_ref ff > 0 then release L_ftable
        else kseq (upd_file f (\<lambda>x. x\<lparr>f_ref := 0, f_type := FD_NONE\<rparr>))
          (kseq (release L_ftable)
          (case f_type ff of FD_PIPE \<Rightarrow> pipeclose (f_pipe ff) (f_writable ff)
           | FD_INODE \<Rightarrow> (case f_ip ff of None \<Rightarrow> kfault
               | Some ip \<Rightarrow> kseq begin_trans (kseq (iput ip) commit_trans))
           | FD_NONE \<Rightarrow> kret ()))) (\<lambda>_. kinv n (bump f (-1) X))"
    proof (cases "f_ref ff > 0")
      case True
      then show ?thesis by (simp add: rets_frame frame)
    next
      case False
      have "rets (kinv n (bump f (-1) X)) (kseq (release L_ftable) (case f_type ff of FD_PIPE \<Rightarrow> pipeclose (f_pipe ff) (f_writable ff)
           | FD_INODE \<Rightarrow> (case f_ip ff of None \<Rightarrow> kfault
               | Some ip \<Rightarrow> kseq begin_trans (kseq (iput ip) commit_trans))
           | FD_NONE \<Rightarrow> kret ())) (\<lambda>_. kinv n (bump f (-1) X))"
        by (intro rets_seq_frame rets_frame) (simp_all add: frame)
      from rets_seq [OF z this] show ?thesis using False by simp
    qed
  qed
qed

lemma rets_close: "rets (kinv n X) m Q \<Longrightarrow> rets (kinv n (bump f 1 X)) (kseq (fileclose f) m) Q"
  using rets_seq [OF fileclose_rets [of n "bump f 1 X" f]] by simp

section \<open>Descriptors\<close>

text \<open>Descriptor \<open>fd\<close> of the current process refers to \<open>f\<close>.\<close>

definition has_fd :: "nat \<Rightarrow> nat \<Rightarrow> view \<Rightarrow> bool" where
  "has_fd fd f v \<longleftrightarrow> fd < NOFILE \<and> (\<exists>p. v_cur v = Some p \<and> v_files (v_procs v ! p) ! fd = Some f)"

lemma kinv_cur:
  assumes "kinv n X v" "v_cur v = Some p"
  shows "p < length (v_procs v)" "v_stage (v_procs v ! p) = Alive" "length (v_files (v_procs v ! p)) = NOFILE"
    "Some f \<in> set (v_files (v_procs v ! p)) \<Longrightarrow> f < length (v_refs v)"
proof -
  show p: "p < length (v_procs v)" "v_stage (v_procs v ! p) = Alive" using assms by (auto simp: kinv_def cur_ok_def)
  have "pview_ok (length (v_refs v)) (v_next v) (v_procs v ! p)" using assms(1) p(1) by (intro table_ok_nth) (auto simp: kinv_def)
  then show "length (v_files (v_procs v ! p)) = NOFILE" "Some f \<in> set (v_files (v_procs v ! p)) \<Longrightarrow> f < length (v_refs v)"
    by (auto simp: pview_ok_def)
qed

lemma has_fd_ref: "kinv n X v \<Longrightarrow> has_fd fd f v \<Longrightarrow> f < length (v_refs v)"
  by (metis has_fd_def kinv_cur(3,4) nth_mem)

lemma kinv_fd:
  assumes "kinv n X v" "v_cur v = Some p" "i < NOFILE" "\<And>f. y = Some f \<Longrightarrow> f < length (v_refs v)"
  shows "kinv n (gain y (lose (v_files (v_procs v ! p) ! i) X))
    (v\<lparr>v_procs := (v_procs v)[p := (v_procs v ! p)\<lparr>v_files := (v_files (v_procs v ! p))[i := y]\<rparr>]\<rparr>)"
  using assms kinv_cur [OF assms(1,2)] table_ok_fd [of X v p i y] by (auto simp: kinv_def cur_ok_def nth_list_update)

lemma lookup_fd_rets:
  "fd < NOFILE \<Longrightarrow> rets (kinv n X) (with_cur (\<lambda>p. kget (\<lambda>s. map_option (Pair fd) (ofile (the_proc p s) ! fd))))
     (\<lambda>r v. kinv n X v \<and> (case r of None \<Rightarrow> True | Some (fd, f) \<Rightarrow> has_fd fd f v))"
  using kinv_cur(1) by (intro rets_with_cur rets_get) (fastforce simp: has_fd_def split: option.splits)

lemma argfd_rets: "rets (kinv n X) (argfd k) (\<lambda>r v. kinv n X v \<and> (case r of None \<Rightarrow> True | Some (fd, f) \<Rightarrow> has_fd fd f v))"
  unfolding argfd_def
proof (rule rets_bind_frame, simp add: frame)
  fix r :: "u32 option"
  show "rets (kinv n X) (case r of None \<Rightarrow> kret None
     | Some w \<Rightarrow> let fd = sint w in
         if fd < 0 \<or> fd \<ge> int NOFILE then kret None
         else with_cur (\<lambda>p. kget (\<lambda>s. map_option (Pair (nat fd)) (ofile (the_proc p s) ! nat fd))))
     (\<lambda>r v. kinv n X v \<and> (case r of None \<Rightarrow> True | Some (fd, f) \<Rightarrow> has_fd fd f v))"
  proof (cases r)
    case None
    then show ?thesis by (simp add: rets_ret)
  next
    case (Some w)
    then show ?thesis by (auto simp: Let_def intro!: rets_ret lookup_fd_rets)
  qed
qed

lemma fdalloc_rets:
  "rets (\<lambda>v. kinv n X v \<and> f < length (v_refs v)) (fdalloc f)
     (\<lambda>fd v. f < length (v_refs v) \<and> (if fd < 0 then kinv n X v else kinv n (bump f (-1) X) v \<and> has_fd (nat fd) f v))"
  unfolding fdalloc_def
proof (rule rets_with_cur, rule retsI)
  fix p s a t
  assume i: "(kinv n X (kview s) \<and> f < length (v_refs (kview s))) \<and> v_cur (kview s) = Some p"
    and r: "(case slot_alloc (\<lambda>x. x = None) (\<lambda>_. Some f) (ofile (the_proc p s)) of
       None \<Rightarrow> Ret (-1) s | Some (fd, fs) \<Rightarrow> Ret (int fd) (upd_proc p (\<lambda>q. q\<lparr>ofile := fs\<rparr>) s)) = Ret a t"
  have k: "p < length (ptable s)" "length (ofile (the_proc p s)) = NOFILE" using i kinv_cur [of n X "kview s" p] by simp_all
  show "f < length (v_refs (kview t)) \<and> (if a < 0 then kinv n X (kview t) else kinv n (bump f (-1) X) (kview t) \<and> has_fd (nat a) f (kview t))"
  proof (cases "slot_alloc (\<lambda>x. x = None) (\<lambda>_. Some f) (ofile (the_proc p s))")
    case None
    then show ?thesis using i r by simp
  next
    case (Some x)
    obtain fd fs where x: "x = (fd, fs)" by fastforce
    note fd = fdt.slot_alloc_Some [OF Some [unfolded x]]
    have t: "a = int fd" "t = upd_proc p (\<lambda>q. q\<lparr>ofile := fs\<rparr>) s" using r Some x by simp_all
    let ?k = "v_procs (kview s) ! p"
    have e: "kview t = (kview s)\<lparr>v_procs := (v_procs (kview s))[p := ?k\<lparr>v_files := (v_files ?k)[fd := Some f]\<rparr>]\<rparr>"
      using fd k by (simp add: t kview_proc pkey_def)
    have "kinv n (gain (Some f) (lose (v_files ?k ! fd) X)) (kview t)" unfolding e using i fd k by (intro kinv_fd) auto
    moreover have "has_fd fd f (kview t)" using i fd k by (simp add: e has_fd_def)
    moreover have "f < length (v_refs (kview t))" using i unfolding e by simp
    ultimately show ?thesis using fd k t(1) by (simp add: move_simps)
  qed
qed

lemma fdalloc_fail: "rets P (fdalloc f) (\<lambda>fd v. fd < 0 \<longrightarrow> P v)"
  unfolding fdalloc_def by (rule rets_with_cur, rule retsI) (auto split: option.splits)

lemma rets_fdalloc:
  assumes "\<And>v. P v \<Longrightarrow> kinv n X v \<and> f < length (v_refs v)"
    and "rets P m Q" "\<And>fd. rets (\<lambda>v. kinv n (bump f (-1) X) v \<and> has_fd fd f v) (g (int fd)) Q"
  shows "rets P (kbind (fdalloc f) (\<lambda>fd. if fd < 0 then m else g fd)) Q"
proof (rule rets_pre [OF rets_bind [OF rets_conj [OF fdalloc_fail [of P] fdalloc_rets]]])
  fix fd :: int
  show "rets (\<lambda>v. (fd < 0 \<longrightarrow> P v) \<and> f < length (v_refs v) \<and> (if fd < 0 then kinv n X v else kinv n (bump f (-1) X) v \<and> has_fd (nat fd) f v))
    (if fd < 0 then m else g fd) Q"
  proof (cases "fd < 0")
    case True
    then show ?thesis by simp (rule rets_pre [OF assms(2)], simp)
  next
    case False
    then show ?thesis using assms(3) [of "nat fd"] by simp (erule rets_pre, simp)
  qed
qed (use assms(1) in simp)

lemma clear_fd_rets:
  "rets (\<lambda>v. (kinv n X v \<and> has_fd fd f v) \<and> v_cur v = Some p) (kmod (upd_proc p (\<lambda>q. q\<lparr>ofile := (ofile q)[fd := None]\<rparr>)))
     (\<lambda>_. kinv n (bump f 1 X))"
proof (rule rets_kmod)
  fix s :: "'a file_state_scheme"
  assume i: "(kinv n X (kview s) \<and> has_fd fd f (kview s)) \<and> v_cur (kview s) = Some p"
  let ?k = "v_procs (kview s) ! p"
  have k: "p < length (ptable s)" "v_files ?k ! fd = Some f" "fd < NOFILE"
    using i kinv_cur [of n X "kview s" p] by (auto simp: has_fd_def)
  then have e: "kview (upd_proc p (\<lambda>q. q\<lparr>ofile := (ofile q)[fd := None]\<rparr>) s) =
      (kview s)\<lparr>v_procs := (v_procs (kview s))[p := ?k\<lparr>v_files := (v_files ?k)[fd := None]\<rparr>]\<rparr>"
    by (simp add: kview_proc pkey_def)
  show "kinv n (bump f 1 X) (kview (upd_proc p (\<lambda>q. q\<lparr>ofile := (ofile q)[fd := None]\<rparr>) s))"
    using kinv_fd [of n X "kview s" p fd None] i k unfolding e by (simp add: move_simps)
qed

section \<open>File system calls\<close>

lemma sys_dup_rets: "rets (kinv n X) sys_dup (\<lambda>_. kinv n X)"
  unfolding sys_dup_def
proof (rule rets_need [OF argfd_rets])
  fix x :: "nat \<times> nat"
  obtain fd0 f where x: "x = (fd0, f)" by fastforce
  have d: "rets (\<lambda>v. f < length (v_refs v) \<and> (if fd < 0 then kinv n X v else kinv n (bump f (-1) X) v \<and> has_fd (nat fd) f v))
      (if fd < 0 then kret (-1) else kbind (filedup f) (\<lambda>_. kret fd)) (\<lambda>_. kinv n X)" for fd :: int
    by (cases "fd < 0") (auto intro!: rets_ret rets_bind [OF rets_pre [OF filedup_rets [of n "bump f (-1) X"]]])
  show "rets (\<lambda>v. kinv n X v \<and> (case Some x of None \<Rightarrow> True | Some (fd, f) \<Rightarrow> has_fd fd f v))
      (case x of (_, f) \<Rightarrow> kbind (fdalloc f) (\<lambda>fd. if fd < 0 then kret (-1) else kbind (filedup f) (\<lambda>_. kret fd))) (\<lambda>_. kinv n X)"
    using has_fd_ref by (auto simp: x intro!: rets_bind [OF rets_pre [OF fdalloc_rets] d])
qed simp

lemma sys_close_rets: "rets (kinv n X) sys_close (\<lambda>_. kinv n X)"
  unfolding sys_close_def
proof (rule rets_need [OF argfd_rets])
  fix x :: "nat \<times> nat"
  obtain fd f where x: "x = (fd, f)" by fastforce
  show "rets (\<lambda>v. kinv n X v \<and> (case Some x of None \<Rightarrow> True | Some (fd, f) \<Rightarrow> has_fd fd f v))
      (case x of (fd, f) \<Rightarrow> with_cur (\<lambda>p. kseq (kmod (upd_proc p (\<lambda>q. q\<lparr>ofile := (ofile q)[fd := None]\<rparr>))) (kseq (fileclose f) (kret 0))))
      (\<lambda>_. kinv n X)"
    by (simp add: x) (intro rets_with_cur rets_seq [OF clear_fd_rets] rets_close rets_ret)
qed simp

lemma open_file_rets: "rets (kinv n X) (open_file ip omode) (\<lambda>_. kinv n X)"
  unfolding open_file_def
proof (rule rets_bind_option [OF filealloc_rets])
  show "rets (\<lambda>v. case None of None \<Rightarrow> kinv n X v | Some f \<Rightarrow> kinv n (bump f 1 X) v \<and> f < length (v_refs v))
      (kseq (iunlockput ip) (kret (-1))) (\<lambda>_. kinv n X)"
    by (auto intro!: rets_seq_frame rets_ret simp: frame)
next
  fix f
  show "rets (\<lambda>v. case Some f of None \<Rightarrow> kinv n X v | Some f \<Rightarrow> kinv n (bump f 1 X) v \<and> f < length (v_refs v))
      (kbind (fdalloc f) (\<lambda>fd. if fd < 0 then kseq (fileclose f) (kseq (iunlockput ip) (kret (-1)))
         else kseq (iunlock (Some ip)) (kseq (upd_file f (\<lambda>x. x\<lparr>f_type := FD_INODE, f_ip := Some ip, f_off := 0,
           f_readable := (omode AND O_WRONLY = 0), f_writable := (omode AND O_WRONLY \<noteq> 0 \<or> omode AND O_RDWR \<noteq> 0)\<rparr>)) (kret fd))))
      (\<lambda>_. kinv n X)"
    unfolding option.case
  proof (rule rets_fdalloc, goal_cases)
    case 2
    show ?case by (rule rets_pre [OF rets_close [of n X]]) (auto intro!: rets_seq_frame rets_ret simp: frame)
  qed (auto intro!: rets_seq_frame rets_ret simp: frame)
qed

lemma sys_open_rets: "rets (kinv n X) sys_open (\<lambda>_. kinv n X)"
  unfolding sys_open_def need_def
  by (auto intro!: rets_bind_frame rets_seq_frame rets_ret open_file_rets simp: frame split: option.split)

text \<open>A pipe comes with two fresh references, one for each end.\<close>

lemma rets_two_closes: "rets (kinv n X) m Q \<Longrightarrow> rets (kinv n (bump g 1 (bump f 1 X))) (kseq (fileclose f) (kseq (fileclose g) m)) Q"
  using rets_close [of n "bump g 1 X" "kseq (fileclose g) m" Q f] rets_close [of n X m Q g] by (simp add: bump_commute)

lemma pipealloc_rets:
  "rets (kinv n X) pipealloc (\<lambda>r v. case r of None \<Rightarrow> kinv n X v
     | Some (f, g) \<Rightarrow> kinv n (bump g 1 (bump f 1 X)) v \<and> f < n \<and> g < n)"
  unfolding pipealloc_def pipe_bad_def
proof (rule rets_bind_option [OF filealloc_rets], goal_cases)
  case 1
  show ?case by (auto intro!: rets_seq_frame rets_ret simp: frame)
next
  case (2 f)
  show ?case unfolding option.case
  proof (rule rets_fact [of _ "f < n"], simp add: kinv_def, rule rets_pre [of "kinv n (bump f 1 X)"],
      rule rets_bind_option [OF filealloc_rets], goal_cases)
    case 1
    then show ?case by (auto intro!: rets_close rets_seq_frame rets_ret simp: frame)
  next
    case (2 g)
    show ?case unfolding option.case
    proof (rule rets_fact [of _ "g < n"], simp add: kinv_def, rule rets_pre [of "kinv n (bump g 1 (bump f 1 X))"],
        rule rets_bind_frame, simp add: frame, goal_cases)
      case (1 p)
      then show ?case using \<open>f < n\<close>
        by (auto intro!: rets_two_closes rets_seq_frame rets_ret simp: frame)
    qed simp
  qed simp
qed

lemma sys_pipe_rets: "rets (kinv n X) sys_pipe (\<lambda>_. kinv n X)"
  unfolding sys_pipe_def need_def
proof (rule rets_bind_frame, simp add: frame, goal_cases)
  case (1 r)
  show ?case
  proof (cases r)
    case None
    then show ?thesis by (simp add: rets_ret)
  next
    case (Some a)
    show ?thesis unfolding Some option.case
    proof (rule rets_bind_option [OF pipealloc_rets], goal_cases)
      case 1
      show ?case by (simp add: rets_ret)
    next
      case (2 x)
      obtain f g where x: "x = (f, g)" by fastforce
      show ?case unfolding x option.case prod.case
      proof (rule rets_fact [of _ "f < n \<and> g < n"], simp, rule rets_fdalloc [of _ n "bump g 1 (bump f 1 X)"], goal_cases)
        case (1 v)
        then show ?case by (simp add: kinv_def)
      next
        case 2
        show ?case by (rule rets_pre [OF rets_two_closes]) (auto intro: rets_ret)
      next
        case (3 fd)
        have e: "bump f (-1) (bump g 1 (bump f 1 X)) = bump g 1 X" "bump g (-1) (bump g 1 X) = X" by (simp_all add: bump_commute [of f])
        show ?case unfolding e
        proof (rule rets_fdalloc [of _ n "bump g 1 X"], goal_cases)
          case (1 v)
          then show ?case using 3 by (simp add: kinv_def)
        next
          case 2
          have "rets (kinv n (bump f 1 (bump g 1 X))) (kseq (fileclose f) (kseq (fileclose g) (kret (-1 :: int)))) (\<lambda>_. kinv n X)"
            unfolding bump_commute [of f] by (intro rets_two_closes rets_ret)
          then show ?case by (simp, intro rets_with_cur rets_seq [OF clear_fd_rets])
        next
          case (3 fd')
          then show ?case unfolding e by (auto intro!: rets_seq_frame rets_ret simp: frame)
        qed
      qed
    qed
  qed
qed

section \<open>Processes\<close>

text \<open>Process \<open>i\<close> is being created and has no files yet from descriptor \<open>j\<close> on.\<close>

definition newborn :: "nat \<Rightarrow> nat \<Rightarrow> view \<Rightarrow> bool" where
  "newborn i j v \<longleftrightarrow> i < length (v_procs v) \<and> v_stage (v_procs v ! i) = Embryo \<and>
     (\<forall>k. j \<le> k \<longrightarrow> k < NOFILE \<longrightarrow> v_files (v_procs v ! i) ! k = None)"

lemma newborn_files:
  assumes "kinv n X v" "newborn i 0 v"
  shows "v_files (v_procs v ! i) = replicate NOFILE None"
proof -
  have "length (v_files (v_procs v ! i)) = NOFILE"
    using assms table_ok_nth [of X v i] by (simp add: kinv_def newborn_def pview_ok_def)
  then show ?thesis using assms(2) by (intro nth_equalityI) (simp_all add: newborn_def)
qed

lemma kview_stage:
  "i < length (ptable s) \<Longrightarrow> pid (f (ptable s ! i)) = pid (ptable s ! i) \<Longrightarrow> ofile (f (ptable s ! i)) = ofile (ptable s ! i) \<Longrightarrow>
   kview (upd_proc i f s) = (kview s)\<lparr>v_procs := (v_procs (kview s))[i := (v_procs (kview s) ! i)\<lparr>v_stage := stage_of (pstate (f (ptable s ! i)))\<rparr>]\<rparr>"
  by (simp add: kview_proc pkey_def)

lemma newborn_not_cur: "kinv n X v \<Longrightarrow> newborn i j v \<Longrightarrow> v_cur v \<noteq> Some i"
  by (auto simp: kinv_def cur_ok_def newborn_def)

lemma cur_ok_other: "cur_ok v \<Longrightarrow> v_cur v \<noteq> Some i \<Longrightarrow> cur_ok (v\<lparr>v_procs := (v_procs v)[i := k]\<rparr>)"
  by (auto simp: cur_ok_def)

lemma unalloc_rets:
  assumes "\<And>q. pstate (f q) = UNUSED \<and> ofile (f q) = ofile q"
  shows "rets (\<lambda>v. kinv n X v \<and> newborn i 0 v) (kmod (upd_proc i f)) (\<lambda>_. kinv n X)"
proof (rule rets_kmod)
  fix s :: "'a file_state_scheme"
  assume i: "kinv n X (kview s) \<and> newborn i 0 (kview s)"
  have "v_files (v_procs (kview s) ! i) = replicate NOFILE None" using i newborn_files by blast
  moreover have "i < length (v_procs (kview s))" using i by (simp add: newborn_def)
  ultimately show "kinv n X (kview (upd_proc i f s))"
    using i assms newborn_not_cur [of n X "kview s" i 0] cur_ok_other [of "kview s" i]
      table_ok_free [of X "kview s" i "pkey (f (ptable s ! i))"]
    by (simp add: kinv_def kview_proc)
qed

lemma wake_up_rets:
  "rets (\<lambda>v. kinv n X v \<and> newborn i j v) (kmod (upd_proc i (\<lambda>x. x\<lparr>pstate := RUNNABLE\<rparr>))) (\<lambda>_. kinv n X)"
proof (rule rets_kmod)
  fix s :: "'a file_state_scheme"
  assume i: "kinv n X (kview s) \<and> newborn i j (kview s)"
  then have "i < length (ptable s)" by (simp add: newborn_def)
  then show "kinv n X (kview (upd_proc i (\<lambda>x. x\<lparr>pstate := RUNNABLE\<rparr>) s))"
    using i newborn_not_cur [of n X "kview s" i j] cur_ok_other [of "kview s" i] table_ok_stage [of X "kview s" i Alive]
    by (simp add: kinv_def kview_stage newborn_def)
qed

lemma allocproc_rets: "rets (kinv n X) allocproc (\<lambda>r v. kinv n X v \<and> (case r of None \<Rightarrow> True | Some i \<Rightarrow> newborn i 0 v))"
  unfolding allocproc_def
proof (rule rets_seq_frame, simp add: frame, rule retsI, goal_cases)
  case (1 s a t)
  show ?case
  proof (cases "slot_alloc (\<lambda>p. pstate p = UNUSED) (\<lambda>p. p\<lparr>pstate := EMBRYO, pid := nextpid s\<rparr>) (ptable s)")
    case None
    have "rets (kinv n X) (kseq (release L_ptable) (kret None)) (\<lambda>r v. r = None \<and> kinv n X v)"
      by (intro rets_seq_frame rets_ret) (simp_all add: frame)
    from retsD [OF this, of s a t] show ?thesis using 1 None by simp
  next
    case (Some x)
    obtain i ps where x: "x = (i, ps)" by fastforce
    note i = pt.slot_alloc_Some [OF Some [unfolded x]]
    let ?s = "s\<lparr>ptable := ps, nextpid := nextpid s + 1\<rparr>" and ?k = "v_procs (kview s) ! i"
    have fs: "v_files ?k = replicate NOFILE None" using 1(1) i table_ok_nth [of X "kview s" i] by (auto simp: kinv_def pview_ok_def)
    have e: "kview ?s = (kview s)\<lparr>v_next := v_next (kview s) + 1,
        v_procs := (v_procs (kview s))[i := ?k\<lparr>v_pid := v_next (kview s), v_stage := Embryo\<rparr>]\<rparr>"
      using i by (simp add: kview_def map_update pkey_def)
    have "table_ok X (kview ?s)" unfolding e using 1(1) i by (intro table_ok_alloc) (simp_all add: kinv_def)
    moreover have "cur_ok (kview ?s)" using 1(1) i by (auto simp: kinv_def cur_ok_def e nth_list_update)
    ultimately have inv: "kinv n X (kview ?s) \<and> newborn i 0 (kview ?s)"
      using 1(1) i fs by (simp add: kinv_def newborn_def e)
    have "rets (\<lambda>v. kinv n X v \<and> newborn i 0 v) (kseq (release L_ptable) (kbind kalloc (\<lambda>k.
         kseq (kmod (upd_proc i (\<lambda>p. p\<lparr>kstack := k\<rparr>)))
         (if k = 0 then kseq (kmod (upd_proc i (\<lambda>p. p\<lparr>pstate := UNUSED\<rparr>))) (kret None)
          else kbind (kget trapret_addr) (\<lambda>tr. kbind (kget forkret_addr) (\<lambda>fr.
            kseq (put32 (k + KSTACKSIZE - 76 - 4) tr)
           (kseq (kmod (upd_proc i (\<lambda>p. p\<lparr>ctx := zero_ctx\<lparr>ctx_eip := fr\<rparr>\<rparr>)))
           (kret (Some i)))))))))
       (\<lambda>r v. kinv n X v \<and> (case r of None \<Rightarrow> True | Some i \<Rightarrow> newborn i 0 v))"
    proof (rule rets_seq_frame, simp add: frame, rule rets_bind_frame, simp add: frame, rule rets_seq_frame, simp add: frame, goal_cases)
      case (1 k)
      show ?case
      proof (cases "k = 0")
        case True
        then show ?thesis by simp (rule rets_seq [OF unalloc_rets rets_ret], simp_all)
      next
        case False
        then show ?thesis by simp (intro rets_bind_frame rets_seq_frame rets_ret, simp_all add: frame)
      qed
    qed
    from retsD [OF this, of ?s a t] show ?thesis using inv 1(2) Some x by (simp add: kseq_eq kmod_def)
  qed
qed

text \<open>Copying one descriptor to a new process: the count goes up with the descriptor.\<close>

lemma upd_file_procs: "rets (\<lambda>v. R (v_cur v) (v_procs v)) (upd_file f h) (\<lambda>_ v. R (v_cur v) (v_procs v))"
  by (rule retsI) (auto simp: upd_file_def split: if_splits)

lemma filedup_procs: "rets (\<lambda>v. R (v_cur v) (v_procs v)) (filedup f) (\<lambda>r v. r = f \<and> R (v_cur v) (v_procs v))"
  unfolding filedup_def
  by (rule rets_seq_frame, simp add: frame, rule rets_seq_frame, simp add: frame, rule rets_seq [OF upd_file_procs])
    (intro rets_seq_frame rets_ret, simp_all add: frame)

lemma give_fd_rets:
  "rets (\<lambda>v. kinv n (bump f 1 X) v \<and> f < length (v_refs v) \<and> newborn i j v \<and> v_cur v = Some p) (kmod (upd_proc i (\<lambda>q. q\<lparr>ofile := (ofile q)[j := Some f]\<rparr>)))
     (\<lambda>_ v. kinv n X v \<and> newborn i (Suc j) v \<and> v_cur v = Some p)" if "j < NOFILE"
proof (rule rets_kmod)
  fix s :: "'a file_state_scheme"
  let ?k = "v_procs (kview s) ! i" and ?t = "upd_proc i (\<lambda>q. q\<lparr>ofile := (ofile q)[j := Some f]\<rparr>) s"
  assume i: "kinv n (bump f 1 X) (kview s) \<and> f < length (v_refs (kview s)) \<and> newborn i j (kview s) \<and> v_cur (kview s) = Some p"
  then have k: "i < length (ptable s)" "v_files ?k ! j = None" using that by (auto simp: newborn_def)
  have e: "kview ?t = (kview s)\<lparr>v_procs := (v_procs (kview s))[i := ?k\<lparr>v_files := (v_files ?k)[j := Some f]\<rparr>]\<rparr>"
    using k by (simp add: kview_proc pkey_def)
  have "table_ok (gain (Some f) (lose (v_files ?k ! j) (bump f 1 X))) (kview ?t)"
    unfolding e using i k that by (intro table_ok_fd) (auto simp: kinv_def newborn_def)
  then have "table_ok X (kview ?t)" using k by (simp add: move_simps)
  moreover have "cur_ok (kview ?t)" using cur_ok_other [of "kview s" i] newborn_not_cur [of n "bump f 1 X" "kview s" i j] i by (simp add: e kinv_def)
  ultimately show "kinv n X (kview ?t) \<and> newborn i (Suc j) (kview ?t) \<and> v_cur (kview ?t) = Some p"
    using i k by (auto simp: e kinv_def newborn_def nth_list_update)
qed

lemma fork_fd_rets:
  assumes "j < NOFILE"
  shows "rets (\<lambda>v. kinv n X v \<and> newborn i j v \<and> v_cur v = Some p) (fork_fd p i j) (\<lambda>_ v. kinv n X v \<and> newborn i (Suc j) v \<and> v_cur v = Some p)"
  unfolding fork_fd_def
proof (rule rets_bind_option_frame, simp add: frame, goal_cases)
  case 1
  show ?case by (rule rets_ret) (auto simp: newborn_def)
next
  case (2 f)
  show ?case
  proof (rule rets_bind)
    show "rets (\<lambda>v. kinv n X v \<and> newborn i j v \<and> v_cur v = Some p) (filedup f)
      (\<lambda>r v. (r = f \<and> kinv n (bump f 1 X) v \<and> f < length (v_refs v)) \<and> (r = f \<and> newborn i j v \<and> v_cur v = Some p))"
      unfolding newborn_def by (intro rets_conj [OF filedup_rets]) (rule filedup_procs)
    show "rets (\<lambda>v. (r = f \<and> kinv n (bump f 1 X) v \<and> f < length (v_refs v)) \<and> (r = f \<and> newborn i j v \<and> v_cur v = Some p))
      (kmod (upd_proc i (\<lambda>q. q\<lparr>ofile := (ofile q)[j := Some r]\<rparr>))) (\<lambda>_ v. kinv n X v \<and> newborn i (Suc j) v \<and> v_cur v = Some p)" for r
      by (rule rets_fact [of _ "r = f"], simp) (rule rets_pre [OF give_fd_rets [OF assms]], simp)
  qed
qed

lemma fork_rets: "rets (kinv n X) fork (\<lambda>_. kinv n X)"
  unfolding fork_def
proof (rule rets_bind_option [OF allocproc_rets], goal_cases)
  case 1
  show ?case by (simp add: rets_ret)
next
  case (2 i)
  show ?case unfolding option.case
  proof (rule rets_with_cur, rule rets_bind_frame, simp add: frame, rule rets_bind_frame, simp add: frame, rule rets_seq_frame, simp add: frame, goal_cases)
    case (1 p q d)
    show ?case
    proof (cases "d = 0")
      case True
      then show ?thesis unfolding if_P [OF True]
        by (intro rets_bind_frame rets_seq_frame rets_seq [OF rets_pre [OF unalloc_rets]] rets_ret) (simp_all add: frame)
    next
      case False
      show ?thesis unfolding if_not_P [OF False]
      proof (rule rets_seq_frame, simp add: frame,
          rule rets_seq [where R = "\<lambda>v. kinv n X v \<and> newborn i NOFILE v \<and> v_cur v = Some p"], goal_cases)
        case 1
        show ?case
          by (rule rets_pre [OF rets_foreach [where J = "\<lambda>j v. kinv n X v \<and> newborn i j v \<and> v_cur v = Some p"]]) (auto intro: fork_fd_rets)
      next
        case 2
        show ?case
          by (cases "cwd q") (auto intro!: rets_none rets_bind_frame rets_seq_frame rets_seq [OF rets_pre [OF wake_up_rets]] rets_ret simp: frame)
      qed
    qed
  qed
qed

lemma dead_files: "kinv n X v \<Longrightarrow> i < length (v_procs v) \<Longrightarrow> v_stage (v_procs v ! i) = Dead \<Longrightarrow> v_files (v_procs v ! i) = replicate NOFILE None"
  using table_ok_nth [of X v i] by (simp add: kinv_def pview_ok_def)

lemma bury_rets:
  assumes "\<And>q. pstate (f q) = UNUSED \<and> ofile (f q) = ofile q"
  shows "rets (\<lambda>v. kinv n X v \<and> i < length (v_procs v) \<and> v_stage (v_procs v ! i) = Dead) (kmod (upd_proc i f)) (\<lambda>_. kinv n X)"
proof (rule rets_kmod)
  fix s :: "'a file_state_scheme"
  assume i: "kinv n X (kview s) \<and> i < length (v_procs (kview s)) \<and> v_stage (v_procs (kview s) ! i) = Dead"
  then have "v_files (v_procs (kview s) ! i) = replicate NOFILE None" using dead_files by blast
  moreover have "v_cur (kview s) \<noteq> Some i" using i by (auto simp: kinv_def cur_ok_def)
  ultimately show "kinv n X (kview (upd_proc i f s))"
    using i assms cur_ok_other [of "kview s" i] table_ok_free [of X "kview s" i "pkey (f (ptable s ! i))"] by (simp add: kinv_def kview_proc)
qed

lemma reap_rets: "rets (\<lambda>v. kinv n X v \<and> i < length (v_procs v) \<and> v_stage (v_procs v ! i) = Dead) (reap i) (\<lambda>_. kinv n X)"
  unfolding reap_def
  by (rule rets_bind_frame, simp add: frame, rule rets_seq_frame, simp add: frame, rule rets_seq_frame, simp add: frame,
      rule rets_seq_frame, simp add: frame, rule rets_seq [OF bury_rets], simp)
    (intro rets_seq_frame rets_ret, simp_all add: frame)

lemma sleep_retry_no_return: "sleep_retry c lk s \<noteq> Ret a t"
  by (auto simp: sleep_retry_def kseq_def kfault_def dest!: kbind_RetD)

lemma wait_rets: "rets (kinv n X) wait (\<lambda>_. kinv n X)"
  unfolding wait_def wait_loop_def
proof (rule rets_seq_frame, simp add: frame, rule rets_with_cur, rule retsI, goal_cases)
  case (1 me s a t)
  show ?case
  proof (cases "first_slot (\<lambda>q. parent q = Some me \<and> pstate q = ZOMBIE) (ptable s)")
    case None
    have "rets (kinv n X) (kseq (release L_ptable) (kret (-1 :: int))) (\<lambda>_. kinv n X)"
      by (intro rets_seq_frame rets_ret) (simp_all add: frame)
    then show ?thesis using 1 None by (auto simp: rets_def sleep_retry_no_return split: if_splits)
  next
    case (Some i)
    from first_slot_SomeD [OF Some] show ?thesis using retsD [OF reap_rets, of n X s i a t] 1 Some by simp
  qed
qed

text \<open>\<^verbatim>\<open>exit\<close> never returns; before it marks the process, its loop has closed all descriptors.\<close>

lemma exit_rets: "rets P exit Q"
  by (rule retsI) (auto simp: exit_def with_cur_def kseq_def sched_no_return kfault_def split: option.splits dest!: kbind_RetD)

lemma fileclose_procs: "rets (\<lambda>v. R (v_cur v) (v_procs v)) (fileclose f) (\<lambda>_ v. R (v_cur v) (v_procs v))"
  unfolding fileclose_def
proof (rule rets_seq_frame, simp add: frame, rule rets_seq_frame, simp add: frame, rule rets_seq [OF upd_file_procs],
    rule rets_bind_frame, simp add: frame, goal_cases)
  case (1 ff)
  show ?case
  proof (cases "f_ref ff > 0")
    case True
    then show ?thesis by (simp add: rets_frame frame)
  next
    case False
    show ?thesis unfolding if_not_P [OF False]
      by (rule rets_seq [OF upd_file_procs]) (intro rets_seq_frame rets_frame, simp_all add: frame)
  qed
qed

lemma close_fd_rets:
  assumes "fd < NOFILE"
  shows "rets (\<lambda>v. kinv n X v \<and> v_cur v = Some p \<and> (\<forall>j < fd. v_files (v_procs v ! p) ! j = None)) (close_fd p fd)
    (\<lambda>_ v. kinv n X v \<and> v_cur v = Some p \<and> (\<forall>j < Suc fd. v_files (v_procs v ! p) ! j = None))"
proof (rule retsI, goal_cases)
  case (1 s a t)
  show ?case
  proof (cases "ofile (the_proc p s) ! fd")
    case None
    then have "t = s" using 1(2) by (simp add: close_fd_def kget_def kret_def kbind_def)
    moreover have "p < length (ptable s)" using 1(1) kinv_cur(1) [of n X "kview s" p] by simp
    ultimately show ?thesis using 1(1) None by (auto simp: less_Suc_eq)
  next
    case (Some f)
    let ?g = "\<lambda>q. q\<lparr>ofile := (ofile q)[fd := None]\<rparr>"
    let ?R = "\<lambda>c ks. c = Some p \<and> v_files (ks ! p) ! fd = Some f \<and> (\<forall>j < fd. v_files (ks ! p) ! j = None)"
    have p: "p < length (ptable s)" using 1(1) kinv_cur(1) [of n X "kview s" p] by simp
    have c: "rets (\<lambda>v. kinv n X v \<and> ?R (v_cur v) (v_procs v)) (fileclose f) (\<lambda>_ v. kinv n (bump f (-1) X) v \<and> ?R (v_cur v) (v_procs v))"
      by (rule rets_conj [OF fileclose_rets fileclose_procs])
    obtain u where u: "fileclose f s = Ret () u" "t = upd_proc p ?g u"
      using 1(2) Some by (auto simp: close_fd_def kget_def kmod_def kbind_def kseq_def split: outcome.splits)
    have "kinv n (bump f (-1) X) (kview u) \<and> ?R (v_cur (kview u)) (v_procs (kview u))"
      using 1(1) Some p by (intro retsD [OF c _ u(1)]) simp
    then have i: "kinv n (bump f (-1) X) (kview u)" "?R (v_cur (kview u)) (v_procs (kview u))" by blast+
    have pu: "p < length (ptable u)" "length (ofile (the_proc p u)) = NOFILE" using kinv_cur [OF i(1), of p] i(2) by simp_all
    have "kinv n (bump f 1 (bump f (-1) X)) (kview t)"
      by (rule retsD [OF clear_fd_rets, of _ _ u fd f p "()"]) (use i assms in \<open>simp_all add: has_fd_def kmod_def u(2)\<close>)
    then show ?thesis using i(2) pu assms by (auto simp: u(2) kview_proc less_Suc_eq)
  qed
qed

lemma close_all_rets:
  "rets (\<lambda>v. kinv n X v \<and> v_cur v = Some p) (kforeach [0..<NOFILE] (close_fd p))
    (\<lambda>_ v. kinv n X v \<and> v_files (v_procs v ! p) = replicate NOFILE None)"
proof -
  have "rets (\<lambda>v. kinv n X v \<and> v_cur v = Some p \<and> (\<forall>j < 0. v_files (v_procs v ! p) ! j = None)) (kforeach [0..<NOFILE] (close_fd p))
    (\<lambda>_ v. kinv n X v \<and> v_cur v = Some p \<and> (\<forall>j < NOFILE. v_files (v_procs v ! p) ! j = None))"
    by (rule rets_foreach [where J = "\<lambda>i v. kinv n X v \<and> v_cur v = Some p \<and> (\<forall>j < i. v_files (v_procs v ! p) ! j = None)"])
      (rule close_fd_rets, simp_all)
  then show ?thesis using kinv_cur(3) by (auto elim!: rets_post [OF rets_pre] intro!: nth_equalityI)
qed

section \<open>Every system call\<close>

text \<open>
  The invariant of a state at rest: the count of every open file is the number of descriptors that refer to it, descriptors
  refer to slots of the table, unused and dead processes have none, and the processes in use have distinct positive numbers.
\<close>

definition kernel_ok :: "'a file_state_scheme \<Rightarrow> bool" where
  "kernel_ok s \<longleftrightarrow> kinv (length (ftable s)) (\<lambda>_. 0) (kview s)"

lemma syscalls_rets: "(k, f) \<in> set syscalls \<Longrightarrow> rets (kinv n X) f (\<lambda>_. kinv n X)"
  unfolding syscalls_def
  by (auto simp: sys_fork_def sys_wait_def sys_exit_def rets_seq [OF exit_rets rets_ret] fork_rets wait_rets sys_dup_rets
      sys_close_rets sys_open_rets sys_pipe_rets rets_frame frame)

lemma set_eax_frame [frame]: "ret_in (kview s) (set_eax p r s)"
  by (simp add: set_eax_def frame)

lemma syscall_rets: "rets (kinv n X) (syscall :: ('a sys_state_scheme, unit) kop) (\<lambda>_. kinv n X)"
  unfolding syscall_def
proof (rule rets_with_cur, rule rets_bind_frame, simp add: frame, goal_cases)
  case (1 p num)
  show ?case
  proof (cases "if num > 0 then map_of (syscalls :: (nat \<times> ('a sys_state_scheme, int) kop) list) (nat num) else None")
    case None
    show ?thesis unfolding None option.case
      by (rule rets_pre [of "kinv n X"]) (intro rets_seq_frame rets_frame, simp_all add: frame)
  next
    case (Some f)
    then have "(nat num, f) \<in> set syscalls" by (auto split: if_splits dest: map_of_SomeD)
    then show ?thesis unfolding Some option.case
      by (intro rets_pre [OF rets_bind [OF syscalls_rets rets_frame]]) (auto simp: frame)
  qed
qed


text \<open>A process with one open file, about to ask for its number.\<close>

definition one_file :: sys_state where
  "one_file = idle_machine
     [proc_zero\<lparr>pstate := RUNNING, pid := 1, ofile := Some 0 # replicate 15 None, tf := zero_tf\<lparr>tf_eax := 11\<rparr>\<rparr>]
     [\<lparr>f_type = FD_PIPE, f_ref = 1, f_readable = True, f_writable = False, f_pipe = 0, f_ip = None, f_off = 0\<rparr>] (\<lambda>_. wrap_pipe)
     (vm_state_ext 0 0 (\<lambda>_. 0) (\<lambda>_ _. SEG 0 0 0 0) (\<lambda>_. 0) (\<lambda>_. 0) (\<lambda>_. 0) (\<lambda>_. 0) (\<lambda>_. 0) (\<lambda>_. 0)
       (sys_state_ext 0 0 False 0 (\<lambda>_. SETGATE False 0 0 0) (\<lambda>_. True) (\<lambda>_. 0) ()))\<lparr>nextpid := 2\<rparr>"

lemma one_file_ok: "kernel_ok one_file"
  by (simp add: kernel_ok_def kinv_def table_ok_def refs_ok_def pview_ok_def cur_ok_def pids_def fd_count_def one_file_def pkey_def)


end
