(* ===== verification/Paging.thy ===== *)
theory Paging
  imports Trap
begin

text \<open>
  What the page-table code of \<^verbatim>\<open>vm.c\<close> does, seen from the address spaces it builds. The address space of a page
  directory is the function \<open>pte\<close> from page numbers to page-table entries; \<open>mappages\<close>, \<open>allocuvm\<close>, \<open>deallocuvm\<close> and
  \<open>copyuvm\<close> are shown to change it at the pages they are asked for and nowhere else, while the free list and the pages of
  the tables stay apart.
\<close>

unbundle bit_operations_syntax

section \<open>A page as an array of words\<close>

definition word_at :: "memory \<Rightarrow> u32 \<Rightarrow> nat \<Rightarrow> u32" where
  "word_at m p j = load32 m (p + 4 * of_nat j)"

definition set_word :: "u32 \<Rightarrow> nat \<Rightarrow> u32 \<Rightarrow> memory \<Rightarrow> memory" where
  "set_word p j w m = store32 (p + 4 * of_nat j) w m"

lemma word_in_page:
  assumes "page_aligned p" "j < 1024" "in_range (p + 4 * of_nat j) 4 x"
  shows "in_range p 4096 x" "unat (x - p) div 4 = j"
proof -
  have x: "unat (x - (p + 4 * of_nat j)) < 4" using assms(3) by (simp add: in_range_def)
  have j: "unat (4 * of_nat j :: u32) = 4 * j" using assms(2) unat_of_nat_u32 [of "4 * j"] by simp
  define y where "y = x - (p + 4 * of_nat j)"
  have "x - p = y + 4 * of_nat j" by (simp add: y_def)
  then have "unat (x - p) = (unat y + unat (4 * of_nat j :: u32)) mod 4294967296" by (simp add: unat_word_ariths)
  then have "unat (x - p) = unat y + 4 * j" using x assms(2) unfolding j y_def [symmetric] by simp
  then show "in_range p 4096 x" "unat (x - p) div 4 = j" using x assms(2) by (auto simp: in_range_def y_def [symmetric])
qed

lemma word_at_set_word:
  assumes "page_aligned p" "page_aligned q" "j < 1024" "k < 1024"
  shows "word_at (set_word p j w m) q k = (if q = p \<and> k = j then w else word_at m q k)"
proof (cases "q = p \<and> k = j")
  case True
  then show ?thesis by (simp add: word_at_def set_word_def)
next
  case False
  have "set_word p j w m x = m x" if x: "in_range (q + 4 * of_nat k) 4 x" for x
  proof -
    have "\<not> in_range (p + 4 * of_nat j) 4 x"
      using False word_in_page [OF assms(2,4) x] word_in_page [OF assms(1,3), of x]
        pages_disjoint [OF assms(1,2)] by metis
    then show ?thesis by (simp add: set_word_def store32_other)
  qed
  then have "word_at (set_word p j w m) q k = word_at m q k"
    unfolding word_at_def by (rule load32_cong)
  with False show ?thesis by auto
qed

lemma set_word_other: "page_aligned p \<Longrightarrow> j < 1024 \<Longrightarrow> \<not> in_range p 4096 x \<Longrightarrow> set_word p j w m x = m x"
  using word_in_page(1) [of p j x] store32_other [of "p + 4 * of_nat j" x w m] by (auto simp: set_word_def)

text \<open>The bytes of a set of pages, and that two memories agree there.\<close>

definition in_pages :: "u32 set \<Rightarrow> u32 \<Rightarrow> bool" where
  "in_pages P x \<longleftrightarrow> (\<exists>p \<in> P. in_range p 4096 x)"

definition same_on :: "u32 set \<Rightarrow> memory \<Rightarrow> memory \<Rightarrow> bool" where
  "same_on P m m' \<longleftrightarrow> (\<forall>x. in_pages P x \<longrightarrow> m x = m' x)"

lemma same_on_mono: "same_on P m m' \<Longrightarrow> Q \<subseteq> P \<Longrightarrow> same_on Q m m'"
  by (auto simp: same_on_def in_pages_def)

lemma same_on_refl [simp]: "same_on P m m"
  by (simp add: same_on_def)

lemma same_on_trans: "same_on P m m' \<Longrightarrow> same_on P m' m'' \<Longrightarrow> same_on P m m''"
  by (simp add: same_on_def)

lemma word_at_cong:
  assumes "page_aligned p" "j < 1024" "same_on P m m'" "p \<in> P"
  shows "word_at m p j = word_at m' p j"
  unfolding word_at_def
proof (rule load32_cong)
  fix x assume "in_range (p + 4 * of_nat j) 4 x"
  then show "m x = m' x" using word_in_page(1) [OF assms(1,2)] assms(3,4) by (auto simp: same_on_def in_pages_def)
qed

lemma same_on_outside:
  assumes "\<forall>p \<in> P. page_aligned p" "page_aligned q" "q \<notin> P" "\<And>x. \<not> in_range q 4096 x \<Longrightarrow> m' x = m x"
  shows "same_on P m m'"
  unfolding same_on_def in_pages_def using assms pages_disjoint by metis

lemma same_on_set_word:
  "\<forall>p \<in> P. page_aligned p \<Longrightarrow> page_aligned q \<Longrightarrow> q \<notin> P \<Longrightarrow> j < 1024 \<Longrightarrow> same_on P m (set_word q j w m)"
  by (rule same_on_outside [of P q]) (simp_all add: set_word_other)

lemma same_on_memset:
  "\<forall>p \<in> P. page_aligned p \<Longrightarrow> page_aligned q \<Longrightarrow> q \<notin> P \<Longrightarrow> same_on P m (memset q c 4096 m)"
  by (rule same_on_outside [of P q]) (simp_all add: memset_eq)

lemma word_at_cleared: "page_aligned p \<Longrightarrow> j < 1024 \<Longrightarrow> word_at (memset p 0 4096 m) p j = 0"
  using word_at_cong [of p j "{p}" "memset p 0 4096 m" "\<lambda>_. 0"]
  by (simp add: word_at_def load32_def un_le32_def same_on_def in_pages_def memset_eq)

section \<open>Page numbers\<close>

definition vpn :: "u32 \<Rightarrow> nat" where
  "vpn va = unat va div 4096"

lemma vpn_bound [simp]: "vpn va < 1048576" "vpn va div 1024 < 1024"
  using u32_bound [of va] by (auto simp: vpn_def)

lemma unat_ten_bits: "unat (drop_bit k (va :: u32) AND 0x3FF) = unat va div 2 ^ k mod 1024"
proof -
  have "drop_bit k va AND 0x3FF = take_bit 10 (drop_bit k va)"
    by (simp add: take_bit_eq_mask mask_eq_exp_minus_1)
  also have "unat (take_bit 10 (drop_bit k va)) = take_bit 10 (drop_bit k (unat va))"
    by (simp only: unsigned_take_bit_eq unat_drop_bit_eq)
  finally show ?thesis by (simp add: take_bit_eq_mod drop_bit_eq_div)
qed

lemma PDX_vpn: "PDX va = of_nat (vpn va div 1024)"
proof -
  have "unat (PDX va) = vpn va div 1024"
    using vpn_bound(2) [of va] by (simp add: PDX_def unat_ten_bits vpn_def div_mult2_eq [symmetric])
  then show ?thesis by (metis of_nat_unat ucast_id)
qed

lemma PTX_vpn: "PTX va = of_nat (vpn va mod 1024)"
proof -
  have "unat (PTX va) = vpn va mod 1024" by (simp add: PTX_def unat_ten_bits vpn_def)
  then show ?thesis by (metis of_nat_unat ucast_id)
qed

section \<open>Page-table entries\<close>

lemma PTE_ADDR_aligned [simp]: "page_aligned (PTE_ADDR e)"
proof -
  have "PTE_ADDR e = e AND - 4096" by (simp add: PTE_ADDR_def)
  then show ?thesis by (simp add: page_aligned_nat unat_and_page_mask)
qed

lemma page_aligned_add: "page_aligned a \<Longrightarrow> page_aligned (a + b) = page_aligned b"
proof -
  assume a: "page_aligned a"
  have "unat (a + b) mod 4096 = (unat a + unat b) mod 4096"
    by (simp add: unat_word_ariths mod_mod_cancel)
  with a show ?thesis by (auto simp: page_aligned_nat dvd_eq_mod_eq_0 mod_add_eq [symmetric, of "unat a"])
qed

lemma page_aligned_p2v [simp]: "page_aligned (p2v a) = page_aligned a"
  using page_aligned_add [of KERNBASE a] by (simp add: p2v_def add.commute) (simp add: page_aligned_def)

lemma page_aligned_v2p [simp]: "page_aligned (v2p a) = page_aligned a"
  using page_aligned_p2v [of "v2p a"] by simp

lemma p2v_inj: "p2v a = p2v b \<longleftrightarrow> a = b"
  by (simp add: p2v_def)

text \<open>An entry made of a page address and flags.\<close>

lemma page_aligned_bits: "page_aligned a \<Longrightarrow> bit a n \<Longrightarrow> 12 \<le> n"
proof (rule ccontr)
  assume a: "page_aligned a" "bit a n" "\<not> 12 \<le> n"
  have "take_bit 12 a = 0" using a(1) by (simp add: page_aligned_def take_bit_eq_mod)
  then have "\<not> bit (take_bit 12 a) n" by simp
  with a(2,3) show False by (simp add: bit_take_bit_iff)
qed

lemma flag_bits: "(f :: u32) < 4096 \<Longrightarrow> bit f n \<Longrightarrow> n < 12"
proof -
  assume f: "f < 4096" "bit f n"
  have "unat f < 4096" using f(1) by (simp add: word_less_nat_alt)
  then have "unat (f mod 4096) = unat f" by (simp add: unat_mod)
  then have "f mod 4096 = f" by (simp only: word_unat_eq_iff)
  then have "take_bit 12 f = f" by (simp add: take_bit_eq_mod)
  then have "bit (take_bit 12 f) n" using f(2) by simp
  then show ?thesis by (simp add: bit_take_bit_iff)
qed

lemma low_mask: "(0xFFF :: u32) = mask 12"
  by (simp add: mask_eq_exp_minus_1)

lemma PTE_ADDR_entry: "page_aligned a \<Longrightarrow> f < 4096 \<Longrightarrow> PTE_ADDR (a OR f) = a"
  unfolding PTE_ADDR_def low_mask using page_aligned_bits [of a] flag_bits [of f]
  by (intro bit_word_eqI) (fastforce simp: bit_simps)

lemma PTE_FLAGS_entry: "page_aligned a \<Longrightarrow> f < 4096 \<Longrightarrow> PTE_FLAGS (a OR f) = f"
  unfolding PTE_FLAGS_def low_mask using page_aligned_bits [of a] flag_bits [of f]
  by (intro bit_word_eqI) (fastforce simp: bit_simps)

lemma PTE_split: "PTE_ADDR e OR PTE_FLAGS e = e"
  by (auto intro!: bit_word_eqI simp: PTE_ADDR_def PTE_FLAGS_def bit_simps)

lemma entry_present: "(a OR f OR 1) AND (1 :: u32) \<noteq> 0"
proof -
  have "bit ((a OR f OR 1) AND (1 :: u32)) 0" by (simp add: bit_simps)
  then show ?thesis by (metis bit_0_eq bot_apply bot_bool_def)
qed

section \<open>Address spaces\<close>

text \<open>The entry of table \<open>i\<close> in a directory, the page of that table, and the entry of a virtual page.\<close>

definition pde :: "memory \<Rightarrow> u32 \<Rightarrow> nat \<Rightarrow> u32" where
  "pde m pd i = word_at m pd i"

definition tbl :: "memory \<Rightarrow> u32 \<Rightarrow> nat \<Rightarrow> u32" where
  "tbl m pd i = p2v (PTE_ADDR (pde m pd i))"

definition has_tbl :: "memory \<Rightarrow> u32 \<Rightarrow> nat \<Rightarrow> bool" where
  "has_tbl m pd i \<longleftrightarrow> pde m pd i AND PTE_P \<noteq> 0"

definition pte :: "memory \<Rightarrow> u32 \<Rightarrow> nat \<Rightarrow> u32" where
  "pte m pd v = (if v < 1048576 \<and> has_tbl m pd (v div 1024) then word_at m (tbl m pd (v div 1024)) (v mod 1024) else 0)"

text \<open>The pages a directory occupies with its tables, and that they are pages of their own.\<close>

definition tables :: "memory \<Rightarrow> u32 \<Rightarrow> u32 set" where
  "tables m pd = insert pd (tbl m pd ` {i. i < 1024 \<and> has_tbl m pd i})"

definition dir_ok :: "u32 \<Rightarrow> memory \<Rightarrow> u32 \<Rightarrow> bool" where
  "dir_ok ke m pd \<longleftrightarrow> (\<forall>p \<in> tables m pd. page_ok ke p) \<and>
     (\<forall>i < 1024. has_tbl m pd i \<longrightarrow> tbl m pd i \<noteq> pd) \<and>
     (\<forall>i < 1024. \<forall>j < 1024. has_tbl m pd i \<longrightarrow> has_tbl m pd j \<longrightarrow> tbl m pd i = tbl m pd j \<longrightarrow> i = j)"

definition vm_ok :: "u32 list \<Rightarrow> u32 \<Rightarrow> 'a kmem_state_scheme \<Rightarrow> bool" where
  "vm_ok xs pd s \<longleftrightarrow> kmem_lockable s \<and> kmem_inv xs s \<and> dir_ok (kend s) (mem s) pd \<and> tables (mem s) pd \<inter> set xs = {}"

text \<open>
  \<open>took pd xs s ys t\<close>: the step from \<open>s\<close> to \<open>t\<close> moved pages from the front of the free list into the tables of the
  directory, and changed no memory outside those tables.
\<close>

definition took :: "u32 \<Rightarrow> u32 list \<Rightarrow> 'a kmem_state_scheme \<Rightarrow> u32 list \<Rightarrow> 'a kmem_state_scheme \<Rightarrow> bool" where
  "took pd xs s ys t \<longleftrightarrow> vm_ok ys pd t \<and> t = s\<lparr>mem := mem t, freelist := freelist t\<rparr> \<and>
     (\<exists>zs. xs = zs @ ys \<and> tables (mem t) pd = tables (mem s) pd \<union> set zs) \<and>
     (\<forall>x. \<not> in_pages (tables (mem t) pd) x \<longrightarrow> mem t x = mem s x)"

lemma took_refl: "vm_ok xs pd s \<Longrightarrow> took pd xs s xs s"
  by (simp add: took_def)

lemma kmem_update_trans:
  assumes t: "t = s\<lparr>mem := mem t, freelist := freelist t\<rparr>" and u: "u = t\<lparr>mem := mem u, freelist := freelist u\<rparr>"
  shows "u = s\<lparr>mem := mem u, freelist := freelist u\<rparr>"
proof -
  have "t\<lparr>mem := a, freelist := b\<rparr> = s\<lparr>mem := a, freelist := b\<rparr>" for a b by (subst t) simp
  with u show ?thesis by metis
qed

lemma took_trans:
  assumes "took pd xs s ys t" "took pd ys t zs u"
  shows "took pd xs s zs u"
proof -
  obtain as bs where as: "xs = as @ ys" "tables (mem t) pd = tables (mem s) pd \<union> set as"
      and bs: "ys = bs @ zs" "tables (mem u) pd = tables (mem t) pd \<union> set bs"
    using assms unfolding took_def by blast
  have "mem u x = mem s x" if "\<not> in_pages (tables (mem u) pd) x" for x
  proof -
    have "\<not> in_pages (tables (mem t) pd) x" using that bs(2) unfolding in_pages_def by blast
    then show ?thesis using that assms unfolding took_def by metis
  qed
  moreover have "u = s\<lparr>mem := mem u, freelist := freelist u\<rparr>"
    using assms by (intro kmem_update_trans [of t s u]) (simp_all add: took_def)
  moreover have "xs = (as @ bs) @ zs" "tables (mem u) pd = tables (mem s) pd \<union> set (as @ bs)"
    using as bs by auto
  ultimately show ?thesis using assms(2) unfolding took_def by blast
qed

lemma tables_aligned: "dir_ok ke m pd \<Longrightarrow> p \<in> tables m pd \<Longrightarrow> page_aligned p"
  by (auto simp: dir_ok_def page_ok_aligned)

lemma dir_in_tables [simp]: "pd \<in> tables m pd"
  by (simp add: tables_def)

lemma tbl_in_tables: "has_tbl m pd i \<Longrightarrow> i < 1024 \<Longrightarrow> tbl m pd i \<in> tables m pd"
  by (auto simp: tables_def)

lemma tbl_aligned [simp]: "page_aligned (tbl m pd i)"
  by (simp add: tbl_def)

lemma dir_aligned: "dir_ok ke m pd \<Longrightarrow> page_aligned pd"
  using tables_aligned [of ke m pd pd] by simp

text \<open>A directory does not see memory outside its tables.\<close>

lemma dir_cong:
  assumes "page_aligned pd" "same_on {pd} m m'" "i < 1024"
  shows "pde m pd i = pde m' pd i" "has_tbl m pd i = has_tbl m' pd i" "tbl m pd i = tbl m' pd i"
  using word_at_cong [OF assms(1,3,2)] by (simp_all add: pde_def has_tbl_def tbl_def)

lemma tables_cong:
  assumes "page_aligned pd" "same_on {pd} m m'"
  shows "tables m pd = tables m' pd" "dir_ok ke m pd = dir_ok ke m' pd"
proof -
  note c = dir_cong [OF assms]
  have "tbl m pd ` {i. i < 1024 \<and> has_tbl m pd i} = tbl m' pd ` {i. i < 1024 \<and> has_tbl m' pd i}"
    by (rule image_cong) (auto simp: c)
  then show "tables m pd = tables m' pd" by (simp add: tables_def)
  then show "dir_ok ke m pd = dir_ok ke m' pd" by (auto simp: dir_ok_def c)
qed

lemma pte_cong:
  assumes "dir_ok ke m pd" "same_on (tables m pd) m m'"
  shows "pte m pd = pte m' pd"
proof
  fix v
  have "same_on {pd} m m'" by (rule same_on_mono [OF assms(2)]) simp
  note c = dir_cong [OF dir_aligned [OF assms(1)] this]
  show "pte m pd v = pte m' pd v"
  proof (cases "v < 1048576 \<and> has_tbl m pd (v div 1024)")
    case True
    then have i: "v div 1024 < 1024" by auto
    have "word_at m (tbl m pd (v div 1024)) (v mod 1024) = word_at m' (tbl m pd (v div 1024)) (v mod 1024)"
      using tbl_in_tables [OF conjunct2 [OF True] i] by (intro word_at_cong [OF _ _ assms(2)]) simp_all
    then show ?thesis using c [OF i] True by (simp add: pte_def)
  next
    case False
    then have "\<not> (v < 1048576 \<and> has_tbl m' pd (v div 1024))" using c(2) [of "v div 1024"] by auto
    then show ?thesis using False by (auto simp: pte_def)
  qed
qed

lemma flist_cong:
  assumes "\<forall>x \<in> set xs. page_aligned x" "same_on (set xs) m m'"
  shows "flist m p xs = flist m' p xs"
proof -
  have "load32 m x = load32 m' x" if "x \<in> set xs" for x
    using word_at_cong [OF _ _ assms(2) that, of 0] assms(1) that by (simp add: word_at_def)
  then show ?thesis by (induction xs arbitrary: p) auto
qed

section \<open>Walking a directory\<close>

lemma walkpgdir_present:
  "has_tbl (mem s) pd (vpn va div 1024) \<Longrightarrow>
   walkpgdir pd va al s = Ret (tbl (mem s) pd (vpn va div 1024) + 4 * of_nat (vpn va mod 1024)) s"
  by (simp add: walkpgdir_def get32_def kop_simps Let_def has_tbl_def tbl_def pde_def word_at_def PDX_vpn PTX_vpn)

lemma walkpgdir_absent: "\<not> has_tbl (mem s) pd (vpn va div 1024) \<Longrightarrow> walkpgdir pd va False s = Ret 0 s"
  by (simp add: walkpgdir_def get32_def kop_simps Let_def has_tbl_def pde_def word_at_def PDX_vpn)

definition add_tbl :: "u32 \<Rightarrow> nat \<Rightarrow> u32 \<Rightarrow> memory \<Rightarrow> memory" where
  "add_tbl pd i x m = set_word pd i (v2p x OR PTE_P OR PTE_W OR PTE_U) (memset x 0 PGSIZE m)"

lemma walkpgdir_alloc:
  assumes "kmem_lockable s" "kmem_inv xs s" "\<not> has_tbl (mem s) pd (vpn va div 1024)"
  shows "walkpgdir pd va True s = (case xs of [] \<Rightarrow> Ret 0 s
     | x # ys \<Rightarrow> Ret (x + 4 * of_nat (vpn va mod 1024))
         (s\<lparr>mem := add_tbl pd (vpn va div 1024) x (mem s), freelist := load32 (mem s) x\<rparr>))"
proof (cases xs)
  case Nil
  then show ?thesis using assms kalloc_step [OF assms(1,2)]
    by (simp add: walkpgdir_def get32_def kop_simps Let_def has_tbl_def pde_def word_at_def PDX_vpn)
next
  case (Cons x ys)
  then have "x \<noteq> 0" using assms(2) page_ok_nonzero by (auto simp: kmem_inv_def)
  then show ?thesis using assms kalloc_step [OF assms(1,2)] Cons
    by (simp add: walkpgdir_def get32_def put32_def clear_page_def kop_simps Let_def has_tbl_def pde_def word_at_def PDX_vpn
        PTX_vpn add_tbl_def set_word_def)
qed

text \<open>A new table: every page it covers is still unmapped, and the other tables are as they were.\<close>

lemma add_tbl:
  fixes m pd i x
  defines "m' \<equiv> add_tbl pd i x m"
  assumes ok: "dir_ok ke m pd" and x: "page_ok ke x" "x \<notin> tables m pd" and i: "i < 1024" "\<not> has_tbl m pd i"
  shows add_tbl_has: "\<And>j. j < 1024 \<Longrightarrow> has_tbl m' pd j = (j = i \<or> has_tbl m pd j)"
    and add_tbl_tbl: "\<And>j. j < 1024 \<Longrightarrow> tbl m' pd j = (if j = i then x else tbl m pd j)"
    and add_tbl_tables: "tables m' pd = insert x (tables m pd)"
    and add_tbl_ok: "dir_ok ke m' pd"
    and add_tbl_pte: "pte m' pd = pte m pd"
    and add_tbl_other: "\<And>P. \<forall>p \<in> P. page_aligned p \<Longrightarrow> x \<notin> P \<Longrightarrow> pd \<notin> P \<Longrightarrow> same_on P m m'"
proof -
  have al: "page_aligned pd" "page_aligned x" "x \<noteq> pd"
    using dir_aligned [OF ok] page_ok_aligned [OF x(1)] x(2) dir_in_tables [of pd m] by auto
  have pde: "pde m' pd j = (if j = i then v2p x OR 7 else pde m pd j)" if "j < 1024" for j
  proof -
    have "same_on {pd} m (memset x 0 4096 m)" using al by (intro same_on_memset) auto
    from word_at_cong [OF al(1) that this] that al i(1) show ?thesis
      by (simp add: m'_def add_tbl_def pde_def word_at_set_word)
  qed
  have seven: "PTE_ADDR (v2p x OR 7) = v2p x" "(v2p x OR 7) AND 1 \<noteq> 0"
    using PTE_ADDR_entry [of "v2p x" 7] entry_present [of "v2p x" 6] al by simp_all
  show has: "has_tbl m' pd j = (j = i \<or> has_tbl m pd j)" if "j < 1024" for j
    using pde [OF that] seven by (simp add: has_tbl_def)
  show tbl: "tbl m' pd j = (if j = i then x else tbl m pd j)" if "j < 1024" for j
    using pde [OF that] seven by (simp add: tbl_def)
  have "{j. j < 1024 \<and> has_tbl m' pd j} = insert i {j. j < 1024 \<and> has_tbl m pd j}"
    using has i(1) by auto
  moreover have "tbl m' pd ` {j. j < 1024 \<and> has_tbl m pd j} = tbl m pd ` {j. j < 1024 \<and> has_tbl m pd j}"
    by (rule image_cong) (use tbl i in auto)
  ultimately have "tbl m' pd ` {j. j < 1024 \<and> has_tbl m' pd j} = insert x (tbl m pd ` {j. j < 1024 \<and> has_tbl m pd j})"
    using tbl i(1) by simp
  then show tabs: "tables m' pd = insert x (tables m pd)" by (auto simp: tables_def)
  show "dir_ok ke m' pd"
    using ok x al(3) tbl_in_tables [of m pd] unfolding dir_ok_def tabs by (auto simp: has tbl)
  show other: "same_on P m m'" if "\<forall>p \<in> P. page_aligned p" "x \<notin> P" "pd \<notin> P" for P
    unfolding m'_def add_tbl_def
    by (rule same_on_trans [OF same_on_memset same_on_set_word]) (use that al i in auto)
  show "pte m' pd = pte m pd"
  proof
    fix v
    show "pte m' pd v = pte m pd v"
    proof (cases "v < 1048576")
      case True
      then have j: "v div 1024 < 1024" by auto
      show ?thesis
      proof (cases "v div 1024 = i")
        case True
        have "word_at m' x (v mod 1024) = 0"
          using al i by (simp add: m'_def add_tbl_def word_at_set_word word_at_cleared)
        then show ?thesis using True i j by (simp add: pte_def has tbl)
      next
        case False
        have "word_at m (tbl m pd (v div 1024)) (v mod 1024) = word_at m' (tbl m pd (v div 1024)) (v mod 1024)"
          if "has_tbl m pd (v div 1024)"
        proof (rule word_at_cong [OF tbl_aligned _ other, of _ "{tbl m pd (v div 1024)}"])
          show "x \<notin> {tbl m pd (v div 1024)}" using x(2) tbl_in_tables [OF that j] by auto
          show "pd \<notin> {tbl m pd (v div 1024)}" using ok that j by (auto simp: dir_ok_def)
        qed simp_all
        then show ?thesis using False j by (simp add: pte_def has tbl)
      qed
    qed (simp add: pte_def)
  qed
qed

text \<open>Setting one entry of a table.\<close>

lemma set_pte:
  fixes m pd v w
  defines "m' \<equiv> set_word (tbl m pd (v div 1024)) (v mod 1024) w m"
  assumes ok: "dir_ok ke m pd" and v: "v < 1048576" "has_tbl m pd (v div 1024)"
  shows set_pte_tables: "tables m' pd = tables m pd"
    and set_pte_has: "\<And>j. j < 1024 \<Longrightarrow> has_tbl m' pd j = has_tbl m pd j"
    and set_pte_ok: "dir_ok ke m' pd"
    and set_pte_pte: "pte m' pd = (pte m pd)(v := w)"
    and set_pte_other: "\<And>P. \<forall>p \<in> P. page_aligned p \<Longrightarrow> tbl m pd (v div 1024) \<notin> P \<Longrightarrow> same_on P m m'"
proof -
  have i: "v div 1024 < 1024" using v by auto
  have pd: "page_aligned pd" "tbl m pd (v div 1024) \<noteq> pd"
    using dir_aligned [OF ok] ok v i by (auto simp: dir_ok_def)
  show other: "same_on P m m'" if "\<forall>p \<in> P. page_aligned p" "tbl m pd (v div 1024) \<notin> P" for P
    unfolding m'_def using that by (intro same_on_set_word) auto
  then have same: "same_on {pd} m m'" using pd by simp
  note c = dir_cong [OF pd(1) same]
  show "tables m' pd = tables m pd" "dir_ok ke m' pd" using tables_cong [OF pd(1) same] ok by simp_all
  show "has_tbl m' pd j = has_tbl m pd j" if "j < 1024" for j using c(2) [OF that] by simp
  show "pte m' pd = (pte m pd)(v := w)"
  proof
    fix u
    have e: "word_at m' (tbl m pd (u div 1024)) (u mod 1024) =
        (if tbl m pd (u div 1024) = tbl m pd (v div 1024) \<and> u mod 1024 = v mod 1024 then w
         else word_at m (tbl m pd (u div 1024)) (u mod 1024))"
      by (simp add: m'_def word_at_set_word)
    have u1: "u = v" if "u div 1024 = v div 1024" "u mod 1024 = v mod 1024"
      using that by (metis div_mult_mod_eq)
    have u2: "u div 1024 = v div 1024" if "has_tbl m pd (u div 1024)" "u < 1048576"
        "tbl m pd (u div 1024) = tbl m pd (v div 1024)"
    proof -
      have "u div 1024 < 1024" using that(2) by auto
      then show ?thesis using ok that i v unfolding dir_ok_def by blast
    qed
    show "pte m' pd u = ((pte m pd)(v := w)) u"
    proof (cases "u < 1048576")
      case True
      then have "u div 1024 < 1024" by auto
      note c' = c [OF this]
      from True u1 u2 show ?thesis using v e by (auto simp: pte_def c' [symmetric] c [OF i, symmetric])
    next
      case False
      then show ?thesis using v by (auto simp: pte_def)
    qed
  qed
qed

section \<open>Mapping pages\<close>

lemma vm_okD:
  assumes "vm_ok xs pd s"
  shows "kmem_lockable s" "kmem_inv xs s" "dir_ok (kend s) (mem s) pd" "tables (mem s) pd \<inter> set xs = {}"
    "\<forall>x \<in> set xs. page_ok (kend s) x \<and> page_aligned x" "distinct xs"
  using assms by (auto simp: vm_ok_def kmem_inv_def page_ok_aligned)

lemma vm_ok_update:
  assumes "vm_ok xs pd s" "dir_ok (kend s) m pd" "tables m pd \<inter> set xs = {}" "same_on (set xs) (mem s) m"
  shows "vm_ok xs pd (s\<lparr>mem := m\<rparr>)"
  using assms vm_okD [OF assms(1)] flist_cong [OF _ assms(4)]
  by (auto simp: vm_ok_def kmem_inv_def)

text \<open>The entry of a page is set, in a table that is there or in a new one.\<close>

lemma set_entry_took:
  fixes w :: u32
  assumes ok: "vm_ok xs pd s" and v: "v < 1048576" "has_tbl (mem s) pd (v div 1024)"
  defines "t \<equiv> s\<lparr>mem := set_word (tbl (mem s) pd (v div 1024)) (v mod 1024) w (mem s)\<rparr>"
  shows "took pd xs s xs t" "pte (mem t) pd = (pte (mem s) pd)(v := w)"
    "\<And>j. j < 1024 \<Longrightarrow> has_tbl (mem t) pd j = has_tbl (mem s) pd j"
proof -
  note d = vm_okD [OF ok]
  note p = set_pte [OF d(3) v, where w = w]
  have i: "v div 1024 < 1024" using v(1) by auto
  have T: "tbl (mem s) pd (v div 1024) \<in> tables (mem s) pd" by (rule tbl_in_tables [OF v(2) i])
  have "same_on (set xs) (mem s) (mem t)" using p(5) [of "set xs"] d(4,5) T by (auto simp: t_def)
  then have "vm_ok xs pd t" unfolding t_def using d(4) p(1,3) by (intro vm_ok_update [OF ok]) simp_all
  moreover have "mem t x = mem s x" if "\<not> in_pages (tables (mem t) pd) x" for x
    using that T p(1) set_word_other [of "tbl (mem s) pd (v div 1024)" "v mod 1024" x w "mem s"]
    by (auto simp: t_def in_pages_def)
  ultimately show "took pd xs s xs t" using p(1) by (simp add: took_def t_def)
  show "pte (mem t) pd = (pte (mem s) pd)(v := w)" using p(4) by (simp add: t_def)
  show "has_tbl (mem t) pd j = has_tbl (mem s) pd j" if "j < 1024" for j using p(2) [OF that] by (simp add: t_def)
qed

lemma add_tbl_took:
  assumes ok: "vm_ok (x # ys) pd s" and i: "i < 1024" "\<not> has_tbl (mem s) pd i"
  defines "t \<equiv> s\<lparr>mem := add_tbl pd i x (mem s), freelist := load32 (mem s) x\<rparr>"
  shows "took pd (x # ys) s ys t" "pte (mem t) pd = pte (mem s) pd"
    "\<And>j. j < 1024 \<Longrightarrow> has_tbl (mem t) pd j = (j = i \<or> has_tbl (mem s) pd j)"
    "tbl (mem t) pd i = x"
proof -
  note d = vm_okD [OF ok]
  have x: "page_ok (kend s) x" "x \<notin> tables (mem s) pd" "x \<notin> set ys" using d by auto
  note p = add_tbl [OF d(3) x(1,2) i]
  have al: "page_aligned pd" "page_aligned x" using d(5) dir_aligned [OF d(3)] by auto
  have "pd \<notin> set ys" using d(4) dir_in_tables by (metis disjoint_iff list.set_intros(2))
  then have same: "same_on (set ys) (mem s) (mem t)" using p(6) [of "set ys"] d(5) x(3) by (simp add: t_def)
  have "vm_ok ys pd (s\<lparr>freelist := load32 (mem s) x\<rparr>)"
    using ok kalloc_inv [OF d(2)] by (auto simp: vm_ok_def)
  from vm_ok_update [OF this, of "mem t"] have "vm_ok ys pd (s\<lparr>freelist := load32 (mem s) x, mem := mem t\<rparr>)"
    using p(3,4) d(4) x(3) same by (auto simp: t_def)
  moreover have "s\<lparr>freelist := load32 (mem s) x, mem := mem t\<rparr> = t" by (simp add: t_def)
  ultimately have "vm_ok ys pd t" by simp
  moreover have "mem t y = mem s y" if "\<not> in_pages (tables (mem t) pd) y" for y
  proof -
    have "\<not> in_range pd 4096 y" "\<not> in_range x 4096 y"
      using that dir_in_tables unfolding t_def in_pages_def by (auto simp: p(3))
    then show ?thesis using al i(1) by (simp add: t_def add_tbl_def set_word_other memset_eq)
  qed
  ultimately show "took pd (x # ys) s ys t" using p(3) by (auto simp: took_def t_def intro: exI [of _ "[x]"])
  show "pte (mem t) pd = pte (mem s) pd" "tbl (mem t) pd i = x" using p(2,5) i by (simp_all add: t_def)
  show "has_tbl (mem t) pd j = (j = i \<or> has_tbl (mem s) pd j)" if "j < 1024" for j
    using p(1) [OF that] by (simp add: t_def)
qed

lemma entry_nonnull:
  assumes "page_ok ke p" "j < 1024"
  shows "p + 4 * of_nat j \<noteq> 0"
proof
  assume "p + 4 * of_nat j = 0"
  then have "in_range p 4096 0" using word_in_page(1) [OF page_ok_aligned [OF assms(1)] assms(2), of 0] by (simp add: in_range_def)
  then have "unat (0 :: u32) div 4096 = unat p div 4096" by (rule page_of [OF page_ok_aligned [OF assms(1)]])
  then show False using page_ok_bounds [OF assms(1)] by simp
qed

lemma map_one_present:
  assumes "dir_ok (kend s) (mem s) pd" "has_tbl (mem s) pd (vpn va div 1024)"
  shows "map_one pd va pa perm s =
    (if pte (mem s) pd (vpn va) AND PTE_P \<noteq> 0 then Panic ''remap''
     else Ret None (s\<lparr>mem := set_word (tbl (mem s) pd (vpn va div 1024)) (vpn va mod 1024) (pa OR perm OR PTE_P) (mem s)\<rparr>))"
proof -
  have "page_ok (kend s) (tbl (mem s) pd (vpn va div 1024))"
    using assms tbl_in_tables [OF assms(2)] by (auto simp: dir_ok_def)
  from entry_nonnull [OF this, of "vpn va mod 1024"] show ?thesis
    using assms by (simp add: map_one_def walkpgdir_present get32_def put32_def kop_simps pte_def word_at_def set_word_def)
qed

lemma map_one_absent:
  assumes ok: "vm_ok xs pd s" and i: "\<not> has_tbl (mem s) pd (vpn va div 1024)"
  shows "map_one pd va pa perm s = (case xs of [] \<Rightarrow> Ret (Some (- 1)) s
     | x # ys \<Rightarrow> map_one pd va pa perm
         (s\<lparr>mem := add_tbl pd (vpn va div 1024) x (mem s), freelist := load32 (mem s) x\<rparr>))"
proof (cases xs)
  case Nil
  then show ?thesis
    using walkpgdir_alloc [OF vm_okD(1,2) [OF ok] i] by (simp add: map_one_def kop_simps)
next
  case (Cons x ys)
  define t where "t = s\<lparr>mem := add_tbl pd (vpn va div 1024) x (mem s), freelist := load32 (mem s) x\<rparr>"
  note T = add_tbl_took [OF ok [unfolded Cons] vpn_bound(2) i, folded t_def]
  have "walkpgdir pd va True t = Ret (x + 4 * of_nat (vpn va mod 1024)) t"
    using walkpgdir_present [of t pd va True] T(3) [OF vpn_bound(2), of va] T(4) by simp
  moreover have "walkpgdir pd va True s = Ret (x + 4 * of_nat (vpn va mod 1024)) t"
    using walkpgdir_alloc [OF vm_okD(1,2) [OF ok] i] by (simp add: Cons t_def)
  ultimately have "map_one pd va pa perm s = map_one pd va pa perm t" by (simp add: map_one_def kop_simps)
  then show ?thesis by (simp add: Cons t_def)
qed

lemma map_one_ok:
  assumes ok: "vm_ok xs pd s" and free: "pte (mem s) pd (vpn va) AND PTE_P = 0"
    and room: "has_tbl (mem s) pd (vpn va div 1024) \<or> xs \<noteq> []"
  shows "\<exists>t. map_one pd va pa perm s = Ret None t \<and>
    took pd xs s (if has_tbl (mem s) pd (vpn va div 1024) then xs else tl xs) t \<and>
    pte (mem t) pd = (pte (mem s) pd)(vpn va := pa OR perm OR PTE_P) \<and>
    (\<forall>j < 1024. has_tbl (mem t) pd j = (j = vpn va div 1024 \<or> has_tbl (mem s) pd j))"
proof (cases "has_tbl (mem s) pd (vpn va div 1024)")
  case True
  note T = set_entry_took [OF ok vpn_bound(1) True, where w = "pa OR perm OR PTE_P"]
  show ?thesis using map_one_present [OF vm_okD(3) [OF ok] True, of pa perm] T True free by auto
next
  case False
  then obtain x ys where xs: "xs = x # ys" using room by (cases xs) auto
  define t where "t = s\<lparr>mem := add_tbl pd (vpn va div 1024) x (mem s), freelist := load32 (mem s) x\<rparr>"
  note A = add_tbl_took [OF ok [unfolded xs] vpn_bound(2) False, folded t_def]
  have ok': "vm_ok ys pd t" using A(1) by (simp add: took_def)
  have h: "has_tbl (mem t) pd (vpn va div 1024)" using A(3) by simp
  note T = set_entry_took [OF ok' vpn_bound(1) h, where w = "pa OR perm OR PTE_P"]
  have "map_one pd va pa perm s = map_one pd va pa perm t"
    using map_one_absent [OF ok False] by (simp add: xs t_def)
  then show ?thesis
    using map_one_present [OF vm_okD(3) [OF ok'] h, of pa perm] T A took_trans [OF A(1) T(1)] False free by (auto simp: xs)
qed

section \<open>Mapping a range\<close>

text \<open>The tables a range of pages still needs.\<close>

definition missing :: "memory \<Rightarrow> u32 \<Rightarrow> nat \<Rightarrow> nat \<Rightarrow> nat set" where
  "missing m pd lo n = {i \<in> (\<lambda>v. v div 1024) ` {lo..<lo + n}. \<not> has_tbl m pd i}"

definition map_range :: "nat \<Rightarrow> nat \<Rightarrow> u32 \<Rightarrow> u32 \<Rightarrow> (nat \<Rightarrow> u32) \<Rightarrow> nat \<Rightarrow> u32" where
  "map_range lo n pa perm f = (\<lambda>v. if lo \<le> v \<and> v < lo + n then (pa + of_nat (v - lo) * PGSIZE) OR perm OR PTE_P else f v)"

lemma finite_missing [simp]: "finite (missing m pd lo n)"
  by (simp add: missing_def)

lemma missing_Suc:
  assumes "\<forall>j < 1024. has_tbl m' pd j = (j = lo div 1024 \<or> has_tbl m pd j)" "lo + Suc n \<le> 1048576"
  shows "card (missing m pd lo (Suc n)) =
    (if has_tbl m pd (lo div 1024) then 0 else 1) + card (missing m' pd (Suc lo) n)"
proof -
  have r: "{lo..<lo + Suc n} = insert lo {Suc lo..<Suc lo + n}" by auto
  have m': "missing m' pd (Suc lo) n = {i \<in> (\<lambda>v. v div 1024) ` {Suc lo..<Suc lo + n}. i \<noteq> lo div 1024 \<and> \<not> has_tbl m pd i}"
    using assms unfolding missing_def by (intro Collect_cong) auto
  have "missing m pd lo (Suc n) =
      (if has_tbl m pd (lo div 1024) then missing m' pd (Suc lo) n else insert (lo div 1024) (missing m' pd (Suc lo) n))"
    unfolding m' unfolding missing_def r by auto
  moreover have "lo div 1024 \<notin> missing m' pd (Suc lo) n" by (simp add: m')
  ultimately show ?thesis by simp
qed

lemma map_range_Suc: "map_range (Suc lo) n (pa + PGSIZE) perm (f(lo := pa OR perm OR PTE_P)) = map_range lo (Suc n) pa perm f"
proof
  fix v
  have "(pa + 4096 + of_nat (v - Suc lo) * 4096 :: u32) = pa + of_nat (v - lo) * 4096" if "Suc lo \<le> v"
  proof -
    have "v - lo = Suc (v - Suc lo)" using that by simp
    then show ?thesis by (simp add: algebra_simps)
  qed
  then show "map_range (Suc lo) n (pa + PGSIZE) perm (f(lo := pa OR perm OR PTE_P)) v = map_range lo (Suc n) pa perm f v"
    by (auto simp: map_range_def Suc_le_eq)
qed

lemma map_range_0 [simp]: "map_range lo 0 pa perm f = f"
  by (rule ext) (auto simp: map_range_def)

definition page_at :: "u32 \<Rightarrow> nat \<Rightarrow> u32" where
  "page_at a k = a + of_nat k * PGSIZE"

lemma page_at_Suc: "page_at a (Suc k) = page_at a k + PGSIZE"
  by (simp add: page_at_def algebra_simps)

lemma vpn_page_at: "vpn a + k < 1048576 \<Longrightarrow> vpn (page_at a k) = vpn a + k"
proof -
  assume k: "vpn a + k < 1048576"
  then have "unat a + k * 4096 < 4294967296"
    using mod_mult_div_eq [of "unat a" 4096] by (simp add: vpn_def)
  then have "unat (page_at a k) = unat a + k * 4096"
    using unat_of_nat_u32 [of "k * 4096"] by (simp add: page_at_def unat_word_ariths)
  then show ?thesis by (simp add: vpn_def)
qed

lemma map_pages_ok:
  fixes s :: "'a kmem_state_scheme"
  assumes "vm_ok xs pd s" "vpn a + k + n \<le> 1048576"
    and "\<And>v. vpn a + k \<le> v \<Longrightarrow> v < vpn a + k + n \<Longrightarrow> pte (mem s) pd v AND PTE_P = 0"
  shows "\<exists>t ys j. kfor [k..<k + n] (\<lambda>k. map_one pd (page_at a k) (page_at pa k) perm) s =
        Ret (if card (missing (mem s) pd (vpn a + k) n) \<le> length xs then None else Some (- 1)) t \<and>
      took pd xs s ys t \<and> pte (mem t) pd = map_range (vpn a + k) j (page_at pa k) perm (pte (mem s) pd) \<and>
      length ys = length xs - card (missing (mem s) pd (vpn a + k) n) \<and>
      (if card (missing (mem s) pd (vpn a + k) n) \<le> length xs then j = n else j < n) \<and>
      (j = n \<longrightarrow> (\<forall>i < 1024. has_tbl (mem t) pd i = (has_tbl (mem s) pd i \<or> i \<in> (\<lambda>v. v div 1024) ` {vpn a + k..<vpn a + k + n})))"
  using assms
proof (induction n arbitrary: k s xs)
  case 0
  then show ?case using took_refl [OF 0(1)] by (auto simp: missing_def kop_simps intro!: exI [of _ xs] exI [of _ 0])
next
  case (Suc n)
  have v: "vpn (page_at a k) = vpn a + k" using Suc.prems(2) by (intro vpn_page_at) simp
  have free: "pte (mem s) pd (vpn (page_at a k)) AND PTE_P = 0" using Suc.prems(3) v by simp
  have up: "[k..<k + Suc n] = k # [Suc k..<Suc k + n]" by (simp add: upt_rec)
  show ?case
  proof (cases "has_tbl (mem s) pd ((vpn a + k) div 1024) \<or> xs \<noteq> []")
    case True
    let ?zs = "if has_tbl (mem s) pd ((vpn a + k) div 1024) then xs else tl xs"
    obtain t where t: "map_one pd (page_at a k) (page_at pa k) perm s = Ret None t" "took pd xs s ?zs t"
        "pte (mem t) pd = (pte (mem s) pd)(vpn a + k := page_at pa k OR perm OR PTE_P)"
        "\<forall>j < 1024. has_tbl (mem t) pd j = (j = (vpn a + k) div 1024 \<or> has_tbl (mem s) pd j)"
      using map_one_ok [OF Suc.prems(1) free, of "page_at pa k" perm] True unfolding v by blast
    have c: "card (missing (mem s) pd (vpn a + k) (Suc n)) =
        (if has_tbl (mem s) pd ((vpn a + k) div 1024) then 0 else 1) + card (missing (mem t) pd (vpn a + Suc k) n)"
      using missing_Suc [OF t(4), of n] Suc.prems(2) by simp
    have l: "length ?zs = length xs - (if has_tbl (mem s) pd ((vpn a + k) div 1024) then 0 else 1)" by simp
    have "pte (mem t) pd v AND PTE_P = 0" if "vpn a + Suc k \<le> v" "v < vpn a + Suc k + n" for v
      using that Suc.prems(3) [of v] by (simp add: t(3))
    from Suc.IH [OF _ _ this, of ?zs "Suc k"] obtain u ys j where
      u: "kfor [Suc k..<Suc k + n] (\<lambda>k. map_one pd (page_at a k) (page_at pa k) perm) t =
          Ret (if card (missing (mem t) pd (vpn a + Suc k) n) \<le> length ?zs then None else Some (- 1)) u"
        "took pd ?zs t ys u" "pte (mem u) pd = map_range (vpn a + Suc k) j (page_at pa (Suc k)) perm (pte (mem t) pd)"
        "length ys = length ?zs - card (missing (mem t) pd (vpn a + Suc k) n)"
        "if card (missing (mem t) pd (vpn a + Suc k) n) \<le> length ?zs then j = n else j < n"
        "j = n \<longrightarrow> (\<forall>i < 1024. has_tbl (mem u) pd i =
           (has_tbl (mem t) pd i \<or> i \<in> (\<lambda>v. v div 1024) ` {vpn a + Suc k..<vpn a + Suc k + n}))"
      using Suc.prems(2) t(2) by (auto simp: took_def)
    have iff: "card (missing (mem t) pd (vpn a + Suc k) n) \<le> length ?zs \<longleftrightarrow>
        card (missing (mem s) pd (vpn a + k) (Suc n)) \<le> length xs"
      using c True by (cases xs) auto
    have "pte (mem u) pd = map_range (vpn a + k) (Suc j) (page_at pa k) perm (pte (mem s) pd)"
      using u(3) map_range_Suc [of "vpn a + k" j "page_at pa k" perm "pte (mem s) pd"] by (simp add: t(3) page_at_Suc)
    moreover have "kfor [k..<k + Suc n] (\<lambda>k. map_one pd (page_at a k) (page_at pa k) perm) s =
        Ret (if card (missing (mem s) pd (vpn a + k) (Suc n)) \<le> length xs then None else Some (- 1)) u"
      using u(1) unfolding up iff by (simp add: t(1) kop_simps)
    moreover have "length ys = length xs - card (missing (mem s) pd (vpn a + k) (Suc n))"
      unfolding u(4) c l by simp
    moreover have "{vpn a + k..<vpn a + k + Suc n} = insert (vpn a + k) {vpn a + Suc k..<vpn a + Suc k + n}" by auto
    then have "Suc j = Suc n \<longrightarrow> (\<forall>i < 1024. has_tbl (mem u) pd i =
        (has_tbl (mem s) pd i \<or> i \<in> (\<lambda>v. v div 1024) ` {vpn a + k..<vpn a + k + Suc n}))"
      using u(6) t(4) by auto
    ultimately show ?thesis using took_trans [OF t(2) u(2)] u(5) unfolding iff
      by (intro exI [of _ u] exI [of _ ys] exI [of _ "Suc j"]) simp
  next
    case False
    then have "vpn (page_at a k) div 1024 \<in> missing (mem s) pd (vpn a + k) (Suc n)" by (auto simp: missing_def v)
    then have "0 < card (missing (mem s) pd (vpn a + k) (Suc n))" by (auto simp: card_gt_0_iff)
    moreover have "map_one pd (page_at a k) (page_at pa k) perm s = Ret (Some (- 1)) s"
      using map_one_absent [OF Suc.prems(1), of "page_at a k"] False by (simp add: v)
    ultimately show ?thesis using took_refl [OF Suc.prems(1)] False unfolding up
      by (intro exI [of _ s] exI [of _ xs] exI [of _ 0]) (auto simp: kop_simps)
  qed
qed

lemma map_pages_remap:
  assumes "vm_ok xs pd s" "vpn a + k + n \<le> 1048576" "card (missing (mem s) pd (vpn a + k) n) \<le> length xs"
    and "\<exists>v. vpn a + k \<le> v \<and> v < vpn a + k + n \<and> pte (mem s) pd v AND PTE_P \<noteq> 0"
  shows "kfor [k..<k + n] (\<lambda>k. map_one pd (page_at a k) (page_at pa k) perm) s = Panic ''remap''"
  using assms
proof (induction n arbitrary: k s xs)
  case 0
  then show ?case by auto
next
  case (Suc n)
  have v: "vpn (page_at a k) = vpn a + k" using Suc.prems(2) by (intro vpn_page_at) simp
  have up: "[k..<k + Suc n] = k # [Suc k..<Suc k + n]" by (simp add: upt_rec)
  show ?case
  proof (cases "pte (mem s) pd (vpn a + k) AND PTE_P = 0")
    case True
    have room: "has_tbl (mem s) pd ((vpn a + k) div 1024) \<or> xs \<noteq> []"
    proof (rule ccontr)
      assume "\<not> ?thesis"
      then have "(vpn a + k) div 1024 \<in> missing (mem s) pd (vpn a + k) (Suc n)" "xs = []" by (auto simp: missing_def)
      then show False using Suc.prems(3) by auto
    qed
    let ?zs = "if has_tbl (mem s) pd ((vpn a + k) div 1024) then xs else tl xs"
    obtain t where t: "map_one pd (page_at a k) (page_at pa k) perm s = Ret None t" "took pd xs s ?zs t"
        "pte (mem t) pd = (pte (mem s) pd)(vpn a + k := page_at pa k OR perm OR PTE_P)"
        "\<forall>j < 1024. has_tbl (mem t) pd j = (j = (vpn a + k) div 1024 \<or> has_tbl (mem s) pd j)"
      using map_one_ok [OF Suc.prems(1), of "page_at a k" "page_at pa k" perm] True room unfolding v by blast
    have "card (missing (mem t) pd (vpn a + Suc k) n) \<le> length ?zs"
      using missing_Suc [OF t(4), of n] Suc.prems(2,3) room by (cases xs) (auto split: if_splits)
    moreover obtain u where "vpn a + k \<le> u" "u < vpn a + k + Suc n" "pte (mem s) pd u AND PTE_P \<noteq> 0"
      using Suc.prems(4) by blast
    then have "\<exists>v. vpn a + Suc k \<le> v \<and> v < vpn a + Suc k + n \<and> pte (mem t) pd v AND PTE_P \<noteq> 0"
      using True by (intro exI [of _ u]) (auto simp: t(3) le_less)
    moreover have "vm_ok ?zs pd t" using t(2) by (simp add: took_def)
    ultimately have "kfor [Suc k..<Suc k + n] (\<lambda>k. map_one pd (page_at a k) (page_at pa k) perm) t = Panic ''remap''"
      using Suc.prems(2) by (intro Suc.IH) simp_all
    then show ?thesis unfolding up by (simp add: t(1) kop_simps)
  next
    case False
    then have "has_tbl (mem s) pd (vpn (page_at a k) div 1024)" by (auto simp: pte_def v split: if_splits)
    from map_one_present [OF vm_okD(3) [OF Suc.prems(1)] this] False show ?thesis unfolding up by (simp add: v kop_simps)
  qed
qed

text \<open>The pages from the one that holds \<open>va\<close> to the one that holds the last byte.\<close>

definition page_count :: "u32 \<Rightarrow> u32 \<Rightarrow> nat" where
  "page_count va n = vpn (va + n - 1) - vpn va + 1"

lemma mappages_loop:
  assumes "0 < n" "unat va + unat n \<le> 4294967296"
  shows "mappages pd va n pa perm = kbind (kfor [0..<page_count va n]
      (\<lambda>k. map_one pd (page_at (PGROUNDDOWN va) k) (page_at pa k) perm)) (\<lambda>r. kret (case r of Some x \<Rightarrow> x | None \<Rightarrow> 0))"
    "vpn (PGROUNDDOWN va) = vpn va" "vpn va + page_count va n \<le> 1048576"
proof -
  have rd: "unat (PGROUNDDOWN x) = unat x div 4096 * 4096" for x
    using unat_and_page_mask [of x] by (simp add: PGROUNDDOWN_def)
  have n: "0 < unat n" using assms(1) by (simp add: word_less_nat_alt)
  have "va + n - 1 = of_nat (unat va + unat n - 1)" using n by (simp add: of_nat_diff)
  moreover have "unat (of_nat (unat va + unat n - 1) :: u32) = unat va + unat n - 1"
    by (rule unat_of_nat_u32) (use assms(2) n in linarith)
  ultimately have l: "unat (va + n - 1) = unat va + unat n - 1" by (simp only:)
  then have le: "vpn va \<le> vpn (va + n - 1)" using n unfolding vpn_def by (intro div_le_mono) simp
  have "unat (PGROUNDDOWN (va + n - 1) - PGROUNDDOWN va) = (vpn (va + n - 1) - vpn va) * 4096"
    using le rd [of va] rd [of "va + n - 1"]
    by (simp add: unat_sub word_le_nat_alt vpn_def diff_mult_distrib)
  then show "mappages pd va n pa perm = kbind (kfor [0..<page_count va n]
      (\<lambda>k. map_one pd (page_at (PGROUNDDOWN va) k) (page_at pa k) perm)) (\<lambda>r. kret (case r of Some x \<Rightarrow> x | None \<Rightarrow> 0))"
    by (simp add: mappages_def Let_def page_count_def page_at_def)
  show "vpn (PGROUNDDOWN va) = vpn va" by (simp add: vpn_def rd)
  show "vpn va + page_count va n \<le> 1048576"
    unfolding page_count_def using le vpn_bound(1) [of "va + n - 1"] by linarith
qed

text \<open>
  C31: \<^verbatim>\<open>mappages\<close> on a range that does not wrap around. If no page of the range is mapped and the free list has a page
  for every missing table, it returns 0, maps the pages of the range in order to the physical pages from \<open>pa\<close> on with the
  permissions asked for, and leaves every other page as it was. If memory runs out, it returns -1 with a part of the range
  mapped. A page that is already mapped is a panic. The free list loses exactly the pages of the new tables, and no memory
  outside the tables of the directory changes.
\<close>

theorem mappages_correct:
  assumes "vm_ok xs pd s" "0 < n" "unat va + unat n \<le> 4294967296"
  defines "lo \<equiv> vpn va" and "k \<equiv> page_count va n"
  defines "req \<equiv> card (missing (mem s) pd lo k)"
    and "clash \<equiv> (\<exists>v. lo \<le> v \<and> v < lo + k \<and> pte (mem s) pd v AND PTE_P \<noteq> 0)"
  shows "(\<not> clash \<and> req \<le> length xs \<longrightarrow> (\<exists>t ys. mappages pd va n pa perm s = Ret 0 t \<and> took pd xs s ys t \<and>
      length ys = length xs - req \<and> pte (mem t) pd = map_range lo k pa perm (pte (mem s) pd))) \<and>
    (\<not> clash \<and> length xs < req \<longrightarrow> (\<exists>t j. mappages pd va n pa perm s = Ret (- 1) t \<and> took pd xs s [] t \<and>
      j < k \<and> pte (mem t) pd = map_range lo j pa perm (pte (mem s) pd))) \<and>
    (clash \<and> req \<le> length xs \<longrightarrow> mappages pd va n pa perm s = Panic ''remap'')"
proof -
  note l = mappages_loop [OF assms(2,3)]
  have b: "vpn (PGROUNDDOWN va) + 0 + k \<le> 1048576" using l(2,3) by (simp add: k_def)
  have ok: "\<exists>t ys j. mappages pd va n pa perm s = Ret (if req \<le> length xs then 0 else - 1) t \<and>
      took pd xs s ys t \<and> pte (mem t) pd = map_range lo j pa perm (pte (mem s) pd) \<and> length ys = length xs - req \<and>
      (if req \<le> length xs then j = k else j < k)" if "\<not> clash"
  proof -
    have "pte (mem s) pd v AND PTE_P = 0" if "vpn (PGROUNDDOWN va) + 0 \<le> v" "v < vpn (PGROUNDDOWN va) + 0 + k" for v
      using \<open>\<not> clash\<close> that by (auto simp: clash_def lo_def l(2))
    from map_pages_ok [OF assms(1) b this, of pa perm] obtain t ys j where
      "kfor [0..<0 + k] (\<lambda>k. map_one pd (page_at (PGROUNDDOWN va) k) (page_at pa k) perm) s =
        Ret (if req \<le> length xs then None else Some (- 1)) t" "took pd xs s ys t"
      "pte (mem t) pd = map_range lo j pa perm (pte (mem s) pd)" "length ys = length xs - req"
      "if req \<le> length xs then j = k else j < k"
      by (auto simp: l(2) req_def lo_def page_at_def)
    then show ?thesis
      by (intro exI [of _ t] exI [of _ ys] exI [of _ j]) (simp add: l(1) [folded k_def] kop_simps)
  qed
  have "clash \<and> req \<le> length xs \<longrightarrow> mappages pd va n pa perm s = Panic ''remap''"
    using map_pages_remap [OF assms(1) b, of pa perm] unfolding l(1)
    by (auto simp: l(2) clash_def req_def lo_def k_def kop_simps)
  with ok show ?thesis by (cases clash; cases "req \<le> length xs") (fastforce)+
qed

text \<open>An empty directory, in a memory with one free page.\<close>

lemma empty_dir:
  assumes "mem s = (\<lambda>_. 0)"
  shows "pde (mem s) pd i = 0" "\<not> has_tbl (mem s) pd i" "pte (mem s) pd v = 0" "tables (mem s) pd = {pd}"
  using assms by (simp_all add: pde_def word_at_def load32_def un_le32_def has_tbl_def pte_def tables_def)

lemma kmem_example_vm_ok: "vm_ok [0x80200000] 0x80300000 (kmem_example 0x80200000)"
proof -
  have "mem (kmem_example 0x80200000) = (\<lambda>_. 0)" by (simp add: kmem_example_def)
  note e = empty_dir [OF this, where pd = "0x80300000"]
  have "page_ok (kend (kmem_example 0x80200000)) 0x80300000"
    by (simp add: kmem_example_def page_ok_def page_aligned_def v2p_def)
  then show ?thesis using kmem_example_inv kmem_example_ok e by (simp add: vm_ok_def dir_ok_def kmem_ok_def)
qed

theorem mappages_correct_witness:
  "\<exists>t. mappages 0x80300000 0x1000 0x1001 0x5000 7 (kmem_example 0x80200000) = Ret 0 t \<and>
     pte (mem t) 0x80300000 1 = 0x5007 \<and> pte (mem t) 0x80300000 2 = 0x6007 \<and> pte (mem t) 0x80300000 3 = 0 \<and>
     vm_ok [] 0x80300000 t"
proof -
  have "mem (kmem_example 0x80200000) = (\<lambda>_. 0)" by (simp add: kmem_example_def)
  note e = empty_dir [OF this, where pd = "0x80300000"]
  have "missing (mem (kmem_example 0x80200000)) 0x80300000 1 2 = {0}"
    by (auto simp: missing_def e image_iff intro: bexI [of _ 1])
  moreover have "vpn 0x1000 = 1" "page_count 0x1000 0x1001 = 2" by (simp_all add: vpn_def page_count_def)
  ultimately show ?thesis
    using mappages_correct [OF kmem_example_vm_ok, of "0x1001" "0x1000" "0x5000" 7] e
    by (auto simp: map_range_def took_def)
qed

end
