(* ===== verification/Uvm.thy ===== *)
theory Uvm
  imports Paging Pipes
begin

text \<open>
  User address spaces (\<^verbatim>\<open>allocuvm\<close>, \<^verbatim>\<open>copyuvm\<close> of \<^verbatim>\<open>vm.c\<close>): the pages a process gets are new, hold what they should, and
  are shared with no other address space. \<open>page_loop\<close> is the loop both routines have in common: take a page, fill it, map it.
\<close>

unbundle bit_operations_syntax

section \<open>Taking pages into an address space\<close>

text \<open>
  \<open>grew pd fs xs s ys t\<close>: pages from the front of the free list became tables of the directory and the frames \<open>fs\<close>; only
  those tables and frames changed.
\<close>

definition grew :: "u32 \<Rightarrow> u32 list \<Rightarrow> u32 list \<Rightarrow> 'a kmem_state_scheme \<Rightarrow> u32 list \<Rightarrow> 'a kmem_state_scheme \<Rightarrow> bool" where
  "grew pd fs xs s ys t \<longleftrightarrow> vm_ok ys pd t \<and> t = s\<lparr>mem := mem t, freelist := freelist t\<rparr> \<and>
     (\<exists>zs. xs = zs @ ys \<and> tables (mem t) pd \<union> set fs = tables (mem s) pd \<union> set zs) \<and>
     distinct fs \<and> set fs \<inter> (tables (mem t) pd \<union> set ys) = {} \<and> set fs \<subseteq> set xs \<and>
     (\<forall>x. \<not> in_pages (tables (mem t) pd \<union> set fs) x \<longrightarrow> mem t x = mem s x)"

lemma took_grew: "took pd xs s ys t \<Longrightarrow> grew pd [] xs s ys t"
  by (simp add: took_def grew_def)

lemma grew_vm_ok: "grew pd fs xs s ys t \<Longrightarrow> vm_ok ys pd t"
  by (simp add: grew_def)

lemma grew_refl: "vm_ok xs pd s \<Longrightarrow> grew pd [] xs s xs s"
  by (rule took_grew [OF took_refl])

lemma disjoint_pages:
  assumes "\<forall>p \<in> P. page_aligned p" "\<forall>q \<in> Q. page_aligned q" "P \<inter> Q = {}" "in_pages P x"
  shows "\<not> in_pages Q x"
  using assms pages_disjoint unfolding in_pages_def by (metis disjoint_iff)

lemma grew_aligned:
  assumes "vm_ok xs pd s" "grew pd fs xs s ys t"
  shows "\<forall>q \<in> tables (mem t) pd \<union> set fs. page_aligned q"
  using assms vm_okD(5) [OF assms(1)] tables_aligned [OF vm_okD(3) [OF grew_vm_ok [OF assms(2)]]]
  unfolding grew_def by blast

text \<open>Pages outside the address space and the free list keep their contents and stay outside.\<close>

lemma grew_frame:
  assumes ok: "vm_ok xs pd s" and g: "grew pd fs xs s ys t"
    and P: "\<forall>p \<in> P. page_aligned p" "P \<inter> (tables (mem s) pd \<union> set xs) = {}"
  shows "same_on P (mem s) (mem t)" "P \<inter> (tables (mem t) pd \<union> set ys) = {}"
proof -
  from g obtain zs where zs: "xs = zs @ ys" "tables (mem t) pd \<union> set fs = tables (mem s) pd \<union> set zs"
    unfolding grew_def by blast
  have d: "P \<inter> (tables (mem t) pd \<union> set fs) = {}" "P \<inter> set ys = {}" using P(2) zs by auto
  then show "P \<inter> (tables (mem t) pd \<union> set ys) = {}" by blast
  show "same_on P (mem s) (mem t)"
    unfolding same_on_def using disjoint_pages [OF P(1) grew_aligned [OF ok g] d(1)] g unfolding grew_def by metis
qed

lemma grew_trans:
  assumes ok: "vm_ok xs pd s" and g: "grew pd fs xs s ys t" and h: "grew pd gs ys t zs u"
  shows "grew pd (fs @ gs) xs s zs u" "same_on (set fs) (mem t) (mem u)"
proof -
  have ok': "vm_ok ys pd t" by (rule grew_vm_ok [OF g])
  from g obtain as where as: "xs = as @ ys" "tables (mem t) pd \<union> set fs = tables (mem s) pd \<union> set as"
    unfolding grew_def by blast
  from h obtain bs where bs: "ys = bs @ zs" "tables (mem u) pd \<union> set gs = tables (mem t) pd \<union> set bs"
    unfolding grew_def by blast
  have al: "\<forall>p \<in> set fs. page_aligned p" using grew_aligned [OF ok g] by blast
  have fs: "set fs \<inter> (tables (mem t) pd \<union> set ys) = {}" using g unfolding grew_def by blast
  note F = grew_frame [OF ok' h al fs]
  show "same_on (set fs) (mem t) (mem u)" by (rule F(1))
  have "set fs \<inter> set gs = {}" using fs h unfolding grew_def by blast
  moreover have "mem u x = mem s x" if "\<not> in_pages (tables (mem u) pd \<union> set (fs @ gs)) x" for x
  proof -
    have "\<not> in_pages (tables (mem u) pd \<union> set gs) x" "\<not> in_pages (tables (mem t) pd \<union> set fs) x"
      using that bs(2) unfolding in_pages_def by auto
    then show ?thesis using g h unfolding grew_def by metis
  qed
  moreover have "u = s\<lparr>mem := mem u, freelist := freelist u\<rparr>"
    using g h by (intro kmem_update_trans [of t s u]) (simp_all add: grew_def)
  moreover have "xs = (as @ bs) @ zs" "tables (mem u) pd \<union> set (fs @ gs) = tables (mem s) pd \<union> set (as @ bs)"
    using as bs by auto
  ultimately show "grew pd (fs @ gs) xs s zs u"
    using g h F(2) bs(1) unfolding grew_def by (auto 4 4)
qed

text \<open>A page leaves the free list and is filled.\<close>

lemma take_page:
  assumes ok: "vm_ok (x # ys) pd s" and F: "\<forall>y. \<not> in_range x 4096 y \<longrightarrow> m y = mem s y"
  defines "t \<equiv> s\<lparr>mem := m, freelist := load32 (mem s) x\<rparr>"
  shows "grew pd [x] (x # ys) s ys t" "pte (mem t) pd = pte (mem s) pd"
    "\<And>j. j < 1024 \<Longrightarrow> has_tbl (mem t) pd j = has_tbl (mem s) pd j"
proof -
  note d = vm_okD [OF ok]
  have x: "page_aligned x" "x \<notin> set ys" "x \<notin> tables (mem s) pd" using d by auto
  have out: "same_on P (mem s) (mem t)" if "\<forall>p \<in> P. page_aligned p" "x \<notin> P" for P
    by (rule same_on_outside [OF that(1) x(1) that(2)]) (simp add: t_def F)
  have tab: "same_on (tables (mem s) pd) (mem s) (mem t)"
    using tables_aligned [OF d(3)] x(3) by (intro out) auto
  have pd: "page_aligned pd" "same_on {pd} (mem s) (mem t)"
    using dir_aligned [OF d(3)] same_on_mono [OF tab] by auto
  show "pte (mem t) pd = pte (mem s) pd" using pte_cong [OF d(3) tab] by simp
  show "has_tbl (mem t) pd j = has_tbl (mem s) pd j" if "j < 1024" for j using dir_cong(2) [OF pd that] by simp
  have T: "tables (mem t) pd = tables (mem s) pd" "dir_ok (kend s) (mem t) pd"
    using tables_cong [OF pd] d(3) by auto
  have "vm_ok ys pd (s\<lparr>freelist := load32 (mem s) x\<rparr>)"
    using ok kalloc_inv [OF d(2)] by (auto simp: vm_ok_def)
  moreover have "same_on (set ys) (mem s) (mem t)" using d(5) x(2) by (intro out) auto
  ultimately have "vm_ok ys pd (s\<lparr>freelist := load32 (mem s) x, mem := mem t\<rparr>)"
    using T d(4) by (intro vm_ok_update) auto
  moreover have "s\<lparr>freelist := load32 (mem s) x, mem := mem t\<rparr> = t" by (simp add: t_def)
  ultimately have "vm_ok ys pd t" by simp
  moreover have "t = s\<lparr>mem := mem t, freelist := freelist t\<rparr>" by (simp add: t_def)
  moreover have "mem t y = mem s y" if "\<not> in_pages (tables (mem t) pd \<union> set [x]) y" for y
    using that F by (auto simp: t_def in_pages_def)
  ultimately show "grew pd [x] (x # ys) s ys t"
    using T(1) x d(4) by (auto simp: grew_def intro!: exI [of _ "[x]"])
qed

lemma page_count_one: "page_aligned a \<Longrightarrow> page_count a PGSIZE = 1" "page_aligned a \<Longrightarrow> unat a + 4096 \<le> 4294967296"
proof -
  assume a: "page_aligned a"
  then obtain q where q: "unat a = 4096 * q" by (auto simp: page_aligned_nat)
  then have b: "q < 1048576" using u32_bound [of a] by simp
  then show "unat a + 4096 \<le> 4294967296" using q by simp
  have "unat (4095 + a) = unat a + 4095" using q b by (simp add: unat_word_ariths)
  then show "page_count a PGSIZE = 1" using q by (simp add: page_count_def vpn_def)
qed

lemma mappages_one:
  assumes "page_aligned a"
  shows "mappages pd a PGSIZE pa perm s =
    kbind (map_one pd a pa perm) (\<lambda>r. kret (case r of Some x \<Rightarrow> x | None \<Rightarrow> 0)) s"
proof -
  have "PGROUNDDOWN a = a"
    using unat_and_page_mask [of a] assms by (auto simp: PGROUNDDOWN_def page_aligned_nat word_unat_eq_iff)
  moreover have "unat a + unat PGSIZE \<le> 4294967296" "(0 :: u32) < PGSIZE" using page_count_one(2) [OF assms] by simp_all
  ultimately show ?thesis
    by (cases "map_one pd a pa perm s")
      (auto simp: mappages_loop(1) page_count_one(1) [OF assms] page_at_def kop_simps split: option.splits)
qed

text \<open>A directory full of zeroes maps nothing.\<close>

lemma blank_dir:
  assumes "page_aligned pd" "same_on {pd} m (\<lambda>_. 0)"
  shows "i < 1024 \<Longrightarrow> \<not> has_tbl m pd i" "pte m pd = (\<lambda>_. 0)" "tables m pd = {pd}" "page_ok ke pd \<Longrightarrow> dir_ok ke m pd"
proof -
  show no: "\<not> has_tbl m pd i" if "i < 1024" for i
    using word_at_cong [OF assms(1) that assms(2)]
    by (simp add: has_tbl_def pde_def word_at_def load32_def un_le32_def)
  then show t: "tables m pd = {pd}" by (auto simp: tables_def)
  show "pte m pd = (\<lambda>_. 0)" using no by (auto simp: pte_def fun_eq_iff)
  show "dir_ok ke m pd" if "page_ok ke pd" using that no by (auto simp: dir_ok_def t)
qed

section \<open>Take, fill and map: the loop of \<^verbatim>\<open>allocuvm\<close> and \<^verbatim>\<open>copyuvm\<close>\<close>

definition page_addr :: "nat \<Rightarrow> u32" where
  "page_addr v = of_nat (v * 4096)"

lemma page_addr:
  assumes "v < 1048576"
  shows "vpn (page_addr v) = v" "page_aligned (page_addr v)" "unat (page_addr v) = v * 4096"
proof -
  show u: "unat (page_addr v) = v * 4096" using assms unat_of_nat_u32 [of "v * 4096"] by (simp add: page_addr_def)
  then show "vpn (page_addr v) = v" "page_aligned (page_addr v)" by (simp_all add: vpn_def page_aligned_nat)
qed

text \<open>The pages one iteration needs: one to map, and one for the table if it is missing.\<close>

definition pages_for :: "memory \<Rightarrow> u32 \<Rightarrow> nat \<Rightarrow> nat" where
  "pages_for m pd v = (if has_tbl m pd (v div 1024) then 1 else 2)"

definition got_page :: "u32 \<Rightarrow> nat \<Rightarrow> (u32 \<Rightarrow> u32) \<Rightarrow> u8 list \<Rightarrow> u32 list \<Rightarrow> 'a kmem_state_scheme \<Rightarrow> 'a kmem_state_scheme \<Rightarrow> bool" where
  "got_page pd v e c xs s t \<longleftrightarrow> (\<exists>x ys. grew pd [x] xs s ys t \<and> length ys + pages_for (mem s) pd v = length xs \<and>
     pte (mem t) pd = (pte (mem s) pd)(v := e x) \<and>
     (\<forall>j < 1024. has_tbl (mem t) pd j = (j = v div 1024 \<or> has_tbl (mem s) pd j)) \<and> bytes_at (mem t) x 4096 = c)"

lemma bytes_at_cong: "same_on P m m' \<Longrightarrow> p \<in> P \<Longrightarrow> bytes_at m p 4096 = bytes_at m' p 4096"
  by (force simp: bytes_at_def same_on_def in_pages_def in_range_def)

lemma fill_and_map:
  assumes ok: "vm_ok (x # ys) pd s" and F: "\<forall>y. \<not> in_range x 4096 y \<longrightarrow> m y = mem s y"
    and v: "v < 1048576" "pte (mem s) pd v AND PTE_P = 0" "pages_for (mem s) pd v \<le> Suc (length ys)"
  shows "\<exists>t. mappages pd (page_addr v) PGSIZE (v2p x) perm (s\<lparr>freelist := load32 (mem s) x, mem := m\<rparr>) = Ret 0 t \<and>
    got_page pd v (\<lambda>x. v2p x OR perm OR PTE_P) (bytes_at m x 4096) (x # ys) s t"
proof -
  define t where "t = s\<lparr>mem := m, freelist := load32 (mem s) x\<rparr>"
  have i: "v div 1024 < 1024" using v(1) by auto
  note T = take_page [OF ok F, folded t_def]
  have ok': "vm_ok ys pd t" by (rule grew_vm_ok [OF T(1)])
  have h: "has_tbl (mem t) pd (v div 1024) = has_tbl (mem s) pd (v div 1024)" by (rule T(3) [OF i])
  have room: "has_tbl (mem t) pd (v div 1024) \<or> ys \<noteq> []" using v(3) h by (auto simp: pages_for_def)
  obtain u where u: "map_one pd (page_addr v) (v2p x) perm t = Ret None u"
      "took pd ys t (if has_tbl (mem t) pd (v div 1024) then ys else tl ys) u"
      "pte (mem u) pd = (pte (mem s) pd)(v := v2p x OR perm OR PTE_P)"
      "\<forall>j < 1024. has_tbl (mem u) pd j = (j = v div 1024 \<or> has_tbl (mem t) pd j)"
    using map_one_ok [OF ok', of "page_addr v" "v2p x" perm] v(2) room unfolding page_addr(1) [OF v(1)] T(2) by blast
  note G = grew_trans [OF ok T(1) took_grew [OF u(2)]]
  have "bytes_at (mem u) x 4096 = bytes_at m x 4096"
    using bytes_at_cong [OF G(2), of x] by (simp add: t_def)
  moreover have "length (if has_tbl (mem t) pd (v div 1024) then ys else tl ys) + pages_for (mem s) pd v = length (x # ys)"
    using h v(3) by (cases ys) (auto simp: pages_for_def)
  ultimately have "got_page pd v (\<lambda>x. v2p x OR perm OR PTE_P) (bytes_at m x 4096) (x # ys) s u"
    unfolding got_page_def using G(1) u(3,4) T(2,3)
    by (intro exI [of _ x] exI [of _ "if has_tbl (mem t) pd (v div 1024) then ys else tl ys"]) simp
  moreover have "mappages pd (page_addr v) PGSIZE (v2p x) perm t = Ret 0 u"
    using u(1) by (simp add: mappages_one [OF page_addr(2) [OF v(1)]] kop_simps)
  moreover have "s\<lparr>freelist := load32 (mem s) x, mem := m\<rparr> = t" by (simp add: t_def)
  ultimately show ?thesis by auto
qed

definition fresh_range :: "nat \<Rightarrow> u32 list \<Rightarrow> (nat \<Rightarrow> u32 \<Rightarrow> u32) \<Rightarrow> (nat \<Rightarrow> u32) \<Rightarrow> nat \<Rightarrow> u32" where
  "fresh_range lo fs e f = (\<lambda>v. if lo \<le> v \<and> v < lo + length fs then e v (fs ! (v - lo)) else f v)"

lemma fresh_range_Nil [simp]: "fresh_range lo [] e f = f"
  by (rule ext) (auto simp: fresh_range_def)

lemma fresh_range_Cons:
  "fresh_range (Suc lo) fs e (f(lo := e lo x)) = fresh_range lo (x # fs) e f"
proof
  fix v
  have "v - lo = Suc (v - Suc lo)" if "Suc lo \<le> v" using that by simp
  then show "fresh_range (Suc lo) fs e (f(lo := e lo x)) v = fresh_range lo (x # fs) e f v"
    by (auto simp: fresh_range_def Suc_le_eq)
qed

text \<open>
  \<open>P\<close> are the pages the body reads besides the address space it builds: they are neither free nor part of it, so the loop
  does not change them.
\<close>

lemma page_loop:
  fixes s :: "'a kmem_state_scheme"
  assumes step: "\<And>v xs s. lo \<le> v \<Longrightarrow> v < lo + n \<Longrightarrow> vm_ok xs pd s \<Longrightarrow> same_on P mb (mem s) \<Longrightarrow>
      P \<inter> (tables (mem s) pd \<union> set xs) = {} \<Longrightarrow> pte (mem s) pd v AND PTE_P = 0 \<Longrightarrow> pages_for (mem s) pd v \<le> length xs \<Longrightarrow>
      \<exists>t. body v s = Ret None t \<and> got_page pd v (e v) (c v) xs s (t :: 'a kmem_state_scheme)"
    and P: "\<forall>p \<in> P. page_aligned p" and "lo + n \<le> 1048576"
    and "vm_ok xs pd s" "same_on P mb (mem s)" "P \<inter> (tables (mem s) pd \<union> set xs) = {}"
    and "\<And>v. lo \<le> v \<Longrightarrow> v < lo + n \<Longrightarrow> pte (mem s) pd v AND PTE_P = 0"
    and "n + card (missing (mem s) pd lo n) \<le> length xs"
  shows "\<exists>t ys fs. kfor [lo..<lo + n] body s = Ret None t \<and> grew pd fs xs s ys t \<and> length fs = n \<and>
    length ys + n + card (missing (mem s) pd lo n) = length xs \<and>
    pte (mem t) pd = fresh_range lo fs e (pte (mem s) pd) \<and> map (\<lambda>f. bytes_at (mem t) f 4096) fs = map c [lo..<lo + n]"
  using assms
proof (induction n arbitrary: lo s xs)
  case 0
  show ?case
    by (rule exI [of _ s], rule exI [of _ xs], rule exI [of _ "[]"])
      (use grew_refl [OF 0(4)] in \<open>simp add: kop_simps missing_def\<close>)
next
  case (Suc n)
  note prems = Suc.prems(3-)
  have up: "[lo..<lo + Suc n] = lo # [Suc lo..<Suc lo + n]" by (simp add: upt_rec)
  have free: "pte (mem s) pd lo AND PTE_P = 0" using prems(5) by simp
  have room: "pages_for (mem s) pd lo \<le> length xs"
  proof -
    have "0 < card (missing (mem s) pd lo (Suc n))" if "\<not> has_tbl (mem s) pd (lo div 1024)"
      using that by (auto simp: missing_def card_gt_0_iff)
    then show ?thesis using prems(6) by (auto simp: pages_for_def)
  qed
  obtain t x ys where t: "body lo s = Ret None t" "grew pd [x] xs s ys t" "length ys + pages_for (mem s) pd lo = length xs"
      "pte (mem t) pd = (pte (mem s) pd)(lo := e lo x)" "bytes_at (mem t) x 4096 = c lo"
      "\<forall>j < 1024. has_tbl (mem t) pd j = (j = lo div 1024 \<or> has_tbl (mem s) pd j)"
    using Suc.prems(1) [of lo xs s] prems(2,3,4) free room unfolding got_page_def by auto
  have card: "card (missing (mem s) pd lo (Suc n)) = (pages_for (mem s) pd lo - 1) + card (missing (mem t) pd (Suc lo) n)"
    using missing_Suc [OF t(6), of n] prems(1) by (simp add: pages_for_def)
  note F = grew_frame [OF prems(2) t(2) P prems(4)]
  have "\<exists>u zs fs. kfor [Suc lo..<Suc lo + n] body t = Ret None u \<and> grew pd fs ys t zs u \<and> length fs = n \<and>
    length zs + n + card (missing (mem t) pd (Suc lo) n) = length ys \<and>
    pte (mem u) pd = fresh_range (Suc lo) fs e (pte (mem t) pd) \<and>
    map (\<lambda>f. bytes_at (mem u) f 4096) fs = map c [Suc lo..<Suc lo + n]"
  proof (rule Suc.IH)
    show "pte (mem t) pd v AND PTE_P = 0" if "Suc lo \<le> v" "v < Suc lo + n" for v
      using prems(5) [of v] that by (simp add: t(4))
    show "n + card (missing (mem t) pd (Suc lo) n) \<le> length ys"
      using card t(3) prems(6) by (auto simp: pages_for_def split: if_splits)
  qed (use Suc.prems(1,2) prems(1) F same_on_trans [OF prems(3) F(1)] grew_vm_ok [OF t(2)] in auto)
  then obtain u zs fs where u: "kfor [Suc lo..<Suc lo + n] body t = Ret None u" "grew pd fs ys t zs u" "length fs = n"
    "length zs + n + card (missing (mem t) pd (Suc lo) n) = length ys"
    "pte (mem u) pd = fresh_range (Suc lo) fs e (pte (mem t) pd)"
    "map (\<lambda>f. bytes_at (mem u) f 4096) fs = map c [Suc lo..<Suc lo + n]" by blast
  note G = grew_trans [OF prems(2) t(2) u(2)]
  have "bytes_at (mem u) x 4096 = c lo" using bytes_at_cong [OF G(2), of x] t(5) by simp
  moreover have "length zs + Suc n + card (missing (mem s) pd lo (Suc n)) = length xs"
    using t(3) u(4) card by (auto simp: pages_for_def split: if_splits)
  moreover have "pte (mem u) pd = fresh_range lo (x # fs) e (pte (mem s) pd)"
    using u(5) by (simp add: t(4) fresh_range_Cons)
  ultimately show ?case
    unfolding up
    by - (rule exI [of _ u], rule exI [of _ zs], rule exI [of _ "x # fs"],
      use t(1) u(1,3,6) G(1) in \<open>simp add: kop_simps\<close>)
qed

section \<open>allocuvm\<close>

definition npages :: "u32 \<Rightarrow> nat" where
  "npages z = (unat z + 4095) div 4096"

lemma kfor_map: "kfor (map f xs) body s = kfor xs (\<lambda>x. body (f x)) s"
  by (induction xs arbitrary: s) (auto simp: kop_simps split: outcome.splits option.splits)

lemma npages_user: "z \<le> KERNBASE \<Longrightarrow> npages z \<le> 524288"
  by (simp add: npages_def word_le_nat_alt)

lemma pages_below_eq:
  assumes "oldsz \<le> newsz" "newsz \<le> KERNBASE"
  shows "pages_below (PGROUNDUP oldsz) newsz = map page_addr [npages oldsz..<npages oldsz + (npages newsz - npages oldsz)]"
proof -
  have le: "unat oldsz \<le> unat newsz" "unat newsz \<le> 2147483648" using assms by (simp_all add: word_le_nat_alt)
  then have "unat (PGROUNDUP oldsz) = npages oldsz * 4096" using PGROUNDUP_spec(2) [of oldsz] by (simp add: npages_def)
  moreover have "(unat newsz - npages oldsz * 4096 + 4095) div 4096 = npages newsz - npages oldsz"
  proof (cases "npages oldsz * 4096 \<le> unat newsz")
    case True
    then have "unat newsz + 4095 = (unat newsz - npages oldsz * 4096 + 4095) + npages oldsz * 4096" by simp
    then have "npages newsz = (unat newsz - npages oldsz * 4096 + 4095) div 4096 + npages oldsz"
      unfolding npages_def [of newsz] by (metis div_mult_self1 zero_neq_numeral add.commute)
    then show ?thesis by simp
  next
    case False
    have "npages oldsz \<le> npages newsz" using le by (simp add: npages_def div_le_mono)
    moreover have "npages newsz \<le> npages oldsz" using False by (simp add: npages_def)
    ultimately show ?thesis using False by simp
  qed
  moreover have "PGROUNDUP oldsz = page_addr (npages oldsz)"
    using calculation(1) by (metis page_addr_def of_nat_unat ucast_id)
  moreover have "page_addr (npages oldsz + k) = page_addr (npages oldsz) + of_nat k * PGSIZE" for k
    by (simp add: page_addr_def distrib_right)
  ultimately have "pages_below (PGROUNDUP oldsz) newsz = map (\<lambda>k. page_addr (npages oldsz + k)) [0..<npages newsz - npages oldsz]"
    unfolding pages_below_def by (simp only:)
  then show ?thesis by (auto intro: nth_equalityI)
qed

lemma alloc_page_step:
  assumes "vm_ok xs pd s" "v < 1048576" "pte (mem s) pd v AND PTE_P = 0" "pages_for (mem s) pd v \<le> length xs"
  shows "\<exists>t. alloc_page pd oldsz newsz (page_addr v) s = Ret None t \<and>
    got_page pd v (\<lambda>x. v2p x OR (PTE_W OR PTE_U) OR PTE_P) (replicate 4096 0) xs s t"
proof -
  obtain x ys where xs: "xs = x # ys" using assms(4) by (cases xs) (auto simp: pages_for_def split: if_splits)
  have x: "x \<noteq> 0" using vm_okD(5) [OF assms(1)] page_ok_nonzero by (auto simp: xs)
  have z: "bytes_at (memset x 0 4096 (mem s)) x 4096 = replicate 4096 0"
    by (rule nth_equalityI) (auto simp: bytes_at_def memset_eq in_range_def)
  have "\<forall>y. \<not> in_range x 4096 y \<longrightarrow> memset x 0 4096 (mem s) y = mem s y" by (simp add: memset_eq)
  from fill_and_map [OF assms(1) [unfolded xs] this assms(2,3), of "PTE_W OR PTE_U"]
  show ?thesis
    using assms(4) kalloc_step [OF vm_okD(1,2) [OF assms(1)]] x z
    by (auto simp: alloc_page_def clear_page_def kop_simps xs)
qed

lemma allocuvm_grows:
  fixes s :: "'a vm_state_scheme" and oldsz newsz :: u32
  defines "lo \<equiv> npages oldsz" and "n \<equiv> npages newsz - npages oldsz"
  assumes ok: "vm_ok xs pd s" and h: "oldsz \<le> newsz" "newsz < KERNBASE"
    "\<forall>v. lo \<le> v \<and> v < lo + n \<longrightarrow> pte (mem s) pd v AND PTE_P = 0" "n + card (missing (mem s) pd lo n) \<le> length xs"
  shows "\<exists>t ys fs. allocuvm pd oldsz newsz s = Ret newsz t \<and> grew pd fs xs s ys t \<and> length fs = n \<and>
    length ys + n + card (missing (mem s) pd lo n) = length xs \<and>
    pte (mem t) pd = fresh_range lo fs (\<lambda>_ f. v2p f OR (PTE_W OR PTE_U) OR PTE_P) (pte (mem s) pd) \<and>
    (\<forall>f \<in> set fs. bytes_at (mem t) f 4096 = replicate 4096 0)"
proof -
  have "newsz \<le> KERNBASE" "oldsz \<le> KERNBASE" using h(1,2) by auto
  then have b: "lo + n \<le> 1048576" using npages_user [of newsz] npages_user [of oldsz] unfolding lo_def n_def by linarith
  have "\<exists>t ys fs. kfor [lo..<lo + n] (\<lambda>v. alloc_page pd oldsz newsz (page_addr v)) s = Ret None t \<and>
    grew pd fs xs s ys t \<and> length fs = n \<and> length ys + n + card (missing (mem s) pd lo n) = length xs \<and>
    pte (mem t) pd = fresh_range lo fs (\<lambda>_ f. v2p f OR (PTE_W OR PTE_U) OR PTE_P) (pte (mem s) pd) \<and>
    map (\<lambda>f. bytes_at (mem t) f 4096) fs = map (\<lambda>_. replicate 4096 0) [lo..<lo + n]"
  proof (rule page_loop [where P = "{}" and mb = "mem s"])
    fix v and zs and u :: "'a vm_state_scheme"
    assume "v < lo + n" "vm_ok zs pd u" "pte (mem u) pd v AND PTE_P = 0" "pages_for (mem u) pd v \<le> length zs"
    then show "\<exists>t. alloc_page pd oldsz newsz (page_addr v) u = Ret None t \<and>
        got_page pd v (\<lambda>f. v2p f OR (PTE_W OR PTE_U) OR PTE_P) (replicate 4096 0) zs u t"
      using b by (intro alloc_page_step) auto
  qed (use ok h(3,4) b in auto)
  then obtain t ys fs where t: "kfor [lo..<lo + n] (\<lambda>v. alloc_page pd oldsz newsz (page_addr v)) s = Ret None t"
    "grew pd fs xs s ys t" "length fs = n" "length ys + n + card (missing (mem s) pd lo n) = length xs"
    "pte (mem t) pd = fresh_range lo fs (\<lambda>_ f. v2p f OR (PTE_W OR PTE_U) OR PTE_P) (pte (mem s) pd)"
    "map (\<lambda>f. bytes_at (mem t) f 4096) fs = map (\<lambda>_. replicate 4096 0) [lo..<lo + n]" by blast
  have "\<forall>f \<in> set fs. bytes_at (mem t) f 4096 = replicate 4096 0"
    using arg_cong [OF t(6), of set] by auto
  moreover have "allocuvm pd oldsz newsz s = Ret newsz t"
    using t(1) h(1,2) \<open>newsz \<le> KERNBASE\<close> 
    by (auto simp: allocuvm_def pages_below_eq lo_def n_def kop_simps kfor_map dest: leD)
  ultimately show ?thesis using t by blast
qed

text \<open>
  C32: \<^verbatim>\<open>allocuvm\<close> returns 0 for a size that reaches into the kernel and the old size when it is not to grow. Otherwise, with
  enough memory for the new pages and their tables, it returns the new size; every page between the sizes is mapped for the
  user to a page of its own from the free list, filled with zeroes, and everything else in memory outside the tables of the
  directory, in particular every other address space, is as before.
\<close>

theorem allocuvm_correct:
  fixes s :: "'a vm_state_scheme" and oldsz newsz :: u32
  assumes "vm_ok xs pd s"
  defines "lo \<equiv> npages oldsz" and "n \<equiv> npages newsz - npages oldsz"
  shows "(newsz \<ge> KERNBASE \<longrightarrow> allocuvm pd oldsz newsz s = Ret 0 s) \<and>
    (newsz < oldsz \<and> newsz < KERNBASE \<longrightarrow> allocuvm pd oldsz newsz s = Ret oldsz s) \<and>
    (oldsz \<le> newsz \<and> newsz < KERNBASE \<and> (\<forall>v. lo \<le> v \<and> v < lo + n \<longrightarrow> pte (mem s) pd v AND PTE_P = 0) \<and>
       n + card (missing (mem s) pd lo n) \<le> length xs \<longrightarrow>
     (\<exists>t ys fs. allocuvm pd oldsz newsz s = Ret newsz t \<and> grew pd fs xs s ys t \<and> length fs = n \<and>
       length ys + n + card (missing (mem s) pd lo n) = length xs \<and>
       pte (mem t) pd = fresh_range lo fs (\<lambda>_ f. v2p f OR (PTE_W OR PTE_U) OR PTE_P) (pte (mem s) pd) \<and>
       (\<forall>f \<in> set fs. bytes_at (mem t) f 4096 = replicate 4096 0)))"
  using allocuvm_grows [OF assms(1), of oldsz newsz] unfolding lo_def n_def by (auto simp: allocuvm_def kop_simps)

text \<open>
  C33: The result of \<^verbatim>\<open>mappages\<close> is not looked at. When the last free page is taken for the user and none is left for the
  table it needs, \<^verbatim>\<open>allocuvm\<close> still returns the new size: the page is not mapped, and it is lost to the free list.
\<close>

theorem allocuvm_unmapped:
  fixes s :: "'a vm_state_scheme"
  assumes "vm_ok [x] pd s" "oldsz \<le> newsz" "newsz < KERNBASE" "npages newsz = Suc (npages oldsz)"
    and "\<not> has_tbl (mem s) pd (npages oldsz div 1024)"
  shows "\<exists>t. allocuvm pd oldsz newsz s = Ret newsz t \<and> pte (mem t) pd = pte (mem s) pd \<and> vm_ok [] pd t"
proof -
  let ?v = "npages oldsz"
  have v: "?v < 1048576" using npages_user [of newsz] assms(3,4) by (simp add: less_imp_le)
  have i: "?v div 1024 < 1024" using v by auto
  have x: "x \<noteq> 0" using vm_okD(5) [OF assms(1)] page_ok_nonzero by auto
  define t where "t = s\<lparr>mem := memset x 0 4096 (mem s), freelist := load32 (mem s) x\<rparr>"
  have "\<forall>y. \<not> in_range x 4096 y \<longrightarrow> memset x 0 4096 (mem s) y = mem s y" by (simp add: memset_eq)
  note T = take_page [OF assms(1) this, folded t_def]
  have "map_one pd (page_addr ?v) (v2p x) (PTE_W OR PTE_U) t = Ret (Some (- 1)) t"
    using map_one_absent [OF grew_vm_ok [OF T(1)], of "page_addr ?v"] T(3) [OF i] assms(5) by (simp add: page_addr [OF v])
  moreover have "s\<lparr>freelist := load32 (mem s) x, mem := memset x 0 4096 (mem s)\<rparr> = t" by (simp add: t_def)
  ultimately have "alloc_page pd oldsz newsz (page_addr ?v) s = Ret None t"
    using kalloc_step [OF vm_okD(1,2) [OF assms(1)]] x
    by (simp add: alloc_page_def clear_page_def mappages_one [OF page_addr(2) [OF v]] kop_simps)
  moreover have "pages_below (PGROUNDUP oldsz) newsz = [page_addr ?v]"
    using pages_below_eq [OF assms(2)] assms(3,4) by (simp add: less_imp_le)
  ultimately have "allocuvm pd oldsz newsz s = Ret newsz t"
    using assms(2,3) by (auto simp: allocuvm_def kop_simps dest: leD)
  then show ?thesis using T(2) grew_vm_ok [OF T(1)] by auto
qed

text \<open>A machine with two free pages and an empty directory.\<close>

definition two_pages :: "u32 \<Rightarrow> vm_state" where
  "two_pages p = (idle_machine [] [] (\<lambda>_. wrap_pipe)
     (vm_state_ext 0 0 (\<lambda>_. 0) (\<lambda>_ _. SEG 0 0 0 0) (\<lambda>_. 0) (\<lambda>_. 0) (\<lambda>_. 0) (\<lambda>_. 0) (\<lambda>_. 0) (\<lambda>_. 0) ()))
       \<lparr>mem := store32 0x80200000 p (\<lambda>_. 0), kend := 0x80108000, use_lock := False, freelist := 0x80200000\<rparr>"

lemma two_pages_ok:
  assumes "p = 0 \<and> xs = [0x80200000] \<or> p = 0x80201000 \<and> xs = [0x80200000, 0x80201000]"
  shows "vm_ok xs 0x80300000 (two_pages p)" "\<not> has_tbl (mem (two_pages p)) 0x80300000 0"
    "pte (mem (two_pages p)) 0x80300000 = (\<lambda>_. 0)"
proof -
  have al: "page_aligned 0x80300000" "page_aligned 0x80200000" by (simp_all add: page_aligned_def)
  have "same_on {0x80300000} (\<lambda>_. 0) (set_word 0x80200000 0 p (\<lambda>_. 0))" using al by (intro same_on_set_word) auto
  then have "same_on {0x80300000} (mem (two_pages p)) (\<lambda>_. 0)"
    by (simp add: two_pages_def set_word_def same_on_def)
  note B = blank_dir [OF al(1) this]
  show "\<not> has_tbl (mem (two_pages p)) 0x80300000 0" "pte (mem (two_pages p)) 0x80300000 = (\<lambda>_. 0)" by (simp_all add: B)
  have "load32 (store32 0x80200000 p (\<lambda>_. 0)) 0x80201000 = 0"
    by (simp add: load32_def store32_def un_le32_def)
  then have "kmem_inv xs (two_pages p)"
    using assms by (auto simp: kmem_inv_def two_pages_def page_ok_def page_aligned_def v2p_def)
  moreover have "kmem_lockable (two_pages p)" by (simp add: kmem_lockable_def two_pages_def)
  moreover have "page_ok (kend (two_pages p)) 0x80300000" by (simp add: two_pages_def page_ok_def page_aligned_def v2p_def)
  ultimately show "vm_ok xs 0x80300000 (two_pages p)" using assms B(3,4) by (auto simp: vm_ok_def)
qed

theorem allocuvm_correct_witness:
  "\<exists>t f. allocuvm 0x80300000 0 100 (two_pages 0x80201000) = Ret 100 t \<and> pte (mem t) 0x80300000 0 = v2p f OR 7 \<and>
     bytes_at (mem t) f 4096 = replicate 4096 0 \<and> vm_ok [] 0x80300000 t"
proof -
  note W = two_pages_ok [of "0x80201000" "[0x80200000, 0x80201000]", simplified]
  have m: "missing (mem (two_pages 0x80201000)) 0x80300000 0 1 = {0}" using W(2) by (auto simp: missing_def)
  show ?thesis
    using allocuvm_correct [OF W(1), of 100 0] m
    by (auto simp: npages_def W(3) fresh_range_def length_Suc_conv grew_def)
qed

theorem allocuvm_unmapped_witness:
  "\<exists>t. allocuvm 0x80300000 0 100 (two_pages 0) = Ret 100 t \<and> pte (mem t) 0x80300000 0 = 0 \<and> vm_ok [] 0x80300000 t"
proof -
  note W = two_pages_ok [of 0 "[0x80200000]", simplified]
  show ?thesis using allocuvm_unmapped [OF W(1), of 0 100] W(2,3) by (auto simp: npages_def)
qed

end
