(* ===== verification/Spec2Isabelle.thy ===== *)
theory Spec2Isabelle
  imports Kalloc Trap Files Shell Descriptors Uvm
begin

text \<open>
  A verification library for the Dixv6 kernel, a teaching Unix for 32-bit x86 in C, and for the shell that runs on it.

  \<^bold>\<open>How the code is modelled.\<close> A kernel routine is a function from the state to an \<open>outcome\<close>: it returns a value and a
  new state (\<open>Ret\<close>), panics with a message (\<open>Panic\<close>), gives the CPU away inside \<^verbatim>\<open>sched\<close> (\<open>Switch\<close>), spins or loops for
  ever (\<open>Hang\<close>), or does what C leaves undefined (\<open>Fault\<close>). Routines are composed with \<open>kbind\<close> and \<open>kseq\<close> in the order
  of the source. The state is one record, extended component by component: \<open>hw_state\<close> (CPUs and locks), \<open>proc_state\<close>
  (process table), \<open>kmem_state\<close> (memory and free list), \<open>bio_state\<close> (buffers and disk), \<open>log_state\<close>, \<open>icache_state\<close>,
  \<open>dev_state\<close>, \<open>cons_state\<close>, \<open>file_state\<close> (open files and pipes), \<open>vm_state\<close>, \<open>sys_state\<close>. C's \<^verbatim>\<open>uint\<close>, \<^verbatim>\<open>ushort\<close> and
  \<^verbatim>\<open>uchar\<close> are words, so that arithmetic wraps as in C. A routine that sleeps ends in \<open>Switch\<close>; what the process does when
  it runs again is a definition of its own (\<open>sleep_retry\<close>, \<open>pipewrite_resume\<close>, \<open>piperead_resume\<close>).

  \<^bold>\<open>Foundations.\<close>
  \<^item> \<open>Xv6_Prelude\<close>: outcomes, sequencing, loops, total-correctness triples \<open>kspec\<close>, the locale \<open>slot_table\<close> of fixed-size
    tables searched for their first free slot.
  \<^item> \<open>Codec\<close>, \<open>Params\<close>: little-endian encodings and byte ranges; the constants and macros of \<^verbatim>\<open>param.h\<close>, \<^verbatim>\<open>fs.h\<close>,
    \<^verbatim>\<open>memlayout.h\<close>, \<^verbatim>\<open>mmu.h\<close>.

  \<^bold>\<open>The kernel.\<close>
  \<^item> \<open>Spinlock\<close> (\<^verbatim>\<open>spinlock.c\<close>): the routines of one CPU, and the protocol of several CPUs as an inductive step relation
    whose reachable states never have two holders.
  \<^item> \<open>Proc\<close>, \<open>Process\<close> (\<^verbatim>\<open>proc.c\<close>): \<open>sleep\<close>, \<open>wakeup\<close>, \<open>sched\<close>, \<open>kill\<close>; \<open>allocproc\<close>, \<open>fork\<close>, \<open>exit\<close>, \<open>wait\<close>, \<open>scheduler\<close>.
  \<^item> \<open>Memory\<close>, \<open>CString\<close> (\<^verbatim>\<open>string.c\<close>, \<^verbatim>\<open>ulib.c\<close>, part of \<^verbatim>\<open>fs.c\<close>): block and string routines, shown equal to what they
    mean, overlapping copies and 14-byte names included.
  \<^item> \<open>Kalloc\<close> (\<^verbatim>\<open>kalloc.c\<close>): the free list inside the free pages; locale \<open>page_allocator\<close>, interpreted on \<open>kalloc\<close> and
    \<open>kfree\<close>; boot puts every page on the list once.
  \<^item> \<open>Bio\<close> (\<^verbatim>\<open>bio.c\<close>, \<^verbatim>\<open>memide.c\<close>): the doubly linked list of buffers refines a least-recently-used cache and the cache
    refines a store of blocks.
  \<^item> \<open>Layout\<close>, \<open>Log\<close>, \<open>Trans\<close> (\<^verbatim>\<open>fs.h\<close>, \<^verbatim>\<open>log.c\<close>): the on-disk structures as arrays; transactions, commit and recovery; the
    view of the disk inside a transaction.
  \<^item> \<open>Inode\<close>, \<open>Fs\<close> (\<^verbatim>\<open>fs.c\<close>): block allocator, inode cache, block map, file contents, directories, paths. \<open>Balloc\<close>,
    \<open>Freemap\<close>, \<open>Filemap\<close>, \<open>Files\<close> prove the allocator, the map with its direct, single and double indirect ranges, and
    \<open>readi\<close> and \<open>writei\<close> against files as byte lists (locale \<open>block_reader\<close>).
  \<^item> \<open>Devices\<close>, \<open>Console\<close> (\<^verbatim>\<open>picirq.c\<close>, \<^verbatim>\<open>ioapic.c\<close>, \<^verbatim>\<open>lapic.c\<close>, \<^verbatim>\<open>timer.c\<close>, \<^verbatim>\<open>uart.c\<close>, \<^verbatim>\<open>kbd.c\<close>, \<^verbatim>\<open>console.c\<close>): register
    writes, key decoding, output and line discipline.
  \<^item> \<open>File\<close>, \<open>Pipes\<close> (\<^verbatim>\<open>file.c\<close>, \<^verbatim>\<open>pipe.c\<close>): open files; a pipe is a bounded queue (locale \<open>bounded_queue\<close>) also when its
    32-bit counters wrap around.
  \<^item> \<open>Vm\<close>, \<open>Paging\<close> (\<^verbatim>\<open>vm.c\<close>): page tables in memory and the address spaces they describe.
  \<^item> \<open>Syscall\<close>, \<open>Exec\<close>, \<open>Sysfile\<close>, \<open>Trap\<close> (\<^verbatim>\<open>syscall.c\<close>, \<^verbatim>\<open>sysproc.c\<close>, \<^verbatim>\<open>exec.c\<close>, \<^verbatim>\<open>sysfile.c\<close>, \<^verbatim>\<open>trap.c\<close>): argument
    fetching, every system call, and the dispatch of traps.
  \<^item> \<open>Frames\<close>, \<open>Descriptors\<close>: for every routine the part of the process and file tables it can change, and from that the
    invariant of the whole system call interface: reference counts equal the descriptors in use.

  \<^bold>\<open>User programs.\<close>
  \<^item> \<open>Sh\<close>, \<open>Shell\<close> (\<^verbatim>\<open>sh.c\<close>): the lexer and the recursive-descent parser inverted by a printer, and running a command,
    with the tree of system calls of a process, against the meaning of the command.

  \<^bold>\<open>Loops and fuel.\<close> A loop over a table or range is recursion on its list or on a bounded number, and two groups of loops take
  fuel: \<open>freerange_loop\<close> gets one more than the pages up to its end, which \<open>boot_memory\<close> shows to be enough. The routines
  of the parser get fuel from the length of the line, and \<open>parsecmd_terminates\<close> shows that it is never used up. A loop that
  waits for hardware or for another CPU ends in \<open>Hang\<close>.

  \<^bold>\<open>Not modelled.\<close> The assembly files (\<^verbatim>\<open>bootasm.S\<close>, \<^verbatim>\<open>entry.S\<close>, \<^verbatim>\<open>entryother.S\<close>, \<^verbatim>\<open>initcode.S\<close>, \<^verbatim>\<open>swtch.S\<close>, \<^verbatim>\<open>trapasm.S\<close>,
  \<^verbatim>\<open>usys.S\<close>, \<^verbatim>\<open>uthread_switch.S\<close>, \<^verbatim>\<open>vectors.S\<close>) and the C code that only runs between them (\<^verbatim>\<open>bootmain.c\<close>, \<^verbatim>\<open>main.c\<close>):
  their meaning is that of the instructions. \<^verbatim>\<open>ide.c\<close> and \<^verbatim>\<open>mp.c\<close>, which poll hardware; the file system is composed with
  the memory disk instead. \<open>getcallerpcs\<close>, which follows the frame pointers of the machine stack. The test programs
  \<^verbatim>\<open>usertests.c\<close>, \<^verbatim>\<open>forktest.c\<close>, \<^verbatim>\<open>stressfs.c\<close> and the other small user programs. Caches, reordering of memory accesses and
  the timing of interrupts: a routine runs without being interrupted, except where it gives the CPU away itself.
\<close>

end
